(* ===== verification/Prelude.thy ===== *)
theory Prelude
  imports Main "HOL-Library.Word" "HOL-Library.Signed_Division" "HOL-Library.Multiset"
begin

unbundle bit_operations_syntax

text \<open>
  Shared ground of the development: the machine integer types of the C++ sources, bytes in memory
  order (every target of the project is little-endian, and the sources rely on it by copying
  integers with \<open>memcpy\<close>), \<open>size_t\<close> arithmetic on \<open>nat\<close> with the wrap-around written out, and
  the state-and-exception type in which the fallible, stateful operations are written: a C++
  exception leaves the state as it was at the throw, so an error value carries the state too.
\<close>

named_theorems preserves \<open>state predicates kept by an operation\<close>
named_theorems byte_simps \<open>byte encodings of words\<close>

section \<open>Machine integers\<close>

type_synonym u8 = "8 word"
type_synonym u16 = "16 word"
type_synonym u32 = "32 word"
type_synonym u64 = "64 word"

text \<open>\<open>size_t\<close> values are natural numbers below \<open>2 ^ 64\<close>; subtraction wraps.\<close>

definition size_sub :: "nat \<Rightarrow> nat \<Rightarrow> nat" where
  "size_sub a b = (a + 2 ^ 64 - b) mod 2 ^ 64"

definition size_add :: "nat \<Rightarrow> nat \<Rightarrow> nat" where
  "size_add a b = (a + b) mod 2 ^ 64"

lemma size_sub_le: "b \<le> a \<Longrightarrow> a < 2 ^ 64 \<Longrightarrow> size_sub a b = a - b"
proof -
  assume le: "b \<le> a" and small: "a < 2 ^ 64"
  have "size_sub a b = (a - b + 2 ^ 64) mod 2 ^ 64"
    by (simp only: size_sub_def add_diff_assoc2 [OF le])
  also have "\<dots> = (a - b) mod 2 ^ 64" by (rule mod_add_self2)
  also have "\<dots> = a - b" using small by (intro mod_less) (rule le_less_trans [OF diff_le_self])
  finally show ?thesis .
qed

lemma size_add_small: "a + b < 2 ^ 64 \<Longrightarrow> size_add a b = a + b"
  by (simp add: size_add_def)

lemma unat_byte_less: "unat (b :: u8) < 256"
proof -
  have "uint b < 2 ^ LENGTH(8)" by (rule uint_lt2p)
  then have "uint b < 256" by simp
  then have "int (unat b) < 256" by (simp only: uint_nat [symmetric])
  then show ?thesis by linarith
qed

section \<open>Bytes in memory order\<close>

text \<open>\<open>le_bytes n w\<close> is the object representation of the low \<open>n\<close> bytes of \<open>w\<close>;
  \<open>le_val\<close> reads a representation back, zero-extended.\<close>

fun le_bytes :: "nat \<Rightarrow> u64 \<Rightarrow> u8 list" where
  "le_bytes 0 w = []"
| "le_bytes (Suc n) w = ucast w # le_bytes n (drop_bit 8 w)"

fun le_val :: "u8 list \<Rightarrow> u64" where
  "le_val [] = 0"
| "le_val (b # bs) = ucast b OR push_bit 8 (le_val bs)"

lemma length_le_bytes [simp]: "length (le_bytes n w) = n"
  by (induction n arbitrary: w) auto

lemma bit_le_val:
  "bit (le_val bs) k \<longleftrightarrow> k < 64 \<and> k div 8 < length bs \<and> bit (bs ! (k div 8)) (k mod 8)"
proof (induction bs arbitrary: k)
  case Nil
  then show ?case by simp
next
  case (Cons b bs)
  show ?case
  proof (cases "k < 8")
    case True
    then show ?thesis by (simp add: bit_simps)
  next
    case False
    then have "k div 8 = Suc ((k - 8) div 8)" "k mod 8 = (k - 8) mod 8"
      by (simp_all add: le_div_geq le_mod_geq)
    then show ?thesis using False Cons.IH [of "k - 8"]
      by (auto simp: bit_simps dest: bit_imp_le_length)
  qed
qed

lemma nth_le_bytes: "i < n \<Longrightarrow> le_bytes n w ! i = ucast (drop_bit (8 * i) w)"
proof (induction n arbitrary: w i)
  case 0
  then show ?case by simp
next
  case (Suc n)
  then show ?case
    by (cases i) (simp_all add: drop_bit_drop_bit add.commute)
qed

lemma le_val_le_bytes [byte_simps]: "le_val (le_bytes n w) = take_bit (8 * n) w"
proof (rule bit_word_eqI)
  fix k :: nat
  assume "k < LENGTH(64)"
  then show "bit (le_val (le_bytes n w)) k \<longleftrightarrow> bit (take_bit (8 * n) w) k"
  proof (cases "k div 8 < n")
    case True
    have "bit (le_val (le_bytes n w)) k \<longleftrightarrow> bit (le_bytes n w ! (k div 8)) (k mod 8)"
      using True \<open>k < LENGTH(64)\<close> by (simp add: bit_le_val)
    also have "\<dots> \<longleftrightarrow> bit w (8 * (k div 8) + k mod 8)"
      using True by (simp add: nth_le_bytes bit_simps)
    also have "\<dots> \<longleftrightarrow> bit (take_bit (8 * n) w) k"
      using True by (auto simp: bit_simps)
    finally show ?thesis .
  next
    case False
    then show ?thesis by (auto simp: bit_le_val bit_simps)
  qed
qed

lemma le_val_le_bytes_8 [byte_simps]: "le_val (le_bytes 8 w) = w"
proof -
  have "take_bit 64 w = w" using take_bit_length_eq [of w] by simp
  then show ?thesis by (simp add: le_val_le_bytes)
qed

lemma le_bytes_le_val [byte_simps]:
  assumes "length bs \<le> 8"
  shows "le_bytes (length bs) (le_val bs) = bs"
proof (rule nth_equalityI)
  show "length (le_bytes (length bs) (le_val bs)) = length bs" by simp
next
  fix i assume "i < length (le_bytes (length bs) (le_val bs))"
  then have i: "i < length bs" by simp
  show "le_bytes (length bs) (le_val bs) ! i = bs ! i"
  proof (rule bit_word_eqI)
    fix k :: nat assume "k < LENGTH(8)"
    then have k: "k < 8" by simp
    then have "(8 * i + k) div 8 = i" "(8 * i + k) mod 8 = k" by simp_all
    moreover have "8 * i + k < 64" using i k assms by simp
    ultimately show "bit (le_bytes (length bs) (le_val bs) ! i) k \<longleftrightarrow> bit (bs ! i) k"
      using i k by (simp add: nth_le_bytes bit_simps bit_le_val)
  qed
qed

section \<open>Overwriting a stretch of a byte list\<close>

definition write_at :: "nat \<Rightarrow> 'a list \<Rightarrow> 'a list \<Rightarrow> 'a list" where
  "write_at off new old = take off old @ new @ drop (off + length new) old"

definition read_at :: "nat \<Rightarrow> nat \<Rightarrow> 'a list \<Rightarrow> 'a list" where
  "read_at off n bs = take n (drop off bs)"

lemma length_write_at [simp]:
  "off + length new \<le> length old \<Longrightarrow> length (write_at off new old) = length old"
  by (simp add: write_at_def)

lemma length_read_at [simp]: "off + n \<le> length bs \<Longrightarrow> length (read_at off n bs) = n"
  by (simp add: read_at_def)

lemma nth_write_at:
  assumes "off + length new \<le> length old" "i < length old"
  shows "write_at off new old ! i =
    (if off \<le> i \<and> i < off + length new then new ! (i - off) else old ! i)"
  using assms by (auto simp: write_at_def nth_append min_def)

lemma read_write_same:
  "off + length new \<le> length old \<Longrightarrow> read_at off (length new) (write_at off new old) = new"
  by (simp add: read_at_def write_at_def)

lemma read_write_other:
  assumes "off + length new \<le> length old"
    and "o2 + n \<le> length old"
    and "o2 + n \<le> off \<or> off + length new \<le> o2"
  shows "read_at o2 n (write_at off new old) = read_at o2 n old"
  using assms
  by (intro nth_equalityI) (auto simp: read_at_def nth_write_at)

section \<open>State with exceptions\<close>

type_synonym ('e, 's, 'a) eff = "'s \<Rightarrow> ('e + 'a) \<times> 's"

definition retE :: "'a \<Rightarrow> ('e, 's, 'a) eff" where
  "retE a s = (Inr a, s)"

definition throwE :: "'e \<Rightarrow> ('e, 's, 'a) eff" where
  "throwE e s = (Inl e, s)"

definition modifyE :: "('s \<Rightarrow> 's) \<Rightarrow> ('e, 's, unit) eff" where
  "modifyE f s = (Inr (), f s)"

definition getsE :: "('s \<Rightarrow> 'a) \<Rightarrow> ('e, 's, 'a) eff" where
  "getsE f s = (Inr (f s), s)"

definition bindE :: "('e, 's, 'a) eff \<Rightarrow> ('a \<Rightarrow> ('e, 's, 'b) eff) \<Rightarrow> ('e, 's, 'b) eff" where
  "bindE m f s = (case m s of (Inl e, t) \<Rightarrow> (Inl e, t) | (Inr a, t) \<Rightarrow> f a t)"

lemmas eff_defs = retE_def throwE_def modifyE_def getsE_def bindE_def

lemma bindE_retE [simp]: "bindE (retE a) f = f a"
  by (rule ext) (simp add: eff_defs)

lemma bindE_assoc: "bindE (bindE m f) g = bindE m (\<lambda>a. bindE (f a) g)"
  by (rule ext) (simp add: bindE_def split: prod.splits sum.splits)

text \<open>\<open>keeps P m\<close>: the operation \<open>m\<close> keeps the state predicate \<open>P\<close>, also when it throws.\<close>

definition keeps :: "('s \<Rightarrow> bool) \<Rightarrow> ('e, 's, 'a) eff \<Rightarrow> bool" where
  "keeps P m \<longleftrightarrow> (\<forall>s. P s \<longrightarrow> P (snd (m s)))"

lemma keepsI: "(\<And>s. P s \<Longrightarrow> P (snd (m s))) \<Longrightarrow> keeps P m"
  by (simp add: keeps_def)

lemma keepsD: "keeps P m \<Longrightarrow> P s \<Longrightarrow> P (snd (m s))"
  by (simp add: keeps_def)

lemma keeps_retE [preserves]: "keeps P (retE a)"
  by (simp add: keeps_def retE_def)

lemma keeps_throwE [preserves]: "keeps P (throwE e)"
  by (simp add: keeps_def throwE_def)

lemma keeps_getsE [preserves]: "keeps P (getsE f)"
  by (simp add: keeps_def getsE_def)

lemma keeps_modifyE: "(\<And>s. P s \<Longrightarrow> P (f s)) \<Longrightarrow> keeps P (modifyE f)"
  by (simp add: keeps_def modifyE_def)

lemma keeps_bindE [preserves]:
  "keeps P m \<Longrightarrow> (\<And>a. keeps P (f a)) \<Longrightarrow> keeps P (bindE m f)"
  by (fastforce simp: keeps_def bindE_def split: prod.splits sum.splits)

lemma keeps_if [preserves]:
  "keeps P m \<Longrightarrow> keeps P n \<Longrightarrow> keeps P (if b then m else n)"
  by simp

section \<open>Lists\<close>

lemma take_eq_take_append: "length xs \<le> n \<Longrightarrow> take n (xs @ ys) = xs @ take (n - length xs) ys"
  by simp

lemma distinct_removeAll_set: "distinct xs \<Longrightarrow> set (removeAll x xs) = set xs - {x}"
  by simp

end
