(* ===== verification/RiscvArith.thy ===== *)
theory RiscvArith
  imports Prelude
begin

text \<open>
  The arithmetic of \<open>TinyRISCV64.h\<close> that does not touch the machine state: the high halves of
  128-bit products, in the two versions the preprocessor selects between (compiler 128-bit
  integers, or the emulation on 32-bit limbs), and C++ signed division, which truncates.
  The emulation is proved equal to the compiler version, which the machine in \<open>RiscvVM\<close> uses.
\<close>

section \<open>Signed division of C++\<close>

definition cpp_div :: "'a::len word \<Rightarrow> 'a word \<Rightarrow> 'a word" where
  "cpp_div a b = word_of_int (sint a sdiv sint b)"

definition cpp_rem :: "'a::len word \<Rightarrow> 'a word \<Rightarrow> 'a word" where
  "cpp_rem a b = word_of_int (sint a smod sint b)"

text \<open>The quotient of the most negative value by \<open>- 1\<close> is not representable: C++ leaves both
  \<open>/\<close> and \<open>%\<close> undefined there (x86-64 raises a divide error).\<close>

definition div_overflows :: "'a::len word \<Rightarrow> 'a word \<Rightarrow> bool" where
  "div_overflows a b \<longleftrightarrow> sint a = - (2 ^ (LENGTH('a) - 1)) \<and> sint b = - 1"

section \<open>High halves of products with compiler 128-bit integers\<close>

definition mulh :: "u64 \<Rightarrow> u64 \<Rightarrow> u64" where
  "mulh a b = ucast (signed_drop_bit 64 ((scast a :: 128 word) * scast b))"

definition mulhu :: "u64 \<Rightarrow> u64 \<Rightarrow> u64" where
  "mulhu a b = ucast (drop_bit 64 ((ucast a :: 128 word) * ucast b))"

definition mulhsu :: "u64 \<Rightarrow> u64 \<Rightarrow> u64" where
  "mulhsu a b = ucast (drop_bit 64 ((scast a :: 128 word) * ucast b))"

section \<open>The emulation on 32-bit limbs\<close>

definition mulu64_128 :: "u64 \<Rightarrow> u64 \<Rightarrow> u64 \<times> u64" where
  "mulu64_128 a b =
    (let a_lo = a AND 0xFFFFFFFF; a_hi = drop_bit 32 a;
         b_lo = b AND 0xFFFFFFFF; b_hi = drop_bit 32 b;
         p0 = a_lo * b_lo; p1 = a_lo * b_hi; p2 = a_hi * b_lo; p3 = a_hi * b_hi;
         mid = drop_bit 32 p0 + (p1 AND 0xFFFFFFFF) + (p2 AND 0xFFFFFFFF);
         lo = (p0 AND 0xFFFFFFFF) OR push_bit 32 mid;
         hi = p3 + drop_bit 32 p1 + drop_bit 32 p2 + drop_bit 32 mid
     in (hi, lo))"

definition negate_hi :: "u64 \<times> u64 \<Rightarrow> u64" where
  "negate_hi p = (let hi = NOT (fst p); lo = NOT (snd p) + 1 in if lo = 0 then hi + 1 else hi)"

definition mulh_emu :: "u64 \<Rightarrow> u64 \<Rightarrow> u64" where
  "mulh_emu a b =
    (let neg = ((a <s 0) \<noteq> (b <s 0));
         abs_a = (if a <s 0 then 0 - a else a);
         abs_b = (if b <s 0 then 0 - b else b)
     in if neg then negate_hi (mulu64_128 abs_a abs_b) else fst (mulu64_128 abs_a abs_b))"

definition mulhsu_emu :: "u64 \<Rightarrow> u64 \<Rightarrow> u64" where
  "mulhsu_emu a b = (if a <s 0 then negate_hi (mulu64_128 (0 - a) b) else fst (mulu64_128 a b))"

definition mulhu_emu :: "u64 \<Rightarrow> u64 \<Rightarrow> u64" where
  "mulhu_emu a b = fst (mulu64_128 a b)"

section \<open>The products as integers\<close>

text \<open>Both versions are read back as integers, where the high half is a division by \<open>2 ^ 64\<close>.\<close>

lemma hi_half_logical:
  "uint (ucast (drop_bit 64 (word_of_int k :: 128 word)) :: u64) = k div 2 ^ 64 mod 2 ^ 64"
proof -
  have "uint (ucast (drop_bit 64 (word_of_int k :: 128 word)) :: u64) = take_bit 64 (drop_bit 64 k)"
    by (rule bit_eqI) (auto simp: bit_simps)
  then show ?thesis by (simp add: take_bit_eq_mod drop_bit_eq_div)
qed

lemma hi_half_arith:
  "uint (ucast (signed_drop_bit 64 (word_of_int k :: 128 word)) :: u64) = k div 2 ^ 64 mod 2 ^ 64"
proof -
  have "uint (ucast (signed_drop_bit 64 (word_of_int k :: 128 word)) :: u64) = take_bit 64 (drop_bit 64 k)"
    by (rule bit_eqI) (auto simp: bit_simps bit_signed_drop_bit_iff)
  then show ?thesis by (simp add: take_bit_eq_mod drop_bit_eq_div)
qed

lemma uint_mulh: "uint (mulh a b) = (sint a * sint b div 2 ^ 64) mod 2 ^ 64"
proof -
  have "(scast a :: 128 word) * scast b = word_of_int (sint a * sint b)"
    by (simp only: scast_eq of_int_mult)
  then show ?thesis by (simp only: mulh_def hi_half_arith)
qed

lemma uint_mulhsu: "uint (mulhsu a b) = (sint a * uint b div 2 ^ 64) mod 2 ^ 64"
proof -
  have "(scast a :: 128 word) * ucast b = word_of_int (sint a * uint b)"
    by (simp only: scast_eq ucast_eq of_int_mult)
  then show ?thesis by (simp only: mulhsu_def hi_half_logical)
qed

lemma uint_mul_less: "uint (a :: u64) * uint (b :: u64) < 2 ^ 64 * 2 ^ 64"
  by (intro mult_strict_mono) (use uint_lt2p [of a] uint_lt2p [of b] in simp_all)

lemma uint_mulhu: "uint (mulhu a b) = uint a * uint b div 2 ^ 64"
proof -
  have "(ucast a :: 128 word) * ucast b = word_of_int (uint a * uint b)"
    by (simp only: ucast_eq of_int_mult)
  then have "uint (mulhu a b) = uint a * uint b div 2 ^ 64 mod 2 ^ 64"
    by (simp only: mulhu_def hi_half_logical)
  also have "\<dots> = uint a * uint b div 2 ^ 64"
    using uint_mul_less [of a b]
    by (intro mod_pos_pos_trivial) (simp_all add: pos_imp_zdiv_nonneg_iff div_less_iff_less_mult)
  finally show ?thesis .
qed

section \<open>The limbs of the emulation\<close>

lemma limb_sum:
  fixes B :: int
  assumes "p0 = q0 * B + r0" "p1 = q1 * B + r1" "p2 = q2 * B + r2" "q0 + r1 + r2 = mq * B + mr"
  shows "p0 + (p1 + p2) * B + p3 * (B * B) = (p3 + q1 + q2 + mq) * (B * B) + (r0 + mr * B)"
  using assms by algebra

lemma int_limbs:
  fixes x y :: int
  defines "p0 \<equiv> (x mod 2 ^ 32) * (y mod 2 ^ 32)"
    and "p1 \<equiv> (x mod 2 ^ 32) * (y div 2 ^ 32)"
    and "p2 \<equiv> (x div 2 ^ 32) * (y mod 2 ^ 32)"
    and "p3 \<equiv> (x div 2 ^ 32) * (y div 2 ^ 32)"
  defines "mid \<equiv> p0 div 2 ^ 32 + p1 mod 2 ^ 32 + p2 mod 2 ^ 32"
  shows "x * y = (p3 + p1 div 2 ^ 32 + p2 div 2 ^ 32 + mid div 2 ^ 32) * 2 ^ 64
    + (p0 mod 2 ^ 32 + (mid mod 2 ^ 32) * 2 ^ 32)"
proof -
  define X1 X0 Y1 Y0 :: int where "X1 = x div 2 ^ 32" and "X0 = x mod 2 ^ 32"
    and "Y1 = y div 2 ^ 32" and "Y0 = y mod 2 ^ 32"
  have xy: "x = X1 * 2 ^ 32 + X0" "y = Y1 * 2 ^ 32 + Y0"
    by (simp_all only: X1_def X0_def Y1_def Y0_def div_mult_mod_eq)
  have "x * y = p0 + (p1 + p2) * 2 ^ 32 + p3 * (2 ^ 32 * 2 ^ 32)"
    unfolding p0_def p1_def p2_def p3_def X1_def [symmetric] X0_def [symmetric]
      Y1_def [symmetric] Y0_def [symmetric]
    by (simp add: xy algebra_simps)
  also have "\<dots> = (p3 + p1 div 2 ^ 32 + p2 div 2 ^ 32 + mid div 2 ^ 32) * (2 ^ 32 * 2 ^ 32)
    + (p0 mod 2 ^ 32 + (mid mod 2 ^ 32) * 2 ^ 32)"
    by (rule limb_sum) (simp_all only: mid_def div_mult_mod_eq)
  finally show ?thesis by simp
qed

lemma and_mask32: "(x :: u64) AND 0xFFFFFFFF = take_bit 32 x"
proof -
  have "(0xFFFFFFFF :: u64) = mask 32" by (simp add: mask_eq_exp_minus_1)
  then show ?thesis by (simp only: take_bit_eq_mask)
qed

lemma uint_take32: "uint (take_bit 32 (x :: u64)) = uint x mod 2 ^ 32"
  by (metis unsigned_take_bit_eq take_bit_eq_mod)

lemma uint_shr32: "uint (drop_bit 32 (x :: u64)) = uint x div 2 ^ 32"
proof -
  have "uint (drop_bit 32 x) = drop_bit 32 (uint x)"
    by (rule bit_eqI) (auto simp: bit_simps dest: bit_imp_le_length)
  then show ?thesis by (simp only: drop_bit_eq_div)
qed

lemma uint_limb_mult:
  assumes "uint (x :: u64) < 2 ^ 32" "uint y < 2 ^ 32"
  shows "uint (x * y) = uint x * uint y"
proof -
  have "uint x * uint y < 2 ^ 32 * 2 ^ 32"
    using assms by (intro mult_strict_mono) simp_all
  then show ?thesis by (simp add: uint_word_ariths)
qed

lemma uint_limb_less: "uint x div 2 ^ 32 < 2 ^ 32" for x :: u64
  using uint_lt2p [of x] by (simp add: div_less_iff_less_mult)

lemma low_or_shifted:
  "uint (take_bit 32 p OR push_bit 32 m) = uint p mod 2 ^ 32 + (uint m mod 2 ^ 32) * 2 ^ 32"
  for p m :: u64
proof -
  have "uint (take_bit 32 p OR push_bit 32 m) =
      take_bit 32 (uint p) OR push_bit 32 (take_bit 32 (uint m))"
    by (rule bit_eqI) (auto simp: bit_simps)
  also have "\<dots> = take_bit 32 (uint p) + push_bit 32 (take_bit 32 (uint m))"
    by (rule disjunctive_add_eq_or [symmetric]) (auto simp: bit_eq_iff bit_simps)
  finally show ?thesis by (simp only: take_bit_eq_mod push_bit_eq_mult)
qed

lemma uint_add_small: "uint x + uint y < 2 ^ 64 \<Longrightarrow> uint (x + y) = uint x + uint (y :: u64)"
  by (simp add: uint_word_ariths)

lemma uint_add4_small:
  fixes a b c d :: u64
  assumes "uint a + uint b + uint c + uint d < 2 ^ 64"
  shows "uint (a + b + c + d) = uint a + uint b + uint c + uint d"
proof -
  have pos: "0 \<le> uint c" "0 \<le> uint d" by simp_all
  have ab: "uint (a + b) = uint a + uint b"
    by (rule uint_add_small) (use assms pos in linarith)
  have abc: "uint (a + b + c) = uint a + uint b + uint c"
    using assms pos uint_add_small [of "a + b" c] unfolding ab by linarith
  show ?thesis
    using assms pos uint_add_small [of "a + b + c" d] unfolding abc by linarith
qed

lemma mulu64_128_correct:
  "uint (fst (mulu64_128 a b)) * 2 ^ 64 + uint (snd (mulu64_128 a b)) = uint a * uint b"
proof -
  let ?x = "uint a" and ?y = "uint b"
  define p0 where "p0 = take_bit 32 a * take_bit 32 b"
  define p1 where "p1 = take_bit 32 a * drop_bit 32 b"
  define p2 where "p2 = drop_bit 32 a * take_bit 32 b"
  define p3 where "p3 = drop_bit 32 a * drop_bit 32 b"
  define mid where "mid = drop_bit 32 p0 + take_bit 32 p1 + take_bit 32 p2"
  have def_hi: "fst (mulu64_128 a b) = p3 + drop_bit 32 p1 + drop_bit 32 p2 + drop_bit 32 mid"
    and def_lo: "snd (mulu64_128 a b) = take_bit 32 p0 OR push_bit 32 mid"
    by (simp_all only: mulu64_128_def Let_def and_mask32 fst_conv snd_conv
        p0_def p1_def p2_def p3_def mid_def)
  have ps: "uint p0 = (?x mod 2 ^ 32) * (?y mod 2 ^ 32)" "uint p1 = (?x mod 2 ^ 32) * (?y div 2 ^ 32)"
    "uint p2 = (?x div 2 ^ 32) * (?y mod 2 ^ 32)" "uint p3 = (?x div 2 ^ 32) * (?y div 2 ^ 32)"
    unfolding p0_def p1_def p2_def p3_def
    by (subst uint_limb_mult; simp only: uint_take32 uint_shr32 uint_limb_less pos_mod_bound zero_less_power zero_less_numeral)+
  have "uint p0 div 2 ^ 32 + uint p1 mod 2 ^ 32 + uint p2 mod 2 ^ 32 + uint (0 :: u64) < 2 ^ 64"
    using uint_limb_less [of p0] pos_mod_bound [of "2 ^ 32" "uint p1"] pos_mod_bound [of "2 ^ 32" "uint p2"]
    by simp
  then have mid: "uint mid = uint p0 div 2 ^ 32 + uint p1 mod 2 ^ 32 + uint p2 mod 2 ^ 32"
    using uint_add4_small [of "drop_bit 32 p0" "take_bit 32 p1" "take_bit 32 p2" 0]
    by (simp only: mid_def uint_take32 uint_shr32 unsigned_0 add_0_right)
  let ?H = "uint p3 + uint p1 div 2 ^ 32 + uint p2 div 2 ^ 32 + uint mid div 2 ^ 32"
  have lo: "uint (snd (mulu64_128 a b)) = uint p0 mod 2 ^ 32 + (uint mid mod 2 ^ 32) * 2 ^ 32"
    by (simp only: def_lo low_or_shifted)
  have total: "?x * ?y = ?H * 2 ^ 64 + uint (snd (mulu64_128 a b))"
    using int_limbs [of ?x ?y] by (simp only: lo mid ps)
  have "?H * 2 ^ 64 < 2 ^ 64 * 2 ^ 64"
    using total uint_mul_less [of a b] uint_ge_0 [of "snd (mulu64_128 a b)"] by linarith
  then have "?H < 2 ^ 64" by simp
  then have "uint (fst (mulu64_128 a b)) = ?H"
    using uint_add4_small [of p3 "drop_bit 32 p1" "drop_bit 32 p2" "drop_bit 32 mid"]
    by (simp only: def_hi uint_shr32)
  then show ?thesis using total by simp
qed

lemma uint_mulhu_emu: "uint (mulhu_emu a b) = uint a * uint b div 2 ^ 64"
proof -
  have "uint a * uint b = uint (snd (mulu64_128 a b)) + uint (fst (mulu64_128 a b)) * 2 ^ 64"
    using mulu64_128_correct [of a b] by simp
  then have "uint a * uint b div 2 ^ 64 = uint (fst (mulu64_128 a b)) + uint (snd (mulu64_128 a b)) div 2 ^ 64"
    by simp
  also have "uint (snd (mulu64_128 a b)) div 2 ^ 64 = 0"
    using uint_lt2p [of "snd (mulu64_128 a b)"] by simp
  finally show ?thesis by (simp add: mulhu_emu_def)
qed

lemma neg_div_split:
  fixes B :: int
  assumes "0 < l" "l < B"
  shows "(- (h * B + l)) div B = - h - 1"
proof -
  have "- (h * B + l) = (B - l) + (- h - 1) * B" by (simp add: algebra_simps)
  also have "\<dots> div B = (- h - 1) + (B - l) div B" using assms by simp
  also have "(B - l) div B = 0" using assms by (intro div_pos_pos_trivial) simp_all
  finally show ?thesis by simp
qed

lemma uint_negate_hi:
  assumes "p = uint (fst q) * 2 ^ 64 + uint (snd q)"
  shows "uint (negate_hi q) = (- p) div 2 ^ 64 mod 2 ^ 64"
proof (cases "snd q = 0")
  case True
  then have "p = uint (fst q) * 2 ^ 64" using assms by simp
  then have "- p div 2 ^ 64 = - uint (fst q)" by simp
  moreover have "negate_hi q = - fst q"
    using True by (simp add: negate_hi_def Let_def not_eq_complement)
  ultimately show ?thesis by (simp add: uint_word_ariths)
next
  case False
  then have "NOT (snd q) + 1 \<noteq> 0" by (simp add: not_eq_complement)
  then have n: "negate_hi q = - fst q - 1"
    by (simp add: negate_hi_def Let_def not_eq_complement)
  have "uint (snd q) \<noteq> 0" using False by (metis unsigned_0 unsigned_word_eqI)
  then have "0 < uint (snd q)" using uint_ge_0 [of "snd q"] by linarith
  then have "(- p) div 2 ^ 64 = - uint (fst q) - 1"
    unfolding assms using uint_lt2p [of "snd q"] by (intro neg_div_split) simp_all
  then show ?thesis by (simp add: n uint_word_ariths mod_diff_left_eq)
qed


lemma uint_abs_word:
  "uint (if a <s 0 then 0 - a else a) = \<bar>sint a\<bar>" for a :: u64
proof (cases "a <s 0")
  case True
  then have neg: "sint a < 0" by (simp add: word_sless_alt)
  have lo: "- (2 ^ 63) \<le> sint a" using sint_ge [of a] by simp
  have "0 - a = word_of_int (- sint a)" by simp
  then have "uint (0 - a) = (- sint a) mod 2 ^ 64"
    by (simp only: uint_word_of_int) simp
  then show ?thesis using neg lo True by simp
next
  case False
  then have "0 \<le> sint a" by (simp add: word_sless_alt)
  moreover have "sint a < 2 ^ 63" using sint_lt [of a] by simp
  moreover have "uint a = sint a mod 2 ^ 64" by (subst uint_sint) (simp add: take_bit_eq_mod)
  ultimately show ?thesis using False by simp
qed


lemma uint_fst_mulu: "p = uint a * uint b \<Longrightarrow> uint (fst (mulu64_128 a b)) = p div 2 ^ 64 mod 2 ^ 64"
proof -
  assume "p = uint a * uint b"
  then have "uint (fst (mulu64_128 a b)) = p div 2 ^ 64"
    using uint_mulhu_emu [of a b] by (simp add: mulhu_emu_def)
  moreover have "0 \<le> uint (fst (mulu64_128 a b))" "uint (fst (mulu64_128 a b)) < 2 ^ 64"
    using uint_lt2p [of "fst (mulu64_128 a b)"] by simp_all
  ultimately show ?thesis by simp
qed

lemma uint_negate_mulu:
  "p = - (uint a * uint b) \<Longrightarrow> uint (negate_hi (mulu64_128 a b)) = p div 2 ^ 64 mod 2 ^ 64"
  using uint_negate_hi [OF mulu64_128_correct [symmetric], of a b] by simp

lemma mulh_emu_eq: "mulh_emu a b = mulh a b"
proof (rule word_uint_eqI)
  define x y where "x = (if a <s 0 then 0 - a else a)" and "y = (if b <s 0 then 0 - b else b)"
  have xy: "uint x = \<bar>sint a\<bar>" "uint y = \<bar>sint b\<bar>"
    by (simp_all only: x_def y_def uint_abs_word)
  have sgn: "(a <s 0) = (sint a < 0)" "(b <s 0) = (sint b < 0)"
    by (simp_all add: word_sless_alt)
  show "uint (mulh_emu a b) = uint (mulh a b)"
  proof (cases "(a <s 0) \<noteq> (b <s 0)")
    case True
    then have "sint a * sint b = - (uint x * uint y)" unfolding xy sgn by (auto simp: abs_if)
    then have "uint (negate_hi (mulu64_128 x y)) = sint a * sint b div 2 ^ 64 mod 2 ^ 64"
      by (rule uint_negate_mulu)
    then show ?thesis using True
      by (simp only: mulh_emu_def Let_def x_def y_def not_False_eq_True if_True uint_mulh)
  next
    case False
    then have "sint a * sint b = uint x * uint y" unfolding xy sgn by (auto simp: abs_if)
    then have "uint (fst (mulu64_128 x y)) = sint a * sint b div 2 ^ 64 mod 2 ^ 64"
      by (rule uint_fst_mulu)
    then show ?thesis using False
      by (simp only: mulh_emu_def Let_def x_def y_def if_False uint_mulh)
  qed
qed

lemma mulhsu_emu_eq: "mulhsu_emu a b = mulhsu a b"
proof (rule word_uint_eqI)
  have x: "uint (if a <s 0 then 0 - a else a) = \<bar>sint a\<bar>" by (rule uint_abs_word)
  show "uint (mulhsu_emu a b) = uint (mulhsu a b)"
  proof (cases "a <s 0")
    case True
    then have "sint a * uint b = - (uint (0 - a) * uint b)"
      using x by (simp add: word_sless_alt abs_if)
    then have "uint (negate_hi (mulu64_128 (0 - a) b)) = sint a * uint b div 2 ^ 64 mod 2 ^ 64"
      by (rule uint_negate_mulu)
    then show ?thesis using True by (simp only: mulhsu_emu_def if_True uint_mulhsu)
  next
    case False
    then have "sint a * uint b = uint a * uint b"
      using x by (simp add: word_sless_alt abs_if)
    then have "uint (fst (mulu64_128 a b)) = sint a * uint b div 2 ^ 64 mod 2 ^ 64"
      by (rule uint_fst_mulu)
    then show ?thesis using False by (simp only: mulhsu_emu_def if_False uint_mulhsu)
  qed
qed

lemma mulhu_emu_eq: "mulhu_emu a b = mulhu a b"
  by (rule word_uint_eqI) (simp only: uint_mulhu_emu uint_mulhu)

text \<open>
  C37. The multiplication helpers compiled on platforms without 128-bit integers return what the
  versions on compiler 128-bit integers return, for every pair of operands; both are the high
  64 bits of the signed, mixed or unsigned product.
\<close>

theorem mul_high_emulation:
  "mulh_emu a b = mulh a b \<and> mulhsu_emu a b = mulhsu a b \<and> mulhu_emu a b = mulhu a b
   \<and> uint (mulh a b) = (sint a * sint b div 2 ^ 64) mod 2 ^ 64
   \<and> uint (mulhsu a b) = (sint a * uint b div 2 ^ 64) mod 2 ^ 64
   \<and> uint (mulhu a b) = uint a * uint b div 2 ^ 64"
  by (intro conjI mulh_emu_eq mulhsu_emu_eq mulhu_emu_eq uint_mulh uint_mulhsu uint_mulhu)

end
