(* ===== verification/RiscvVM.thy ===== *)
theory RiscvVM
  imports RiscvArith
begin

text \<open>
  The RV64IM virtual machine of \<open>src/src/TinyRISCV64.h\<close>: its state, its virtual address space,
  instruction decoding and execution, as operations on a state record that return a value or the
  error the source throws, with the state as it is at the throw. The last three errors are not
  exceptions of the source, they mark undefined behaviour of the C++: \<open>UndefinedRem\<close> is
  \<open>INT32_MIN % -1\<close> in REMW, which the source does not guard, \<open>UndefinedFetch\<close> an instruction fetch outside
  the program vector, and \<open>UndefinedAccess\<close> a \<open>memcpy\<close> of a load or store that leaves the buffer it is in. The last
  two are proved never to happen.
\<close>

section \<open>State and errors\<close>

datatype vm_error =
    ProgramTooLarge | FileOpenFailed | InvalidRegister | ProgramTooSmall
  | PcOutsideProgram | MaxInstructions | UnknownOpcode | MemOutOfBounds
  | UnknownBranch | UnknownLoad | UnknownStore | UnknownAluImm | UnknownAluImm32
  | UnknownAluReg | UnknownAluReg32 | WfiUnsupported
  | PrivilegedReturn u32 u64 | UnknownSystem u32 u64
  | SemihostUnsupported u64 | EcallUnsupported u64
  | UndefinedRem | UndefinedFetch | UndefinedAccess

record vm =
  vm_pc :: u64
  vm_inst :: u32
  vm_prog :: "u8 list"
  vm_x :: "u64 list"
  vm_stack :: "u8 list"
  vm_data :: "u8 list"
  vm_halted :: bool
  vm_max_prog :: nat
  p_end :: u64
  d_beg :: u64
  d_end :: u64
  s_beg :: u64
  s_end :: u64

type_synonym 'a vm_op = "(vm_error, vm, 'a) eff"

definition p_beg :: u64 where "p_beg = 0"

definition round4 :: "u64 \<Rightarrow> u64" where
  "round4 n = (n + 3) AND NOT 3"

definition reset :: "vm \<Rightarrow> vm" where
  "reset v =
    (let ps = of_nat (length (vm_prog v)); ds = of_nat (length (vm_data v));
         ss = of_nat (length (vm_stack v));
         x0 = replicate 32 0;
         x1 = x0[1 := round4 ps];
         x2 = x1[2 := ps + 64 + ds + 64 + ss];
         x8 = x2[8 := x2 ! 2]
     in v\<lparr>vm_x := x8, p_end := ps, d_beg := ps + 64, d_end := ps + 64 + ds,
          s_beg := ps + 64 + ds + 64, s_end := ps + 64 + ds + 64 + ss\<rparr>)"

definition new_VM :: "nat \<Rightarrow> nat \<Rightarrow> vm" where
  "new_VM stack_size max_program_size =
    reset \<lparr>vm_pc = 0, vm_inst = 0, vm_prog = [], vm_x = replicate 32 0,
      vm_stack = replicate stack_size 0, vm_data = [], vm_halted = False,
      vm_max_prog = max_program_size, p_end = 0, d_beg = 0, d_end = 0, s_beg = 0, s_end = 0\<rparr>"

section \<open>Loading programs and data\<close>

text \<open>The file is the content an \<open>ifstream\<close> opened at its end delivers, or \<open>None\<close> if it does
  not open.\<close>

definition load_program :: "u8 list option \<Rightarrow> nat \<Rightarrow> vm_error + u8 list" where
  "load_program file max_size =
    (case file of None \<Rightarrow> Inl FileOpenFailed
     | Some bs \<Rightarrow> if length bs > max_size then Inl ProgramTooLarge else Inr bs)"

definition program_load_file :: "u8 list option \<Rightarrow> u64 vm_op" where
  "program_load_file file v =
    (case load_program file (vm_max_prog v) of
       Inl e \<Rightarrow> (Inl e, v)
     | Inr prog \<Rightarrow> (Inr p_beg, reset (v\<lparr>vm_prog := prog\<rparr>)))"

definition program_load :: "u8 list \<Rightarrow> u64 vm_op" where
  "program_load prog v =
    (if length prog > vm_max_prog v then (Inl ProgramTooLarge, v)
     else (Inr p_beg, reset (v\<lparr>vm_prog := prog\<rparr>)))"

definition map_data_mem :: "u8 list \<Rightarrow> u64 vm_op" where
  "map_data_mem mem v = (let v' = reset (v\<lparr>vm_data := mem\<rparr>) in (Inr (d_beg v'), v'))"

section \<open>Registers\<close>

definition register_set :: "nat \<Rightarrow> u64 \<Rightarrow> unit vm_op" where
  "register_set reg value v =
    (if reg \<ge> 32 then (Inl InvalidRegister, v)
     else (Inr (), if reg \<noteq> 0 then v\<lparr>vm_x := (vm_x v)[reg := value]\<rparr> else v))"

definition register_get :: "nat \<Rightarrow> u64 vm_op" where
  "register_get reg v = (if reg \<ge> 32 then (Inl InvalidRegister, v) else (Inr (vm_x v ! reg), v))"

text \<open>\<open>x[i]\<close> inside the machine: the index is a five-bit field of the instruction.\<close>

definition xr :: "vm \<Rightarrow> u8 \<Rightarrow> u64" where
  "xr v r = vm_x v ! unat r"

definition set_xr :: "u8 \<Rightarrow> u64 \<Rightarrow> vm \<Rightarrow> vm" where
  "set_xr r value v = v\<lparr>vm_x := (vm_x v)[unat r := value]\<rparr>"

section \<open>Virtual memory\<close>

datatype region = ProgMem | DataMem | StackMem

fun region_bytes :: "region \<Rightarrow> vm \<Rightarrow> u8 list" where
  "region_bytes ProgMem v = vm_prog v"
| "region_bytes DataMem v = vm_data v"
| "region_bytes StackMem v = vm_stack v"

fun set_region :: "region \<Rightarrow> u8 list \<Rightarrow> vm \<Rightarrow> vm" where
  "set_region ProgMem bs v = v\<lparr>vm_prog := bs\<rparr>"
| "set_region DataMem bs v = v\<lparr>vm_data := bs\<rparr>"
| "set_region StackMem bs v = v\<lparr>vm_stack := bs\<rparr>"

text \<open>\<open>mem_ptr n a\<close> is \<open>mem_ptr<T>(a)\<close> for a type of \<open>n\<close> bytes: the host buffer and the offset
  of the pointer it returns. The copy from or to that pointer is defined only inside the buffer.\<close>

definition mem_ptr :: "nat \<Rightarrow> u64 \<Rightarrow> vm \<Rightarrow> vm_error + region \<times> nat" where
  "mem_ptr n addr v =
    (if addr > 0xFFFFFFFFFFFFFFF0 then Inl MemOutOfBounds
     else let addr_max = addr + of_nat n - 1 in
       if addr_max < p_end v then Inr (ProgMem, unat addr)
       else if addr \<ge> d_beg v \<and> addr_max < d_end v then Inr (DataMem, unat (addr - d_beg v))
       else if addr \<ge> s_beg v \<and> addr_max < s_end v then Inr (StackMem, unat (addr - s_beg v))
       else Inl MemOutOfBounds)"

definition mem_load :: "nat \<Rightarrow> u64 \<Rightarrow> u64 vm_op" where
  "mem_load n addr v =
    (case mem_ptr n addr v of
       Inl e \<Rightarrow> (Inl e, v)
     | Inr (r, off) \<Rightarrow>
         if off + n > length (region_bytes r v) then (Inl UndefinedAccess, v)
         else (Inr (le_val (read_at off n (region_bytes r v))), v))"

definition mem_store :: "nat \<Rightarrow> u64 \<Rightarrow> u64 \<Rightarrow> unit vm_op" where
  "mem_store n addr value v =
    (case mem_ptr n addr v of
       Inl e \<Rightarrow> (Inl e, v)
     | Inr (r, off) \<Rightarrow>
         if off + n > length (region_bytes r v) then (Inl UndefinedAccess, v)
         else (Inr (), set_region r (write_at off (le_bytes n value) (region_bytes r v)) v))"

definition stack_push :: "nat \<Rightarrow> u64 \<Rightarrow> u64 vm_op" where
  "stack_push n val =
    bindE (modifyE (\<lambda>v. v\<lparr>vm_x := (vm_x v)[2 := vm_x v ! 2 - of_nat n]\<rparr>)) (\<lambda>_.
    bindE (getsE (\<lambda>v. vm_x v ! 2)) (\<lambda>sp.
    bindE (mem_store n sp val) (\<lambda>_.
    getsE (\<lambda>v. vm_x v ! 2))))"

definition stack_pop :: "nat \<Rightarrow> u64 vm_op" where
  "stack_pop n =
    bindE (modifyE (\<lambda>v. v\<lparr>vm_x := (vm_x v)[2 := vm_x v ! 2 + of_nat n]\<rparr>)) (\<lambda>_.
    bindE (getsE (\<lambda>v. vm_x v ! 2)) (\<lambda>sp.
    mem_load n (sp - of_nat n)))"

definition stack_peek :: "nat \<Rightarrow> u64 vm_op" where
  "stack_peek n = bindE (getsE (\<lambda>v. vm_x v ! 2)) (mem_load n)"

section \<open>Instruction decoding\<close>

definition opcode :: "u32 \<Rightarrow> u8" where "opcode i = ucast (i AND 0x7f)"
definition funct3 :: "u32 \<Rightarrow> u8" where "funct3 i = ucast (drop_bit 12 i AND 0x7)"
definition funct7 :: "u32 \<Rightarrow> u8" where "funct7 i = ucast (drop_bit 25 i AND 0x7f)"
definition rd :: "u32 \<Rightarrow> u8" where "rd i = ucast (drop_bit 7 i AND 0x1f)"
definition rs1 :: "u32 \<Rightarrow> u8" where "rs1 i = ucast (drop_bit 15 i AND 0x1f)"
definition rs2 :: "u32 \<Rightarrow> u8" where "rs2 i = ucast (drop_bit 20 i AND 0x1f)"

definition imm_i :: "u32 \<Rightarrow> u64" where
  "imm_i i = scast (signed_drop_bit 20 i)"

definition imm_s :: "u32 \<Rightarrow> u64" where
  "imm_s i = (imm_i i AND NOT 0x1f) OR ucast (rd i)"

definition imm_b :: "u32 \<Rightarrow> u64" where
  "imm_b i = signed_drop_bit 19 (scast (i AND 0x80000000)) OR ucast (push_bit 4 (i AND 0x80))
     OR ucast (drop_bit 20 i AND 0x7e0) OR ucast (drop_bit 7 i AND 0x1e)"

definition imm_j :: "u32 \<Rightarrow> u64" where
  "imm_j i = signed_drop_bit 11 (scast (i AND 0x80000000)) OR ucast (i AND 0xff000)
     OR ucast (drop_bit 9 i AND 0x800) OR ucast (drop_bit 20 i AND 0x7fe)"

definition imm_u :: "u32 \<Rightarrow> u64" where
  "imm_u i = scast (i AND 0xfffff000)"

lemmas decode_defs = opcode_def funct3_def funct7_def rd_def rs1_def rs2_def
  imm_i_def imm_s_def imm_b_def imm_j_def imm_u_def

section \<open>Instruction execution\<close>

definition exec_branch :: "u8 \<Rightarrow> u8 \<Rightarrow> u8 \<Rightarrow> u64 \<Rightarrow> unit vm_op" where
  "exec_branch f3 r1 r2 imm v =
    (let go = (\<lambda>taken. (Inr (), if taken then v\<lparr>vm_pc := vm_pc v + (imm - 4)\<rparr> else v));
         a = xr v r1; b = xr v r2
     in if f3 = 0 then go (a = b)
        else if f3 = 1 then go (a \<noteq> b)
        else if f3 = 4 then go (a <s b)
        else if f3 = 5 then go (b \<le>s a)
        else if f3 = 6 then go (a < b)
        else if f3 = 7 then go (a \<ge> b)
        else (Inl UnknownBranch, v))"

definition exec_load :: "u8 \<Rightarrow> u8 \<Rightarrow> u8 \<Rightarrow> u64 \<Rightarrow> unit vm_op" where
  "exec_load f3 d r1 imm v =
    (let addr = xr v r1 + imm;
         ld = (\<lambda>n ext. bindE (mem_load n addr) (\<lambda>w. modifyE (set_xr d (ext w))) v)
     in if f3 = 0 then ld 1 (\<lambda>w. scast (ucast w :: 8 word))
        else if f3 = 1 then ld 2 (\<lambda>w. scast (ucast w :: 16 word))
        else if f3 = 2 then ld 4 (\<lambda>w. scast (ucast w :: 32 word))
        else if f3 = 3 then ld 8 (\<lambda>w. w)
        else if f3 = 4 then ld 1 (\<lambda>w. w)
        else if f3 = 5 then ld 2 (\<lambda>w. w)
        else if f3 = 6 then ld 4 (\<lambda>w. w)
        else (Inl UnknownLoad, v))"

definition exec_store :: "u8 \<Rightarrow> u8 \<Rightarrow> u8 \<Rightarrow> u64 \<Rightarrow> unit vm_op" where
  "exec_store f3 r1 r2 imm v =
    (let addr = xr v r1 + imm; val = xr v r2
     in if f3 = 0 then mem_store 1 addr val v
        else if f3 = 1 then mem_store 2 addr val v
        else if f3 = 2 then mem_store 4 addr val v
        else if f3 = 3 then mem_store 8 addr val v
        else (Inl UnknownStore, v))"

definition exec_alu_imm :: "u8 \<Rightarrow> u8 \<Rightarrow> u8 \<Rightarrow> u64 \<Rightarrow> unit vm_op" where
  "exec_alu_imm f3 d r1 imm v =
    (let a = xr v r1; sh = unat (imm AND 0x3f); put = (\<lambda>w. (Inr (), set_xr d w v))
     in if f3 = 0 then put (a + imm)
        else if f3 = 1 then put (push_bit sh a)
        else if f3 = 2 then put (of_bool (a <s imm))
        else if f3 = 3 then put (of_bool (a < imm))
        else if f3 = 4 then put (a XOR imm)
        else if f3 = 5 then
          (if imm AND 0x400 = 0 then put (drop_bit sh a) else put (signed_drop_bit sh a))
        else if f3 = 6 then put (a OR imm)
        else if f3 = 7 then put (a AND imm)
        else (Inl UnknownAluImm, v))"

definition exec_alu_imm32 :: "u8 \<Rightarrow> u8 \<Rightarrow> u8 \<Rightarrow> u32 \<Rightarrow> unit vm_op" where
  "exec_alu_imm32 f3 d r1 imm v =
    (let a = ucast (xr v r1) :: u32; sh = unat (imm AND 0x1f);
         put = (\<lambda>result :: u32. (Inr (), set_xr d (scast result) v))
     in if f3 = 0 then put (a + imm)
        else if f3 = 1 then put (push_bit sh a)
        else if f3 = 5 then
          (if imm AND 0x400 = 0 then put (drop_bit sh a) else put (signed_drop_bit sh a))
        else (Inl UnknownAluImm32, v))"

definition alu_op :: "u8 \<Rightarrow> u8 \<Rightarrow> u32" where
  "alu_op f7 f3 = push_bit 3 (ucast f7) OR ucast f3"

definition exec_alu_reg :: "u8 \<Rightarrow> u8 \<Rightarrow> u8 \<Rightarrow> u8 \<Rightarrow> u8 \<Rightarrow> unit vm_op" where
  "exec_alu_reg f3 f7 d r1 r2 v =
    (let op = alu_op f7 f3; a = xr v r1; b = xr v r2; sh = unat (b AND 0x3f);
         put = (\<lambda>w. (Inr (), set_xr d w v))
     in if op = 0x000 then put (a + b)
        else if op = 0x100 then put (a - b)
        else if op = 0x001 then put (push_bit sh a)
        else if op = 0x002 then put (of_bool (a <s b))
        else if op = 0x003 then put (of_bool (a < b))
        else if op = 0x004 then put (a XOR b)
        else if op = 0x005 then put (drop_bit sh a)
        else if op = 0x105 then put (signed_drop_bit sh a)
        else if op = 0x006 then put (a OR b)
        else if op = 0x007 then put (a AND b)
        else if op = 0x008 then put (a * b)
        else if op = 0x009 then put (mulh a b)
        else if op = 0x00a then put (mulhsu a b)
        else if op = 0x00b then put (mulhu a b)
        else if op = 0x00c then
          (if b \<noteq> 0 then put (if div_overflows a b then 0x8000000000000000 else cpp_div a b)
           else put 0xFFFFFFFFFFFFFFFF)
        else if op = 0x00d then (if b \<noteq> 0 then put (a div b) else put 0xFFFFFFFFFFFFFFFF)
        else if op = 0x00e then
          (if b \<noteq> 0 then put (if div_overflows a b then 0 else cpp_rem a b) else put a)
        else if op = 0x00f then (if b \<noteq> 0 then put (a mod b) else put a)
        else (Inl UnknownAluReg, v))"

definition exec_alu_reg32 :: "u8 \<Rightarrow> u8 \<Rightarrow> u8 \<Rightarrow> u8 \<Rightarrow> u8 \<Rightarrow> unit vm_op" where
  "exec_alu_reg32 f3 f7 d r1 r2 v =
    (let op = alu_op f7 f3; a = ucast (xr v r1) :: u32; b = ucast (xr v r2) :: u32;
         sh = unat (b AND 0x1f);
         put = (\<lambda>result :: u32. (Inr (), set_xr d (scast result) v))
     in if op = 0x000 then put (a + b)
        else if op = 0x100 then put (a - b)
        else if op = 0x001 then put (push_bit sh a)
        else if op = 0x005 then put (drop_bit sh a)
        else if op = 0x105 then put (signed_drop_bit sh a)
        else if op = 0x008 then put (a * b)
        else if op = 0x00c then
          (if b \<noteq> 0 then put (if div_overflows a b then 0x80000000 else cpp_div a b)
           else put 0xFFFFFFFF)
        else if op = 0x00d then (if b \<noteq> 0 then put (a div b) else put 0xFFFFFFFF)
        else if op = 0x00e then
          (if b \<noteq> 0 then (if div_overflows a b then (Inl UndefinedRem, v) else put (cpp_rem a b))
           else put a)
        else if op = 0x00f then (if b \<noteq> 0 then put (a mod b) else put a)
        else (Inl UnknownAluReg32, v))"

definition handle_csr :: "unit vm_op" where
  "handle_csr v = (let d = rd (vm_inst v) in (Inr (), if d \<noteq> 0 then set_xr d 0 v else v))"

definition handle_semihost :: "unit vm_op" where
  "handle_semihost v = (Inl (SemihostUnsupported (vm_pc v - 4)), v)"

definition handle_ecall :: "unit vm_op" where
  "handle_ecall v = (Inl (EcallUnsupported (vm_pc v - 4)), v)"

text \<open>The semihosting bracket around \<open>ebreak\<close>: each load is evaluated only if the pc test before
  it holds, as \<open>&&\<close> does.\<close>

definition exec_ebreak :: "unit vm_op" where
  "exec_ebreak v =
    bindE (if vm_pc v \<ge> 8
           then bindE (mem_load 4 (vm_pc v - 8)) (\<lambda>w. retE (w = 0x01f01013)) else retE False) (\<lambda>has_prev.
    bindE (if vm_pc v + 3 < p_end v
           then bindE (mem_load 4 (vm_pc v)) (\<lambda>w. retE (w = 0x40705013)) else retE False) (\<lambda>has_next.
    if has_prev \<and> has_next then handle_semihost
    else modifyE (\<lambda>v. v\<lparr>vm_halted := True\<rparr>))) v"

definition exec_system :: "u8 \<Rightarrow> u8 \<Rightarrow> unit vm_op" where
  "exec_system f3 d v =
    (if f3 \<noteq> 0 then handle_csr v
     else if vm_inst v = 0x00000073 then handle_ecall v
     else if vm_inst v = 0x00100073 then exec_ebreak v
     else if vm_inst v = 0x10500073 then (Inl WfiUnsupported, v)
     else if vm_inst v = 0x30200073 \<or> vm_inst v = 0x10200073 \<or> vm_inst v = 0x00200073
       then (Inl (PrivilegedReturn (vm_inst v) (vm_pc v - 4)), v)
     else (Inl (UnknownSystem (vm_inst v) (vm_pc v - 4)), v))"

definition fetch :: "vm \<Rightarrow> u32" where
  "fetch v = ucast (le_val (read_at (unat (vm_pc v)) 4 (vm_prog v)))"

definition dispatch :: "u32 \<Rightarrow> unit vm_op" where
  "dispatch i v =
    (let op = opcode i
     in if op = 0x37 then (Inr (), set_xr (rd i) (imm_u i) v)
        else if op = 0x17 then (Inr (), set_xr (rd i) (vm_pc v - 4 + imm_u i) v)
        else if op = 0x6f then
          (Inr (), (set_xr (rd i) (vm_pc v) v)\<lparr>vm_pc := vm_pc v + (imm_j i - 4)\<rparr>)
        else if op = 0x67 then
          (let target = (xr v (rs1 i) + imm_i i) AND NOT 1
           in (Inr (), (set_xr (rd i) (vm_pc v) v)\<lparr>vm_pc := target\<rparr>))
        else if op = 0x63 then exec_branch (funct3 i) (rs1 i) (rs2 i) (imm_b i) v
        else if op = 0x03 then exec_load (funct3 i) (rd i) (rs1 i) (imm_i i) v
        else if op = 0x23 then exec_store (funct3 i) (rs1 i) (rs2 i) (imm_s i) v
        else if op = 0x13 then exec_alu_imm (funct3 i) (rd i) (rs1 i) (imm_i i) v
        else if op = 0x1b then exec_alu_imm32 (funct3 i) (rd i) (rs1 i) (ucast (imm_i i)) v
        else if op = 0x33 then exec_alu_reg (funct3 i) (funct7 i) (rd i) (rs1 i) (rs2 i) v
        else if op = 0x3b then exec_alu_reg32 (funct3 i) (funct7 i) (rd i) (rs1 i) (rs2 i) v
        else if op = 0x0f then (Inr (), v)
        else if op = 0x73 then exec_system (funct3 i) (rd i) v
        else (Inl UnknownOpcode, v))"

definition execute_instruction :: "unit vm_op" where
  "execute_instruction v =
    (if unat (vm_pc v) + 4 > length (vm_prog v) then (Inl UndefinedFetch, v)
     else let i = fetch v;
         v1 = v\<lparr>vm_inst := i, vm_pc := vm_pc v + 4\<rparr>;
         v2 = v1\<lparr>vm_x := (vm_x v1)[0 := 0]\<rparr>
     in dispatch i v2)"

text \<open>The loop of \<open>execute_program\<close>: the first argument is \<open>max_instructions - count\<close>, so the
  recursion ends where \<open>++count > max_instructions\<close> throws.\<close>

fun execute_loop :: "nat \<Rightarrow> u64 \<Rightarrow> u64 \<Rightarrow> unit vm_op" where
  "execute_loop left prog_sz sentinel v =
    (if vm_halted v then (Inr (), v)
     else if vm_pc v > prog_sz - 4 then (Inl PcOutsideProgram, v)
     else case left of
       0 \<Rightarrow> (Inl MaxInstructions, v)
     | Suc left' \<Rightarrow>
         (case execute_instruction v of
            (Inl e, v') \<Rightarrow> (Inl e, v')
          | (Inr _, v') \<Rightarrow>
              execute_loop left' prog_sz sentinel
                (if vm_pc v' = sentinel then v'\<lparr>vm_halted := True\<rparr> else v')))"

declare execute_loop.simps [simp del]

definition execute_program :: "u64 \<Rightarrow> nat \<Rightarrow> unit vm_op" where
  "execute_program entry_point max_instructions v =
    (let prog_sz = of_nat (length (vm_prog v)); sentinel = round4 prog_sz;
         v1 = v\<lparr>vm_pc := entry_point, vm_halted := False\<rparr>
     in if prog_sz < 4 then (Inl ProgramTooSmall, v1)
        else execute_loop max_instructions prog_sz sentinel v1)"

text \<open>\<open>halt_program\<close> exchanges the flag and says whether the call was the one that halted.\<close>

definition halt_program :: "bool vm_op" where
  "halt_program v = (Inr (\<not> vm_halted v), v\<lparr>vm_halted := True\<rparr>)"

end
