(* ===== verification/RiscvMemory.thy ===== *)
theory RiscvMemory
  imports RiscvVM
begin

text \<open>
  The address space of the virtual machine: the well-formedness of its layout, the safety of the
  host pointers \<open>mem_ptr\<close> hands out, the laws of loads and stores as a locale (\<open>word_store\<close>), and
  the stack calls of the host, proved in that locale from its laws.
\<close>

section \<open>Layout\<close>

definition vm_size :: "vm \<Rightarrow> nat" where
  "vm_size v = length (vm_prog v) + 64 + length (vm_data v) + 64 + length (vm_stack v)"

definition vm_wf :: "vm \<Rightarrow> bool" where
  "vm_wf v \<longleftrightarrow> length (vm_x v) = 32 \<and> vm_size v < 2 ^ 63
    \<and> p_end v = of_nat (length (vm_prog v))
    \<and> d_beg v = of_nat (length (vm_prog v) + 64)
    \<and> d_end v = of_nat (length (vm_prog v) + 64 + length (vm_data v))
    \<and> s_beg v = of_nat (length (vm_prog v) + 64 + length (vm_data v) + 64)
    \<and> s_end v = of_nat (vm_size v)"

lemma vm_wf_reset:
  "vm_size v < 2 ^ 63 \<Longrightarrow> vm_wf (reset v)"
  by (simp add: vm_wf_def vm_size_def reset_def Let_def)

lemma reset_frame [simp]:
  "vm_prog (reset v) = vm_prog v" "vm_data (reset v) = vm_data v" "vm_stack (reset v) = vm_stack v"
  "vm_max_prog (reset v) = vm_max_prog v" "vm_pc (reset v) = vm_pc v"
  "vm_halted (reset v) = vm_halted v"
  by (simp_all add: reset_def Let_def)

lemma unat_layout:
  assumes "vm_wf v"
  shows "unat (p_end v) = length (vm_prog v)"
    and "unat (d_beg v) = length (vm_prog v) + 64"
    and "unat (d_end v) = length (vm_prog v) + 64 + length (vm_data v)"
    and "unat (s_beg v) = length (vm_prog v) + 64 + length (vm_data v) + 64"
    and "unat (s_end v) = vm_size v"
  using assms by (auto simp: vm_wf_def vm_size_def unat_of_nat take_bit_nat_eq_self simp del: of_nat_add)

text \<open>The regions as intervals of virtual addresses.\<close>

definition region_beg :: "region \<Rightarrow> vm \<Rightarrow> nat" where
  "region_beg r v = (case r of ProgMem \<Rightarrow> 0 | DataMem \<Rightarrow> length (vm_prog v) + 64
     | StackMem \<Rightarrow> length (vm_prog v) + 64 + length (vm_data v) + 64)"

text \<open>An access of \<open>n\<close> bytes at \<open>a\<close> lies in region \<open>r\<close>.\<close>

definition in_region :: "region \<Rightarrow> nat \<Rightarrow> u64 \<Rightarrow> vm \<Rightarrow> bool" where
  "in_region r n a v \<longleftrightarrow> region_beg r v \<le> unat a
     \<and> unat a + n \<le> region_beg r v + length (region_bytes r v)"

lemma vm_size_region: "region_beg r v + length (region_bytes r v) \<le> vm_size v"
  by (cases r) (simp_all add: region_beg_def vm_size_def)

lemma in_region_unique:
  "in_region r n a v \<Longrightarrow> in_region r' n' a v \<Longrightarrow> 0 < n \<Longrightarrow> 0 < n' \<Longrightarrow> r = r'"
  by (cases r; cases r') (auto simp: in_region_def region_beg_def)

text \<open>The access sizes of the machine.\<close>

definition acc_size :: "nat \<Rightarrow> bool" where
  "acc_size n \<longleftrightarrow> n \<in> {1, 2, 4, 8}"

lemma acc_size_bounds: "acc_size n \<Longrightarrow> 0 < n \<and> n \<le> 8"
  by (auto simp: acc_size_def)

lemma unat_addr_max:
  fixes a :: u64
  assumes "\<not> a > 0xFFFFFFFFFFFFFFF0" "0 < n" "n \<le> 8"
  shows "unat (a + of_nat n - 1) = unat a + n - 1"
proof -
  have "unat a \<le> unat (0xFFFFFFFFFFFFFFF0 :: u64)"
    using assms(1) by (simp add: not_less word_le_nat_alt)
  then have small: "unat a + (n - 1) < 2 ^ 64" using assms by simp
  have "a + of_nat n - 1 = a + of_nat (n - 1)"
    using assms(2) by (simp add: of_nat_diff)
  moreover have "unat (of_nat (n - 1) :: u64) = n - 1"
    using assms by (simp add: unat_of_nat take_bit_nat_eq_self del: of_nat_diff)
  ultimately have "unat (a + of_nat n - 1) = (unat a + (n - 1)) mod 2 ^ 64"
    by (simp only: unat_word_ariths) simp
  also have "\<dots> = unat a + (n - 1)" using small by (rule mod_less)
  finally show ?thesis using assms(2) by simp
qed

lemma in_region_not_high:
  assumes "vm_wf v" "in_region r n a v"
  shows "\<not> a > 0xFFFFFFFFFFFFFFF0"
proof -
  have "vm_size v < 2 ^ 63" using assms(1) by (simp add: vm_wf_def)
  then have "unat a < 2 ^ 63" using assms(2) vm_size_region [of r v] by (simp add: in_region_def)
  then show ?thesis by (simp add: not_less word_le_nat_alt)
qed

text \<open>What \<open>mem_ptr\<close> decides, as a statement about natural numbers.\<close>

lemma mem_ptr_cases:
  assumes wf: "vm_wf v" and n: "acc_size n"
  shows "mem_ptr n a v =
    (if a > 0xFFFFFFFFFFFFFFF0 then Inl MemOutOfBounds
     else if in_region ProgMem n a v then Inr (ProgMem, unat a - region_beg ProgMem v)
     else if in_region DataMem n a v then Inr (DataMem, unat a - region_beg DataMem v)
     else if in_region StackMem n a v then Inr (StackMem, unat a - region_beg StackMem v)
     else Inl MemOutOfBounds)"
proof (cases "a > 0xFFFFFFFFFFFFFFF0")
  case True
  then show ?thesis by (simp add: mem_ptr_def)
next
  case False
  note nn = acc_size_bounds [OF n]
  have mx: "unat (a + of_nat n - 1) = unat a + n - 1"
    using False nn by (intro unat_addr_max) simp_all
  have sub: "unat (a - b) = unat a - unat b" if "b \<le> a" for b :: u64
    using that by (rule unat_sub)
  have c1: "a + of_nat n - 1 < p_end v \<longleftrightarrow> in_region ProgMem n a v"
    using nn by (auto simp: word_less_nat_alt mx unat_layout [OF wf] in_region_def region_beg_def)
  have c2: "a \<ge> d_beg v \<and> a + of_nat n - 1 < d_end v \<longleftrightarrow> in_region DataMem n a v"
    using nn by (auto simp: word_less_nat_alt word_le_nat_alt mx unat_layout [OF wf]
        in_region_def region_beg_def)
  have c3: "a \<ge> s_beg v \<and> a + of_nat n - 1 < s_end v \<longleftrightarrow> in_region StackMem n a v"
    using nn by (auto simp: word_less_nat_alt word_le_nat_alt mx unat_layout [OF wf]
        in_region_def region_beg_def vm_size_def)
  have o2: "unat (a - d_beg v) = unat a - region_beg DataMem v" if "in_region DataMem n a v"
    using that c2 sub [of "d_beg v"] by (simp add: unat_layout [OF wf] region_beg_def)
  have o3: "unat (a - s_beg v) = unat a - region_beg StackMem v" if "in_region StackMem n a v"
    using that c3 sub [of "s_beg v"] by (simp add: unat_layout [OF wf] region_beg_def)
  show ?thesis
    using False o2 o3 unfolding mem_ptr_def Let_def c1 c2 c3
    by (simp add: region_beg_def [of ProgMem])
qed

lemma mem_ptr_InrD:
  assumes "vm_wf v" "acc_size n" "mem_ptr n a v = Inr (r, off)"
  shows "in_region r n a v" "off = unat a - region_beg r v"
    "off + n \<le> length (region_bytes r v)"
proof -
  show 1: "in_region r n a v" and 2: "off = unat a - region_beg r v"
    using assms by (auto simp: mem_ptr_cases split: if_splits)
  show "off + n \<le> length (region_bytes r v)"
    using 1 2 by (auto simp: in_region_def)
qed

lemma mem_ptr_Inr:
  assumes "vm_wf v" "acc_size n" "in_region r n a v"
  shows "mem_ptr n a v = Inr (r, unat a - region_beg r v)"
  using assms in_region_not_high [OF assms(1,3)] acc_size_bounds [OF assms(2)]
  by (cases r) (auto simp: mem_ptr_cases dest: in_region_unique)

text \<open>Mapped addresses: those an access of \<open>n\<close> bytes may touch.\<close>

definition mapped :: "nat \<Rightarrow> u64 \<Rightarrow> vm \<Rightarrow> bool" where
  "mapped n a v \<longleftrightarrow> vm_wf v \<and> acc_size n \<and> (\<exists>r. in_region r n a v)"

lemma mem_ptr_unmapped:
  "vm_wf v \<Longrightarrow> acc_size n \<Longrightarrow> \<not> mapped n a v \<Longrightarrow> mem_ptr n a v = Inl MemOutOfBounds"
  by (auto simp: mem_ptr_cases mapped_def)

section \<open>Loads and stores\<close>

lemma region_bytes_set_region:
  "region_bytes r' (set_region r bs v) = (if r' = r then bs else region_bytes r' v)"
  by (cases r; cases r') simp_all

lemma set_region_frame [simp]:
  "vm_x (set_region r bs v) = vm_x v" "p_end (set_region r bs v) = p_end v"
  "d_beg (set_region r bs v) = d_beg v" "d_end (set_region r bs v) = d_end v"
  "s_beg (set_region r bs v) = s_beg v" "s_end (set_region r bs v) = s_end v"
  "vm_pc (set_region r bs v) = vm_pc v" "vm_inst (set_region r bs v) = vm_inst v"
  "vm_halted (set_region r bs v) = vm_halted v" "vm_max_prog (set_region r bs v) = vm_max_prog v"
  by (cases r; simp)+

lemma length_region_set_region:
  "length bs = length (region_bytes r v) \<Longrightarrow>
   length (region_bytes r' (set_region r bs v)) = length (region_bytes r' v)"
  by (simp add: region_bytes_set_region)

lemma set_region_same_shape:
  assumes "length bs = length (region_bytes r v)"
  shows "length (vm_prog (set_region r bs v)) = length (vm_prog v)"
    "length (vm_data (set_region r bs v)) = length (vm_data v)"
    "length (vm_stack (set_region r bs v)) = length (vm_stack v)"
  using length_region_set_region [OF assms, of ProgMem] length_region_set_region [OF assms, of DataMem]
    length_region_set_region [OF assms, of StackMem]
  by simp_all

lemma set_region_keeps:
  assumes "length bs = length (region_bytes r v)"
  shows "vm_wf (set_region r bs v) \<longleftrightarrow> vm_wf v"
    "in_region r' n a (set_region r bs v) \<longleftrightarrow> in_region r' n a v"
    "region_beg r' (set_region r bs v) = region_beg r' v"
  using set_region_same_shape [OF assms] length_region_set_region [OF assms]
  by (auto simp: vm_wf_def vm_size_def in_region_def region_beg_def split: region.splits)

lemma in_region_off: "in_region r n a v \<Longrightarrow> unat a - region_beg r v + n \<le> length (region_bytes r v)"
  by (auto simp: in_region_def)

lemma mem_load_mapped:
  assumes "vm_wf v" "acc_size n" "in_region r n a v"
  shows "mem_load n a v =
    (Inr (le_val (read_at (unat a - region_beg r v) n (region_bytes r v))), v)"
  using in_region_off [OF assms(3)] by (simp add: mem_load_def mem_ptr_Inr [OF assms])

lemma mem_store_mapped:
  assumes "vm_wf v" "acc_size n" "in_region r n a v"
  shows "mem_store n a w v = (Inr (), set_region r
    (write_at (unat a - region_beg r v) (le_bytes n w) (region_bytes r v)) v)"
  using in_region_off [OF assms(3)] by (simp add: mem_store_def mem_ptr_Inr [OF assms])

lemma mem_load_state [simp]: "snd (mem_load n a v) = v"
  by (simp add: mem_load_def split: sum.splits prod.splits)

lemma mem_access_unmapped:
  assumes "vm_wf v" "acc_size n" "\<not> mapped n a v"
  shows "mem_load n a v = (Inl MemOutOfBounds, v)" "mem_store n a w v = (Inl MemOutOfBounds, v)"
  by (simp_all add: mem_load_def mem_store_def mem_ptr_unmapped [OF assms])

lemma mapped_mem_store:
  assumes "mapped n a v"
  shows "mapped m b (snd (mem_store n a w v)) \<longleftrightarrow> mapped m b v"
    "vm_wf (snd (mem_store n a w v))" "fst (mem_store n a w v) = Inr ()"
    "vm_x (snd (mem_store n a w v)) = vm_x v"
proof -
  obtain r where r: "vm_wf v" "acc_size n" "in_region r n a v"
    using assms by (auto simp: mapped_def)
  have len: "length (write_at (unat a - region_beg r v) (le_bytes n w) (region_bytes r v)) =
      length (region_bytes r v)"
    using in_region_off [OF r(3)] by simp
  show "mapped m b (snd (mem_store n a w v)) \<longleftrightarrow> mapped m b v"
    "vm_wf (snd (mem_store n a w v))" "fst (mem_store n a w v) = Inr ()"
    "vm_x (snd (mem_store n a w v)) = vm_x v"
    using r by (simp_all add: mem_store_mapped [OF r] mapped_def set_region_keeps [OF len])
qed

text \<open>Accesses that do not overlap.\<close>

definition apart :: "nat \<Rightarrow> u64 \<Rightarrow> nat \<Rightarrow> u64 \<Rightarrow> bool" where
  "apart n a m b \<longleftrightarrow> unat a + n \<le> unat b \<or> unat b + m \<le> unat a"

lemma load_store_same:
  assumes "mapped n a v"
  shows "fst (mem_load n a (snd (mem_store n a w v))) = Inr (take_bit (8 * n) w)"
proof -
  obtain r where r: "vm_wf v" "acc_size n" "in_region r n a v"
    using assms by (auto simp: mapped_def)
  let ?bs = "write_at (unat a - region_beg r v) (le_bytes n w) (region_bytes r v)"
  have len: "length ?bs = length (region_bytes r v)" using in_region_off [OF r(3)] by simp
  have "mem_load n a (set_region r ?bs v) =
      (Inr (le_val (read_at (unat a - region_beg r v) n ?bs)), set_region r ?bs v)"
    using r by (subst mem_load_mapped [where r = r])
      (simp_all add: set_region_keeps [OF len] region_bytes_set_region)
  moreover have "read_at (unat a - region_beg r v) n ?bs = le_bytes n w"
    using read_write_same [of "unat a - region_beg r v" "le_bytes n w" "region_bytes r v"]
      in_region_off [OF r(3)] by simp
  ultimately show ?thesis by (simp add: mem_store_mapped [OF r] le_val_le_bytes)
qed

lemma load_store_apart:
  assumes "mapped n a v" "mapped m b v" "apart n a m b"
  shows "fst (mem_load m b (snd (mem_store n a w v))) = fst (mem_load m b v)"
proof -
  obtain r where r: "vm_wf v" "acc_size n" "in_region r n a v"
    using assms by (auto simp: mapped_def)
  obtain q where q: "vm_wf v" "acc_size m" "in_region q m b v"
    using assms by (auto simp: mapped_def)
  let ?bs = "write_at (unat a - region_beg r v) (le_bytes n w) (region_bytes r v)"
  have len: "length ?bs = length (region_bytes r v)" using in_region_off [OF r(3)] by simp
  have "mem_load m b (set_region r ?bs v) = (Inr (le_val (read_at (unat b - region_beg q v) m
      (region_bytes q (set_region r ?bs v)))), set_region r ?bs v)"
    using q by (subst mem_load_mapped [where r = q]) (simp_all add: set_region_keeps [OF len])
  moreover have "read_at (unat b - region_beg q v) m (region_bytes q (set_region r ?bs v)) =
      read_at (unat b - region_beg q v) m (region_bytes q v)"
    using assms(3) r(3) q(3)
    by (auto simp: region_bytes_set_region apart_def in_region_def intro!: read_write_other)
  ultimately show ?thesis by (simp add: mem_store_mapped [OF r] mem_load_mapped [OF q])
qed


section \<open>The interface of a word store\<close>

text \<open>
  What the users of the machine's memory rely on: loads do not change the state, an access to a
  valid address succeeds, a store is read back at its own address and leaves disjoint addresses
  and the set of valid addresses alone.
\<close>

locale word_store =
  fixes load :: "nat \<Rightarrow> u64 \<Rightarrow> ('e, 's, u64) eff"
    and store :: "nat \<Rightarrow> u64 \<Rightarrow> u64 \<Rightarrow> ('e, 's, unit) eff"
    and valid :: "nat \<Rightarrow> u64 \<Rightarrow> 's \<Rightarrow> bool"
    and disj :: "nat \<Rightarrow> u64 \<Rightarrow> nat \<Rightarrow> u64 \<Rightarrow> bool"
  assumes load_pure: "snd (load n a s) = s"
    and store_valid: "valid n a s \<Longrightarrow> fst (store n a w s) = Inr ()"
    and valid_store: "valid n a s \<Longrightarrow> valid m b (snd (store n a w s)) \<longleftrightarrow> valid m b s"
    and load_own: "valid n a s \<Longrightarrow> fst (load n a (snd (store n a w s))) = Inr (take_bit (8 * n) w)"
    and load_other: "valid n a s \<Longrightarrow> valid m b s \<Longrightarrow> disj n a m b \<Longrightarrow>
      fst (load m b (snd (store n a w s))) = fst (load m b s)"
begin

lemma store_then: "valid n a s \<Longrightarrow> bindE (store n a w) f s = f () (snd (store n a w s))"
  using store_valid [of n a s w] by (cases "store n a w s") (simp add: bindE_def)

lemma load_then: "fst (load n a s) = Inr w \<Longrightarrow> bindE (load n a) f s = f w s"
  using load_pure [of n a s] by (cases "load n a s") (simp add: bindE_def)

lemma load_eqI: "fst (load n a s) = Inr w \<Longrightarrow> load n a s = (Inr w, s)"
  using load_pure [of n a s] by (cases "load n a s") simp

text \<open>Two cells written one after the other are both read back.\<close>

lemma two_cells:
  fixes u w :: u64
  assumes "valid n a s" "valid m b s" "disj m b n a"
  defines "t \<equiv> snd (store m b w (snd (store n a u s)))"
  shows "fst (load n a t) = Inr (take_bit (8 * n) u)" "fst (load m b t) = Inr (take_bit (8 * m) w)"
    and "valid k c t \<longleftrightarrow> valid k c s"
  using assms(1-3) unfolding t_def by (simp_all add: load_other load_own valid_store)

end

interpretation vmem: word_store mem_load mem_store mapped apart
  by unfold_locales
    (simp_all add: mapped_mem_store load_store_same load_store_apart)

section \<open>The stack calls of the host\<close>

definition sp :: "vm \<Rightarrow> u64" where "sp v = vm_x v ! 2"

definition set_sp :: "u64 \<Rightarrow> vm \<Rightarrow> vm" where
  "set_sp w v = v\<lparr>vm_x := (vm_x v)[2 := w]\<rparr>"

lemma set_x_wf [simp]:
  "length xs = length (vm_x v) \<Longrightarrow> vm_wf (v\<lparr>vm_x := xs\<rparr>) \<longleftrightarrow> vm_wf v"
  by (simp add: vm_wf_def vm_size_def)

lemma set_x_region [simp]:
  "region_bytes r (v\<lparr>vm_x := xs\<rparr>) = region_bytes r v"
  "region_beg r (v\<lparr>vm_x := xs\<rparr>) = region_beg r v"
  "in_region r n a (v\<lparr>vm_x := xs\<rparr>) \<longleftrightarrow> in_region r n a v"
  by (cases r; simp add: region_beg_def in_region_def)+

lemma mapped_set_sp [simp]: "mapped n a (set_sp w v) \<longleftrightarrow> mapped n a v"
  by (simp add: mapped_def set_sp_def)

lemma mem_ptr_set_x [simp]: "mem_ptr n a (v\<lparr>vm_x := xs\<rparr>) = mem_ptr n a v"
  by (simp add: mem_ptr_def Let_def)

lemma mem_load_set_sp: "fst (mem_load n a (set_sp w v)) = fst (mem_load n a v)"
  by (simp add: mem_load_def set_sp_def split: sum.splits prod.splits)

lemma sp_set_sp: "vm_wf v \<Longrightarrow> sp (set_sp w v) = w"
  by (simp add: sp_def set_sp_def vm_wf_def)

lemma mem_store_sp: "mapped n a v \<Longrightarrow> sp (snd (mem_store n a w v)) = sp v"
  by (simp add: sp_def mapped_mem_store)

lemma stack_push_eq:
  assumes "mapped n (sp v - of_nat n) v"
  shows "stack_push n w v = (Inr (sp v - of_nat n),
    snd (mem_store n (sp v - of_nat n) w (set_sp (sp v - of_nat n) v)))"
proof -
  have wf: "vm_wf v" using assms by (simp add: mapped_def)
  let ?v = "set_sp (sp v - of_nat n) v"
  have "stack_push n w v = bindE (mem_store n (sp ?v) w) (\<lambda>_. getsE sp) ?v"
    by (simp add: stack_push_def bindE_def modifyE_def getsE_def set_sp_def sp_def
        split: prod.splits sum.splits)
  also have "\<dots> = getsE sp (snd (mem_store n (sp v - of_nat n) w ?v))"
    using assms by (simp add: vmem.store_then sp_set_sp [OF wf])
  also have "\<dots> = (Inr (sp v - of_nat n), snd (mem_store n (sp v - of_nat n) w ?v))"
    using assms by (simp add: getsE_def mem_store_sp sp_set_sp [OF wf])
  finally show ?thesis .
qed

lemma stack_pop_eq:
  assumes "vm_wf v"
  shows "stack_pop n v = (fst (mem_load n (sp v) v), set_sp (sp v + of_nat n) v)"
proof -
  let ?v = "set_sp (sp v + of_nat n) v"
  have "stack_pop n v = mem_load n (sp ?v - of_nat n) ?v"
    by (simp add: stack_pop_def bindE_def modifyE_def getsE_def set_sp_def sp_def)
  then have "stack_pop n v = mem_load n (sp v) ?v" by (simp add: sp_set_sp [OF assms])
  then show ?thesis using mem_load_set_sp [of n "sp v" "sp v + of_nat n" v]
    by (metis mem_load_state prod.collapse)
qed

lemma push_then_pop:
  fixes w :: u64
  assumes "mapped n (sp v - of_nat n) v"
  defines "v' \<equiv> snd (stack_push n w v)"
  shows "vm_wf v'" "sp v' = sp v - of_nat n"
    "stack_pop n v' = (Inr (take_bit (8 * n) w), set_sp (sp v) v')" "vm_x (set_sp (sp v) v') = vm_x v"
proof -
  let ?a = "sp v - of_nat n"
  have wf: "vm_wf v" using assms by (simp add: mapped_def)
  have m: "mapped n ?a (set_sp ?a v)" using assms by simp
  have v': "v' = snd (mem_store n ?a w (set_sp ?a v))"
    using stack_push_eq [OF assms(1)] by (simp add: v'_def)
  show wf': "vm_wf v'" using m by (simp add: v' mapped_mem_store)
  show sp': "sp v' = ?a" using m by (simp add: v' mem_store_sp sp_set_sp [OF wf])
  have "fst (mem_load n ?a v') = Inr (take_bit (8 * n) w)"
    using vmem.load_own [OF m, of w] by (simp add: v')
  then show "stack_pop n v' = (Inr (take_bit (8 * n) w), set_sp (sp v) v')"
    by (simp add: stack_pop_eq [OF wf'] sp')
  show "vm_x (set_sp (sp v) v') = vm_x v"
    using m by (simp add: set_sp_def v' mapped_mem_store) (simp add: set_sp_def sp_def)
qed

section \<open>Properties\<close>

text \<open>
  C36. The machine's memory is a word store over exactly its three regions: an access that lies
  in the program, the datagram or the stack succeeds, is read back, and leaves every disjoint
  mapped access alone; any other access (in a guard gap, across a region end, or wrapping around
  the address space) throws and leaves the machine unchanged.
\<close>

theorem vm_memory_laws:
  assumes "vm_wf v" "acc_size n"
  shows "if \<exists>r. in_region r n a v
    then fst (mem_store n a w v) = Inr ()
       \<and> mem_load n a (snd (mem_store n a w v)) = (Inr (take_bit (8 * n) w), snd (mem_store n a w v))
       \<and> (\<forall>m b. mapped m b v \<and> apart n a m b \<longrightarrow>
            fst (mem_load m b (snd (mem_store n a w v))) = fst (mem_load m b v))
    else mem_store n a w v = (Inl MemOutOfBounds, v) \<and> mem_load n a v = (Inl MemOutOfBounds, v)"
proof (cases "mapped n a v")
  case True
  have "mem_load n a (snd (mem_store n a w v)) = (Inr (take_bit (8 * n) w), snd (mem_store n a w v))"
    using vmem.load_own [OF True] by (rule vmem.load_eqI)
  moreover have "\<exists>r. in_region r n a v" using True by (simp add: mapped_def)
  ultimately show ?thesis
    using vmem.store_valid [OF True] vmem.load_other [OF True] by simp
next
  case False
  then show ?thesis
    using mem_access_unmapped [OF assms False] assms by (auto simp: mapped_def)
qed

definition demo_vm :: vm where
  "demo_vm = snd (map_data_mem [1, 2, 3, 4] (snd (program_load [0x13, 0, 0, 0] (new_VM 32 64))))"

lemma demo_vm_wf: "vm_wf demo_vm"
  by (simp add: demo_vm_def new_VM_def map_data_mem_def program_load_def vm_wf_reset vm_size_def Let_def)

lemma demo_vm_sp: "sp demo_vm = 168"
  by (simp add: demo_vm_def new_VM_def map_data_mem_def program_load_def sp_def reset_def Let_def)

lemma demo_vm_mapped: "in_region StackMem 8 160 demo_vm"
  by (simp add: in_region_def region_beg_def demo_vm_def new_VM_def map_data_mem_def program_load_def
      Let_def)

theorem vm_memory_laws_witness:
  "fst (mem_store 8 160 7 demo_vm) = Inr ()
   \<and> fst (mem_load 8 160 (snd (mem_store 8 160 7 demo_vm))) = Inr 7"
proof -
  have "\<exists>r. in_region r 8 160 demo_vm" using demo_vm_mapped by blast
  then show ?thesis
    using vm_memory_laws [OF demo_vm_wf, of 8 160 7] by (simp add: acc_size_def)
qed

text \<open>
  Host pushes and pops are last-in first-out: a push to a mapped slot returns its address,
  and a pop of the same size after it returns the pushed value, cut to its size, and restores all
  registers.
\<close>

theorem stack_push_pop:
  assumes "mapped n (sp v - of_nat n) v"
  shows "fst (stack_push n w v) = Inr (sp v - of_nat n)
    \<and> fst (stack_pop n (snd (stack_push n w v))) = Inr (take_bit (8 * n) w)
    \<and> vm_x (snd (stack_pop n (snd (stack_push n w v)))) = vm_x v"
  using push_then_pop [OF assms, of w] stack_push_eq [OF assms, of w] by simp

theorem stack_push_pop_witness:
  "fst (stack_pop 8 (snd (stack_push 8 7 demo_vm))) = Inr 7"
proof -
  have "mapped 8 (sp demo_vm - of_nat 8) demo_vm"
    using demo_vm_mapped demo_vm_wf by (auto simp: demo_vm_sp mapped_def acc_size_def)
  from stack_push_pop [OF this, of 7] show ?thesis by simp
qed

end
