(* ===== verification/RiscvIsa.thy ===== *)
theory RiscvIsa
  imports RiscvMemory
begin

text \<open>
  The decoder and the integer unit against the RISC-V manual: the immediates of the I, S, B, U and
  J formats bit by bit, the hard-wired zero register, and the division identities of the M
  extension with its by-zero and overflow results.
\<close>

section \<open>Immediates\<close>

text \<open>A statement about all bits of a 64-bit word is checked bit by bit.\<close>

lemma upt_64: "[0..<64] = [0,1,2,3,4,5,6,7,8,9,10,11,12,13,14,15,16,17,18,19,20,21,22,23,24,25,
   26,27,28,29,30,31,32,33,34,35,36,37,38,39,40,41,42,43,44,45,46,47,48,49,50,51,52,53,54,55,56,
   57,58,59,60,61,62,63]"
  by code_simp

lemma all_bits_64: "list_all P [0..<64] \<Longrightarrow> k < 64 \<Longrightarrow> P k"
  by (simp add: list_all_iff)

lemma bit_imm_i: "k < 64 \<Longrightarrow> bit (imm_i i) k \<longleftrightarrow> bit i (if k < 11 then k + 20 else 31)"
  by (erule all_bits_64 [rotated])
    (simp add: upt_64 imm_i_def bit_simps)

lemma bit_imm_s:
  "k < 64 \<Longrightarrow> bit (imm_s i) k \<longleftrightarrow> bit i (if k < 5 then k + 7 else if k < 11 then k + 20 else 31)"
  by (erule all_bits_64 [rotated])
    (simp add: upt_64 imm_s_def bit_imm_i rd_def bit_simps)

lemma bit_imm_b:
  "k < 64 \<Longrightarrow> bit (imm_b i) k \<longleftrightarrow> k \<noteq> 0 \<and>
    bit i (if k < 5 then k + 7 else if k < 11 then k + 20 else if k = 11 then 7 else 31)"
  by (erule all_bits_64 [rotated])
    (simp add: upt_64 imm_b_def bit_simps)

lemma bit_imm_j:
  "k < 64 \<Longrightarrow> bit (imm_j i) k \<longleftrightarrow> k \<noteq> 0 \<and>
    bit i (if k < 11 then k + 20 else if k = 11 then 20 else if k < 20 then k else 31)"
  by (erule all_bits_64 [rotated])
    (simp add: upt_64 imm_j_def bit_simps)

lemma bit_imm_u:
  "k < 64 \<Longrightarrow> bit (imm_u i) k \<longleftrightarrow> 12 \<le> k \<and> bit i (if k < 32 then k else 31)"
  by (erule all_bits_64 [rotated])
    (simp add: upt_64 imm_u_def bit_simps)


section \<open>The zero register\<close>

lemma execute_instruction_x0:
  "execute_instruction (v\<lparr>vm_x := (vm_x v)[0 := w]\<rparr>) =
    (if unat (vm_pc v) + 4 > length (vm_prog v) then (Inl UndefinedFetch, v\<lparr>vm_x := (vm_x v)[0 := w]\<rparr>)
     else execute_instruction v)"
  by (simp add: execute_instruction_def fetch_def Let_def)

section \<open>Division\<close>

lemma word_of_int_sint: "word_of_int (sint a) = a"
  by simp

lemma cpp_div_rem: "a = cpp_div a b * b + cpp_rem a b"
proof -
  have "a = word_of_int (sint a sdiv sint b * sint b + sint a smod sint b)"
    by (simp only: sdiv_mult_smod_eq word_of_int_sint)
  also have "\<dots> = word_of_int (sint a sdiv sint b) * word_of_int (sint b) + word_of_int (sint a smod sint b)"
    by (simp only: of_int_add of_int_mult)
  finally show ?thesis by (simp only: cpp_div_def cpp_rem_def word_of_int_sint)
qed

lemma sint_cpp_rem:
  assumes "sint b \<noteq> 0"
  shows "sint (cpp_rem a b) = sint a smod sint b"
proof -
  have "sint a smod sint b \<in> {- \<bar>sint b\<bar> + 1..\<bar>sint b\<bar> - 1}"
    using assms by (rule smod_int_range)
  moreover have "- (2 ^ (LENGTH('a) - 1)) \<le> sint b" "sint b < 2 ^ (LENGTH('a) - 1)"
    by (rule sint_ge, rule sint_lt)
  then have "\<bar>sint b\<bar> \<le> 2 ^ (LENGTH('a) - 1)" by linarith
  ultimately have "- (2 ^ (LENGTH('a) - 1)) \<le> sint a smod sint b" "sint a smod sint b < 2 ^ (LENGTH('a) - 1)"
    by auto
  then show ?thesis
    by (simp add: cpp_rem_def sint_sbintrunc' signed_take_bit_int_eq_self)
qed

lemma sint_eq_0_iff: "sint b = 0 \<longleftrightarrow> b = 0"
proof
  assume h: "sint b = 0"
  have "b = word_of_int (sint b)" by (rule word_of_int_sint [symmetric])
  also have "\<dots> = 0" by (simp only: h of_int_0)
  finally show "b = 0" .
qed simp

lemma smod_bounds:
  fixes x y :: int
  assumes "y \<noteq> 0"
  shows "\<bar>x smod y\<bar> < \<bar>y\<bar>" "x smod y = 0 \<or> (x smod y < 0 \<longleftrightarrow> x < 0)"
proof -
  define m where "m = \<bar>x\<bar> mod \<bar>y\<bar>"
  have m: "0 \<le> m" "m < \<bar>y\<bar>" using assms by (simp_all add: m_def)
  have "x smod y = sgn x * m" by (simp add: smod_int_alt_def m_def)
  then show "\<bar>x smod y\<bar> < \<bar>y\<bar>" "x smod y = 0 \<or> (x smod y < 0 \<longleftrightarrow> x < 0)"
    using m by (auto simp: sgn_if)
qed

lemma alu_op_m [simp]: "alu_op 1 4 = 0xc" "alu_op 1 5 = 0xd" "alu_op 1 6 = 0xe" "alu_op 1 7 = 0xf"
  by (simp_all add: alu_op_def)

lemma xr_set_xr: "length (vm_x v) = 32 \<Longrightarrow> unat d < 32 \<Longrightarrow> xr (set_xr d w v) d = w"
  by (simp add: xr_def set_xr_def)

section \<open>Properties\<close>

text \<open>
  Immediate decoding is the RISC-V manual's: each bit of the sign-extended I, S, B, U and J
  immediates is the instruction bit the manual's format diagrams assign to it.
\<close>

theorem immediates_decode:
  "\<forall>k < 64.
     (bit (imm_i i) k \<longleftrightarrow> bit i (if k < 11 then k + 20 else 31))
   \<and> (bit (imm_s i) k \<longleftrightarrow> bit i (if k < 5 then k + 7 else if k < 11 then k + 20 else 31))
   \<and> (bit (imm_b i) k \<longleftrightarrow> k \<noteq> 0 \<and>
        bit i (if k < 5 then k + 7 else if k < 11 then k + 20 else if k = 11 then 7 else 31))
   \<and> (bit (imm_u i) k \<longleftrightarrow> 12 \<le> k \<and> bit i (if k < 32 then k else 31))
   \<and> (bit (imm_j i) k \<longleftrightarrow> k \<noteq> 0 \<and>
        bit i (if k < 11 then k + 20 else if k = 11 then 20 else if k < 20 then k else 31))"
  by (intro allI impI conjI bit_imm_i bit_imm_s bit_imm_b bit_imm_u bit_imm_j)

text \<open>The hypothesis of the bounded quantifier holds at a concrete bit.\<close>

theorem immediates_decode_witness:
  "(5 :: nat) < 64 \<and> (bit (imm_b 0x00000463) 3 \<longleftrightarrow> bit (0x00000463 :: u32) 10)"
  using immediates_decode [of "0x00000463", THEN spec, of 3] by simp

text \<open>
  Inside a program \<open>x0\<close> is hard-wired to zero: whatever value an earlier instruction left in
  the register slot, the next instruction behaves exactly as if it were zero.
\<close>

theorem x0_hardwired:
  assumes "unat (vm_pc v) + 4 \<le> length (vm_prog v)"
  shows "execute_instruction (v\<lparr>vm_x := (vm_x v)[0 := w]\<rparr>) = execute_instruction (v\<lparr>vm_x := (vm_x v)[0 := 0]\<rparr>)"
  using assms by (simp add: execute_instruction_x0)

theorem x0_hardwired_witness:
  "execute_instruction (demo_vm\<lparr>vm_x := (vm_x demo_vm)[0 := 5]\<rparr>) =
   execute_instruction (demo_vm\<lparr>vm_x := (vm_x demo_vm)[0 := 0]\<rparr>)"
proof -
  have "unat (vm_pc demo_vm) + 4 \<le> length (vm_prog demo_vm)"
    by (simp add: demo_vm_def new_VM_def map_data_mem_def program_load_def Let_def)
  then show ?thesis by (rule x0_hardwired)
qed

text \<open>
  The host, though, can see a non-zero \<open>x0\<close>: a program whose last instruction writes \<open>x0\<close>
  (\<open>addi x0,x0,5\<close>) leaves that value for \<open>register_get(0)\<close>, against the comment
  \<open>x0 is always 0\<close>.
\<close>

theorem x0_visible_to_host:
  "let v = snd (execute_program 0 10 (snd (program_load [0x13, 0x00, 0x50, 0x00] (new_VM 64 1024))))
   in fst (register_get 0 v) = Inr 5"
  by code_simp

text \<open>
  DIV, REM, DIVU and REMU never fault and satisfy the division identity
  \<open>rs1 = quotient * rs2 + remainder\<close> for every operand pair, by-zero and overflow included;
  with a non-zero divisor the remainder is smaller than the divisor and, signed, has the sign of
  the dividend.
\<close>

theorem division_identity:
  fixes v :: vm and d r1 r2 :: u8
  assumes "length (vm_x v) = 32" "unat d < 32"
  defines "a \<equiv> xr v r1" and "b \<equiv> xr v r2"
    and "q \<equiv> xr (snd (exec_alu_reg 4 1 d r1 r2 v)) d" and "r \<equiv> xr (snd (exec_alu_reg 6 1 d r1 r2 v)) d"
    and "qu \<equiv> xr (snd (exec_alu_reg 5 1 d r1 r2 v)) d" and "ru \<equiv> xr (snd (exec_alu_reg 7 1 d r1 r2 v)) d"
  shows "a = q * b + r \<and> a = qu * b + ru
    \<and> (b \<noteq> 0 \<longrightarrow> \<bar>sint r\<bar> < \<bar>sint b\<bar> \<and> (r = 0 \<or> (sint r < 0 \<longleftrightarrow> sint a < 0)) \<and> ru < b)
    \<and> (b = 0 \<longrightarrow> q = - 1 \<and> r = a \<and> qu = - 1 \<and> ru = a)"
proof -
  note x = xr_set_xr [OF assms(1,2)]
  have m1: "(0xFFFFFFFFFFFFFFFF :: u64) = - 1" by simp
  have q: "q = (if b \<noteq> 0 then if div_overflows a b then 0x8000000000000000 else cpp_div a b else - 1)"
    and r: "r = (if b \<noteq> 0 then if div_overflows a b then 0 else cpp_rem a b else a)"
    and qu: "qu = (if b \<noteq> 0 then a div b else - 1)" and ru: "ru = (if b \<noteq> 0 then a mod b else a)"
    by (simp_all add: q_def r_def qu_def ru_def a_def b_def exec_alu_reg_def Let_def x)
  have ov: "a = 0x8000000000000000 \<and> b = - 1" if "div_overflows a b"
  proof -
    have "word_of_int (sint a) = (word_of_int (- (2 ^ 63)) :: u64)" "word_of_int (sint b) = (- 1 :: u64)"
      using that by (simp_all add: div_overflows_def)
    then show ?thesis by simp
  qed
  have "a = q * b + r"
    using ov cpp_div_rem [of a b] by (auto simp: q r)
  moreover have "a = qu * b + ru" by (simp add: qu ru word_mod_div_equality)
  moreover have "\<bar>sint r\<bar> < \<bar>sint b\<bar> \<and> (r = 0 \<or> (sint r < 0 \<longleftrightarrow> sint a < 0)) \<and> ru < b" if b: "b \<noteq> 0"
  proof -
    have sb: "sint b \<noteq> 0" using b by (simp add: sint_eq_0_iff)
    have sr: "sint r = 0 \<or> sint r = sint a smod sint b"
      using b by (auto simp: r sint_cpp_rem [OF sb])
    have "ru < b" using b by (simp add: ru word_mod_less_divisor word_gt_0)
    then show ?thesis
      using sr sb smod_bounds [OF sb, of "sint a"] sint_eq_0_iff [of r] by auto
  qed
  moreover have "b = 0 \<longrightarrow> q = - 1 \<and> r = a \<and> qu = - 1 \<and> ru = a" by (simp add: q r qu ru)
  ultimately show ?thesis by blast
qed

theorem division_identity_witness:
  "xr demo_vm 2 = xr (snd (exec_alu_reg 4 1 5 2 1 demo_vm)) 5 * xr demo_vm 1
     + xr (snd (exec_alu_reg 6 1 5 2 1 demo_vm)) 5"
proof -
  have "length (vm_x demo_vm) = 32" using demo_vm_wf by (simp add: vm_wf_def)
  moreover have "unat (5 :: u8) < 32" by simp
  ultimately show ?thesis using division_identity [of demo_vm 5 2 1] by blast
qed

end
