(* ===== verification/CmdArgs.thy ===== *)
theory CmdArgs
  imports Prelude
begin

text \<open>
  The command line values the two programs validate after TCLAP has parsed them:
  \<open>src/src/CmdArgs.h\<close> (MiniPlex) and \<open>src/src/ProtoConv/CmdArgs.h\<close> (ProtoConv). TCLAP is a
  library: what is modelled is the code of the two constructors after \<open>cmd.parse\<close>. The address
  parser \<open>asio::ip::address::from_string\<close> is a parameter that gives \<open>None\<close> for an error.
\<close>

section \<open>MiniPlex\<close>

record plex_args =
  arg_hub :: bool
  arg_trunk :: bool
  arg_prune :: bool
  arg_switch :: bool
  arg_local_addr :: string
  arg_local_port :: u16
  arg_max_process_q :: nat
  arg_cache_timeout :: nat
  arg_max_branch_cache :: nat
  arg_max_switch_cache :: nat
  arg_trunk_addr :: string
  arg_trunk_port :: u16
  arg_branch_addrs :: "string list"
  arg_branch_ports :: "u16 list"

datatype args_error =
    TrunkRequired | InvalidLocalAddr string | InvalidTrunkAddr string | InvalidBranchAddr string
  | BranchCountMismatch

fun check_branches :: "(string \<Rightarrow> 'a option) \<Rightarrow> string list \<Rightarrow> args_error + unit" where
  "check_branches from_string [] = Inr ()"
| "check_branches from_string (b # bs) =
    (if from_string b = None then Inl (InvalidBranchAddr b) else check_branches from_string bs)"

definition check_plex_args :: "(string \<Rightarrow> 'a option) \<Rightarrow> plex_args \<Rightarrow> args_error + unit" where
  "check_plex_args from_string a =
    (if (arg_prune a \<or> arg_trunk a) \<and> (arg_trunk_addr a = '''' \<or> arg_trunk_port a = 0)
     then Inl TrunkRequired
     else if from_string (arg_local_addr a) = None then Inl (InvalidLocalAddr (arg_local_addr a))
     else if (arg_prune a \<or> arg_trunk a) \<and> from_string (arg_trunk_addr a) = None
     then Inl (InvalidTrunkAddr (arg_trunk_addr a))
     else case check_branches from_string (arg_branch_addrs a) of
       Inl e \<Rightarrow> Inl e
     | Inr _ \<Rightarrow>
         if length (arg_branch_addrs a) \<noteq> length (arg_branch_ports a)
         then Inl BranchCountMismatch else Inr ())"

text \<open>The documented effect of \<open>xorAdd\<close>: a parsed command line has exactly one mode switch.\<close>

definition one_mode :: "plex_args \<Rightarrow> bool" where
  "one_mode a \<longleftrightarrow>
    length (filter (\<lambda>b. b) [arg_hub a, arg_trunk a, arg_prune a, arg_switch a]) = 1"

lemma check_branches_ok:
  "check_branches from_string bs = Inr () \<longleftrightarrow> (\<forall>b \<in> set bs. from_string b \<noteq> None)"
  by (induction bs) auto

lemma check_plex_args_ok:
  "check_plex_args from_string a = Inr () \<longleftrightarrow>
    from_string (arg_local_addr a) \<noteq> None
    \<and> (arg_prune a \<or> arg_trunk a \<longrightarrow> arg_trunk_port a \<noteq> 0 \<and> arg_trunk_addr a \<noteq> ''''
         \<and> from_string (arg_trunk_addr a) \<noteq> None)
    \<and> (\<forall>b \<in> set (arg_branch_addrs a). from_string b \<noteq> None)
    \<and> length (arg_branch_addrs a) = length (arg_branch_ports a)"
  using check_branches_ok [of from_string "arg_branch_addrs a"]
  by (auto simp: check_plex_args_def split: sum.split)

end
