(* ===== verification/TimeoutCache.thy ===== *)
theory TimeoutCache
  imports Prelude
begin

text \<open>
  The cache of endpoints with idle timeouts of \<open>src/src/TimeoutCache.h\<close>. Instants of
  \<open>steady_clock\<close> are natural numbers (ticks) and the timeout is a number of ticks. Each method
  that reads the clock twice gets two readings. A \<open>steady_timer\<close> is the instant it is set to
  expire at; its handler runs, on the strand, at some instant that is not earlier. The list
  iterator stored in an entry stands for the entry's own key, since keys are unique in the list.
\<close>

section \<open>State\<close>

datatype add_result = REFRESHED | ADDED | DROPPED

record cache_entry =
  ce_timer :: nat
  ce_access :: nat

record 'k tcache =
  tc_timeout :: nat
  tc_max :: nat
  tc_cache :: "'k \<rightharpoonup> cache_entry"
  tc_seq :: "'k list"

text \<open>\<open>numeric_limits<size_t>::max()\<close>, the size limit before \<open>SetMaxSize\<close>.\<close>

definition size_max :: nat where "size_max = 2 ^ 64 - 1"

text \<open>The time-out is a \<open>size_t\<close> of milliseconds that the source turns into a 64-bit duration; here durations and
  instants do not overflow.\<close>

definition tc_new :: "nat \<Rightarrow> 'k tcache" where
  "tc_new timeout = \<lparr>tc_timeout = timeout, tc_max = size_max, tc_cache = Map.empty, tc_seq = []\<rparr>"

section \<open>Operations\<close>

definition tc_clear :: "'k tcache \<Rightarrow> 'k tcache" where
  "tc_clear c = c\<lparr>tc_cache := Map.empty, tc_seq := []\<rparr>"

definition tc_set_max :: "nat \<Rightarrow> 'k tcache \<Rightarrow> 'k tcache" where
  "tc_set_max m c = c\<lparr>tc_max := m\<rparr>"

definition tc_keys :: "'k tcache \<Rightarrow> 'k list" where
  "tc_keys c = tc_seq c"

text \<open>The timer of a new entry is set from the first clock reading, its access time from the
  second; a refresh reads the clock once.\<close>

definition tc_add :: "nat \<times> nat \<Rightarrow> 'k \<Rightarrow> 'k tcache \<Rightarrow> add_result \<times> 'k tcache" where
  "tc_add t key c =
    (case tc_cache c key of
       Some e \<Rightarrow> (REFRESHED, c\<lparr>tc_cache := (tc_cache c)(key \<mapsto> e\<lparr>ce_access := fst t\<rparr>)\<rparr>)
     | None \<Rightarrow>
         if length (tc_seq c) \<ge> tc_max c then (DROPPED, c)
         else (ADDED, c\<lparr>tc_seq := tc_seq c @ [key],
           tc_cache := (tc_cache c)(key \<mapsto> \<lparr>ce_timer = fst t + tc_timeout c, ce_access = snd t\<rparr>)\<rparr>))"

text \<open>\<open>TimerHandler\<close>: \<open>Cache.at\<close> throws for a missing key; \<open>Inr (Some key)\<close> is the post of
  \<open>timeout_handler(key)\<close>, \<open>Inr None\<close> no post. The time left is a signed duration.\<close>

datatype cache_error = CacheAtOutOfRange

definition tc_timer_handler ::
  "nat \<times> nat \<Rightarrow> 'k \<Rightarrow> bool \<Rightarrow> 'k tcache \<Rightarrow> (cache_error + 'k option) \<times> 'k tcache" where
  "tc_timer_handler t key err c =
    (if err then (Inr None, c)
     else case tc_cache c key of
       None \<Rightarrow> (Inl CacheAtOutOfRange, c)
     | Some e \<Rightarrow>
         let time_to_expiry = int (ce_access e + tc_timeout c) - int (fst t)
         in if time_to_expiry > 0
            then (Inr None, c\<lparr>tc_cache :=
              (tc_cache c)(key \<mapsto> e\<lparr>ce_timer := snd t + nat time_to_expiry\<rparr>)\<rparr>)
            else (Inr (Some key), c\<lparr>tc_seq := remove1 key (tc_seq c),
              tc_cache := (tc_cache c)(key := None)\<rparr>))"

section \<open>Well-formedness\<close>

definition tc_wf :: "'k tcache \<Rightarrow> bool" where
  "tc_wf c \<longleftrightarrow> distinct (tc_seq c) \<and> set (tc_seq c) = dom (tc_cache c)
    \<and> length (tc_seq c) \<le> tc_max c"

lemma tc_wf_new: "tc_wf (tc_new d)"
  by (simp add: tc_wf_def tc_new_def)

lemma tc_wf_clear: "tc_wf (tc_clear c)"
  by (simp add: tc_wf_def tc_clear_def)

lemma tc_wf_set_max: "tc_wf c \<Longrightarrow> length (tc_seq c) \<le> m \<Longrightarrow> tc_wf (tc_set_max m c)"
  by (simp add: tc_wf_def tc_set_max_def)

lemma tc_lookup_keys: "tc_wf c \<Longrightarrow> k \<in> set (tc_keys c) \<longleftrightarrow> (\<exists>e. tc_cache c k = Some e)"
  by (auto simp: tc_wf_def tc_keys_def)

lemma tc_add_present:
  "tc_wf c \<Longrightarrow> k \<in> set (tc_keys c) \<Longrightarrow>
    fst (tc_add t k c) = REFRESHED \<and> tc_keys (snd (tc_add t k c)) = tc_keys c"
  by (auto simp: tc_lookup_keys) (auto simp: tc_add_def tc_keys_def)

lemma tc_add_full:
  "tc_wf c \<Longrightarrow> k \<notin> set (tc_keys c) \<Longrightarrow> length (tc_keys c) \<ge> tc_max c \<Longrightarrow> tc_add t k c = (DROPPED, c)"
  by (auto simp: tc_lookup_keys tc_add_def) (auto simp: tc_keys_def)

lemma tc_add_new:
  "tc_wf c \<Longrightarrow> k \<notin> set (tc_keys c) \<Longrightarrow> length (tc_keys c) < tc_max c \<Longrightarrow>
    fst (tc_add t k c) = ADDED \<and> tc_keys (snd (tc_add t k c)) = tc_keys c @ [k]"
  using tc_lookup_keys [of c k]
  by (cases "tc_cache c k") (simp_all add: tc_add_def tc_keys_def)

lemma tc_add_max: "tc_max (snd (tc_add t k c)) = tc_max c"
  by (simp add: tc_add_def split: option.split)

lemma tc_add_timeout: "tc_timeout (snd (tc_add t k c)) = tc_timeout c"
  by (simp add: tc_add_def split: option.split)

lemma tc_add_wf: "tc_wf c \<Longrightarrow> tc_wf (snd (tc_add t k c))"
  by (auto simp: tc_wf_def tc_add_def split: option.split)

lemma tc_timer_wf: "tc_wf c \<Longrightarrow> tc_wf (snd (tc_timer_handler t k err c))"
  by (auto simp: tc_wf_def tc_timer_handler_def Let_def length_remove1 split: option.split)

section \<open>The interface of a bounded key cache\<close>

text \<open>
  What the multiplexer relies on: a present key is refreshed in place, a new key goes to the end
  of the sequence while there is room and is dropped otherwise, and keys are unique.
\<close>

locale key_cache =
  fixes add :: "'t \<Rightarrow> 'k \<Rightarrow> 'c \<Rightarrow> add_result \<times> 'c"
    and keys :: "'c \<Rightarrow> 'k list"
    and cap :: "'c \<Rightarrow> nat"
    and inv :: "'c \<Rightarrow> bool"
  assumes keys_distinct: "inv c \<Longrightarrow> distinct (keys c)"
    and keys_bounded: "inv c \<Longrightarrow> length (keys c) \<le> cap c"
    and add_present: "inv c \<Longrightarrow> k \<in> set (keys c) \<Longrightarrow>
      fst (add t k c) = REFRESHED \<and> keys (snd (add t k c)) = keys c"
    and add_full: "inv c \<Longrightarrow> k \<notin> set (keys c) \<Longrightarrow> length (keys c) \<ge> cap c \<Longrightarrow>
      add t k c = (DROPPED, c)"
    and add_new: "inv c \<Longrightarrow> k \<notin> set (keys c) \<Longrightarrow> length (keys c) < cap c \<Longrightarrow>
      fst (add t k c) = ADDED \<and> keys (snd (add t k c)) = keys c @ [k]"
    and add_cap: "cap (snd (add t k c)) = cap c"
    and add_inv: "inv c \<Longrightarrow> inv (snd (add t k c))"
begin

lemma add_cases:
  assumes "inv c"
  obtains (present) "k \<in> set (keys c)" "fst (add t k c) = REFRESHED" "keys (snd (add t k c)) = keys c"
  | (full) "k \<notin> set (keys c)" "length (keys c) = cap c" "fst (add t k c) = DROPPED"
      "keys (snd (add t k c)) = keys c"
  | (new) "k \<notin> set (keys c)" "length (keys c) < cap c" "fst (add t k c) = ADDED"
      "keys (snd (add t k c)) = keys c @ [k]"
proof (cases "k \<in> set (keys c)")
  case True
  then show thesis using add_present [OF assms] present by blast
next
  case False
  show thesis
  proof (cases "length (keys c) < cap c")
    case True
    then show thesis using add_new [OF assms False] new False by blast
  next
    case full': False
    then have "add t k c = (DROPPED, c)" using add_full [OF assms False] by simp
    then show thesis using full full' False keys_bounded [OF assms] by simp
  qed
qed

text \<open>The first key stays first: the first in is best dressed.\<close>

lemma head_stable: "inv c \<Longrightarrow> keys c \<noteq> [] \<Longrightarrow> hd (keys (snd (add t k c))) = hd (keys c)"
  by (erule add_cases [where k = k and t = t]) simp_all

text \<open>After an \<open>Add\<close> to a cache that may hold anything there is a first key to dereference.\<close>

lemma add_nonempty: "inv c \<Longrightarrow> 0 < cap c \<Longrightarrow> keys (snd (add t k c)) \<noteq> []"
  by (erule add_cases [where k = k and t = t]) auto

lemma add_result_iff:
  assumes "inv c"
  shows "fst (add t k c) = ADDED \<longleftrightarrow> k \<notin> set (keys c) \<and> length (keys c) < cap c"
    and "set (keys (snd (add t k c))) =
      (if fst (add t k c) = ADDED then insert k (set (keys c)) else set (keys c))"
  by (rule add_cases [OF assms, of k t]; simp)+

lemma add_head_is_key:
  "inv c \<Longrightarrow> 0 < cap c \<Longrightarrow> hd (keys (snd (add t k c))) = (if keys c = [] then k else hd (keys c))"
  by (erule add_cases [where k = k and t = t]) auto

end

interpretation tcache: key_cache tc_add tc_keys tc_max tc_wf
proof
  show "tc_wf c \<Longrightarrow> distinct (tc_keys c)" for c :: "'a tcache"
    by (simp add: tc_wf_def tc_keys_def)
  show "tc_wf c \<Longrightarrow> length (tc_keys c) \<le> tc_max c" for c :: "'a tcache"
    by (simp add: tc_wf_def tc_keys_def)
qed (simp_all add: tc_add_present tc_add_full tc_add_new tc_add_max tc_add_wf)

section \<open>Expiry\<close>

lemma tc_timer_expires:
  assumes "tc_cache c k = Some e" "ce_access e + tc_timeout c \<le> fst t"
  shows "tc_timer_handler t k False c =
    (Inr (Some k), c\<lparr>tc_seq := remove1 k (tc_seq c), tc_cache := (tc_cache c)(k := None)\<rparr>)"
  using assms by (simp add: tc_timer_handler_def Let_def del: of_nat_add)

lemma tc_timer_rearms:
  assumes "tc_cache c k = Some e" "fst t < ce_access e + tc_timeout c"
  shows "tc_timer_handler t k False c = (Inr None, c\<lparr>tc_cache := (tc_cache c)
    (k \<mapsto> e\<lparr>ce_timer := snd t + (ce_access e + tc_timeout c - fst t)\<rparr>)\<rparr>)"
proof -
  have "nat (int (ce_access e + tc_timeout c) - int (fst t)) = ce_access e + tc_timeout c - fst t"
    by (simp only: nat_diff_distrib' of_nat_0_le_iff nat_int)
  then show ?thesis using assms by (simp add: tc_timer_handler_def Let_def del: of_nat_add)
qed

text \<open>The invariant of armed timers: no timer of an entry is set later than the end of the entry's
  idle time plus \<open>slack\<close>, the longest gap between the two clock readings of one handler run.\<close>

definition tc_armed :: "nat \<Rightarrow> 'k tcache \<Rightarrow> bool" where
  "tc_armed slack c \<longleftrightarrow> (\<forall>k e. tc_cache c k = Some e \<longrightarrow> ce_timer e \<le> ce_access e + tc_timeout c + slack)"

lemma tc_armed_add:
  assumes "tc_armed slack c" "fst t \<le> snd t" "\<And>e. tc_cache c k = Some e \<Longrightarrow> ce_access e \<le> fst t"
  shows "tc_armed slack (snd (tc_add t k c))"
  unfolding tc_armed_def
proof (intro allI impI)
  fix k' e assume e: "tc_cache (snd (tc_add t k c)) k' = Some e"
  show "ce_timer e \<le> ce_access e + tc_timeout (snd (tc_add t k c)) + slack"
  proof (cases "tc_cache c k")
    case (Some e0)
    then have "ce_timer e0 \<le> ce_access e0 + tc_timeout c + slack" "ce_access e0 \<le> fst t"
      using assms by (auto simp: tc_armed_def)
    then have "ce_timer e0 \<le> fst t + tc_timeout c + slack" by linarith
    then show ?thesis using e Some assms(1)
      by (auto simp: tc_add_def tc_armed_def split: if_splits)
  next
    case None
    then show ?thesis using e assms(1,2)
      by (auto simp: tc_add_def tc_armed_def split: if_splits)
  qed
qed

lemma tc_armed_timer:
  assumes "tc_armed slack c" "snd t \<le> fst t + slack"
  shows "tc_armed slack (snd (tc_timer_handler t k err c))"
proof (cases "err \<or> tc_cache c k = None")
  case True
  then show ?thesis using assms(1) by (auto simp: tc_timer_handler_def)
next
  case False
  then obtain e where e: "tc_cache c k = Some e" "\<not> err" by auto
  show ?thesis
  proof (cases "fst t < ce_access e + tc_timeout c")
    case True
    then show ?thesis using assms e
      by (auto simp: tc_timer_rearms tc_armed_def)
  next
    case False
    then show ?thesis using assms e by (auto simp: tc_timer_expires tc_armed_def)
  qed
qed

section \<open>Properties\<close>

text \<open>
  C17. \<open>Add\<close> is first come, first kept, in a bounded space: a known key keeps its place and only
  its access time moves; an unknown key goes to the end while there is room, with its timer one timeout after the
  first reading of the clock and its access time the second, and every other entry stays; with no room
  nothing changes. The first key of a non-empty cache never changes,
  keys stay unique and within the limit, and the cache and the sequence keep the same keys.
\<close>

theorem tc_add_contract:
  assumes "tc_wf c"
  shows "(case fst (tc_add t k c) of
      REFRESHED \<Rightarrow> k \<in> set (tc_keys c) \<and> tc_keys (snd (tc_add t k c)) = tc_keys c
        \<and> (\<exists>e. tc_cache c k = Some e \<and>
             tc_cache (snd (tc_add t k c)) = (tc_cache c)(k \<mapsto> e\<lparr>ce_access := fst t\<rparr>))
    | ADDED \<Rightarrow> k \<notin> set (tc_keys c) \<and> length (tc_keys c) < tc_max c
        \<and> tc_keys (snd (tc_add t k c)) = tc_keys c @ [k]
        \<and> tc_cache (snd (tc_add t k c)) = (tc_cache c)(k \<mapsto> \<lparr>ce_timer = fst t + tc_timeout c, ce_access = snd t\<rparr>)
    | DROPPED \<Rightarrow> k \<notin> set (tc_keys c) \<and> length (tc_keys c) = tc_max c \<and> snd (tc_add t k c) = c)
    \<and> tc_wf (snd (tc_add t k c))
    \<and> tc_max (snd (tc_add t k c)) = tc_max c \<and> tc_timeout (snd (tc_add t k c)) = tc_timeout c
    \<and> (tc_keys c \<noteq> [] \<longrightarrow> hd (tc_keys (snd (tc_add t k c))) = hd (tc_keys c))"
proof -
  have "tc_wf (snd (tc_add t k c))" using assms by (rule tc_add_wf)
  moreover have "tc_keys c \<noteq> [] \<longrightarrow> hd (tc_keys (snd (tc_add t k c))) = hd (tc_keys c)"
    using tcache.head_stable [OF assms] by blast
  moreover have "case fst (tc_add t k c) of
      REFRESHED \<Rightarrow> k \<in> set (tc_keys c) \<and> tc_keys (snd (tc_add t k c)) = tc_keys c
        \<and> (\<exists>e. tc_cache c k = Some e \<and>
             tc_cache (snd (tc_add t k c)) = (tc_cache c)(k \<mapsto> e\<lparr>ce_access := fst t\<rparr>))
    | ADDED \<Rightarrow> k \<notin> set (tc_keys c) \<and> length (tc_keys c) < tc_max c
        \<and> tc_keys (snd (tc_add t k c)) = tc_keys c @ [k]
        \<and> tc_cache (snd (tc_add t k c)) = (tc_cache c)(k \<mapsto> \<lparr>ce_timer = fst t + tc_timeout c, ce_access = snd t\<rparr>)
    | DROPPED \<Rightarrow> k \<notin> set (tc_keys c) \<and> length (tc_keys c) = tc_max c \<and> snd (tc_add t k c) = c"
  proof (rule tcache.add_cases [OF assms, of k t])
    assume p: "k \<in> set (tc_keys c)" "fst (tc_add t k c) = REFRESHED"
      "tc_keys (snd (tc_add t k c)) = tc_keys c"
    then obtain e where "tc_cache c k = Some e" using tc_lookup_keys [OF assms] by blast
    then show ?thesis using p by (auto simp: tc_add_def)
  next
    assume "k \<notin> set (tc_keys c)" "length (tc_keys c) = tc_max c"
    then show ?thesis using tc_add_full [OF assms, of k t] by simp
  next
    assume p: "k \<notin> set (tc_keys c)" "length (tc_keys c) < tc_max c" "fst (tc_add t k c) = ADDED"
      "tc_keys (snd (tc_add t k c)) = tc_keys c @ [k]"
    then have "tc_cache c k = None" using tc_lookup_keys [OF assms, of k] by (cases "tc_cache c k") auto
    then have "tc_cache (snd (tc_add t k c)) = (tc_cache c)(k \<mapsto> \<lparr>ce_timer = fst t + tc_timeout c, ce_access = snd t\<rparr>)"
      using p(2) by (simp add: tc_add_def tc_keys_def)
    then show ?thesis using p by simp
  qed
  ultimately show ?thesis using tc_add_max [of t k c] tc_add_timeout [of t k c] by blast
qed

definition demo_cache :: "nat tcache" where
  "demo_cache = snd (tc_add (5, 5) 8 (snd (tc_add (0, 0) 7 (tc_set_max 2 (tc_new 10)))))"

lemma demo_cache_wf: "tc_wf demo_cache"
  unfolding demo_cache_def
  by (intro tc_add_wf tc_wf_set_max tc_wf_new) (simp add: tc_new_def)

theorem tc_add_contract_witness:
  "fst (tc_add (6, 6) 7 demo_cache) = REFRESHED \<and> fst (tc_add (6, 6) 9 demo_cache) = DROPPED
   \<and> tc_wf (snd (tc_add (6, 6) 9 demo_cache))"
proof -
  have "tc_wf (snd (tc_add (6, 6) 9 demo_cache))"
    using tc_add_contract [OF demo_cache_wf, where t = "(6, 6)" and k = 9] by blast
  then show ?thesis
    by (simp add: demo_cache_def tc_add_def tc_new_def tc_set_max_def)
qed

text \<open>
  Idle timeouts: a timer that fires before the entry has been idle for the timeout keeps the
  entry and its place and re-arms strictly later, and if the entry is then left alone the second
  firing removes it; a timer that fires at or after that instant removes exactly this entry,
  leaves the order of the others, and posts the timeout handler for the key. So no entry is lost
  before its idle time and an idle one is gone after at most two firings.
\<close>

theorem tc_idle_expiry:
  assumes "tc_wf c" "tc_cache c k = Some e" "n1 \<le> n2"
  shows "if n1 < ce_access e + tc_timeout c
    then (\<exists>e' c'. tc_timer_handler (n1, n2) k False c = (Inr None, c') \<and> tc_keys c' = tc_keys c
      \<and> tc_cache c' = (tc_cache c)(k \<mapsto> e') \<and> ce_access e' = ce_access e \<and> n2 < ce_timer e'
      \<and> (\<forall>m1 m2. ce_timer e' \<le> m1 \<longrightarrow>
          fst (tc_timer_handler (m1, m2) k False c') = Inr (Some k)
          \<and> k \<notin> set (tc_keys (snd (tc_timer_handler (m1, m2) k False c')))))
    else fst (tc_timer_handler (n1, n2) k False c) = Inr (Some k)
      \<and> tc_keys (snd (tc_timer_handler (n1, n2) k False c)) = remove1 k (tc_keys c)
      \<and> tc_cache (snd (tc_timer_handler (n1, n2) k False c)) = (tc_cache c)(k := None)
      \<and> k \<notin> set (tc_keys (snd (tc_timer_handler (n1, n2) k False c)))"
proof (cases "n1 < ce_access e + tc_timeout c")
  case True
  define e' where "e' = e\<lparr>ce_timer := n2 + (ce_access e + tc_timeout c - n1)\<rparr>"
  define c' where "c' = c\<lparr>tc_cache := (tc_cache c)(k \<mapsto> e')\<rparr>"
  have h: "tc_timer_handler (n1, n2) k False c = (Inr None, c')"
    using True by (simp add: tc_timer_rearms [OF assms(2)] c'_def e'_def)
  have wf': "tc_wf c'" using tc_timer_wf [OF assms(1), of "(n1, n2)" k False] by (simp add: h)
  have "tc_timer_handler (m1, m2) k False c' = (Inr (Some k),
      c'\<lparr>tc_seq := remove1 k (tc_seq c'), tc_cache := (tc_cache c')(k := None)\<rparr>)"
    if "ce_timer e' \<le> m1" for m1 m2
    using that assms(3) True by (intro tc_timer_expires [of _ _ e']) (auto simp: c'_def e'_def)
  moreover have "k \<notin> set (remove1 k (tc_seq c'))" using wf' by (simp add: tc_wf_def)
  ultimately show ?thesis using h True
    by (auto simp: c'_def tc_keys_def e'_def intro!: exI [of _ e'] exI [of _ c'])
next
  case False
  then show ?thesis using assms
    by (simp add: tc_timer_expires tc_keys_def) (simp add: tc_wf_def)
qed

theorem tc_idle_expiry_witness:
  "fst (tc_timer_handler (15, 16) (8::nat) False demo_cache) = Inr (Some 8)"
proof -
  have e: "tc_cache demo_cache 8 = Some \<lparr>ce_timer = 15, ce_access = 5\<rparr>" "tc_timeout demo_cache = 10"
    by (simp_all add: demo_cache_def tc_add_def tc_new_def tc_set_max_def size_max_def)
  show ?thesis using tc_idle_expiry [OF demo_cache_wf e(1), of 15 16] e(2) by simp
qed

end
