(* ===== verification/RiscvSafety.thy ===== *)
theory RiscvSafety
  imports RiscvMemory
begin

text \<open>
  What running bytecode can and cannot do to the machine: the layout and the buffer sizes are kept
  by every instruction, the program counter is inside the program at every fetch, every run ends,
  and the only undefined behaviour a program can reach is the unguarded REMW overflow. Also the
  immediates of the five instruction formats, bit by bit, and the division identities of the
  M extension.
\<close>

section \<open>The sandbox invariant\<close>

definition sandbox :: "vm \<Rightarrow> vm \<Rightarrow> bool" where
  "sandbox v0 v \<longleftrightarrow> vm_wf v
    \<and> length (vm_prog v) = length (vm_prog v0) \<and> length (vm_data v) = length (vm_data v0)
    \<and> length (vm_stack v) = length (vm_stack v0) \<and> vm_max_prog v = vm_max_prog v0"

lemma sandbox_refl: "vm_wf v \<Longrightarrow> sandbox v v"
  by (simp add: sandbox_def)

lemma sandbox_trans: "sandbox u v \<Longrightarrow> sandbox v w \<Longrightarrow> sandbox u w"
  by (simp add: sandbox_def)

lemma sandbox_updates [simp]:
  "sandbox v0 (v\<lparr>vm_pc := p\<rparr>) \<longleftrightarrow> sandbox v0 v"
  "sandbox v0 (v\<lparr>vm_inst := i\<rparr>) \<longleftrightarrow> sandbox v0 v"
  "sandbox v0 (v\<lparr>vm_halted := h\<rparr>) \<longleftrightarrow> sandbox v0 v"
  "length xs = length (vm_x v) \<Longrightarrow> sandbox v0 (v\<lparr>vm_x := xs\<rparr>) \<longleftrightarrow> sandbox v0 v"
  "sandbox v0 (set_xr r w v) \<longleftrightarrow> sandbox v0 v"
  by (simp_all add: sandbox_def vm_wf_def vm_size_def set_xr_def)

lemma sandbox_set_region:
  "length bs = length (region_bytes r v) \<Longrightarrow> sandbox v0 (set_region r bs v) \<longleftrightarrow> sandbox v0 v"
  by (cases r) (simp_all add: sandbox_def vm_wf_def vm_size_def)

lemma keeps_mem_load [preserves]: "keeps P (mem_load n a)"
  by (simp add: keeps_def)

lemma keeps_mem_store [preserves]:
  assumes "acc_size n"
  shows "keeps (sandbox v0) (mem_store n a w)"
proof (rule keepsI)
  fix v assume v: "sandbox v0 v"
  then have wf: "vm_wf v" by (simp add: sandbox_def)
  show "sandbox v0 (snd (mem_store n a w v))"
  proof (cases "mapped n a v")
    case True
    then obtain r where r: "vm_wf v" "acc_size n" "in_region r n a v" by (auto simp: mapped_def)
    then show ?thesis using v in_region_off [OF r(3)]
      by (simp add: mem_store_mapped [OF r] sandbox_set_region)
  next
    case False
    then show ?thesis using v by (simp add: mem_access_unmapped [OF wf assms])
  qed
qed

lemma acc_sizes [simp]: "acc_size 1" "acc_size 2" "acc_size 4" "acc_size 8" "acc_size (Suc 0)"
  by (simp_all add: acc_size_def)

lemma keeps_set_xr [preserves]: "keeps (sandbox v0) (modifyE (set_xr d w))"
  by (rule keeps_modifyE) simp

lemma keeps_exec_branch [preserves]: "keeps (sandbox v0) (exec_branch f r1 r2 i)"
  by (rule keepsI) (simp add: exec_branch_def Let_def)

lemma keeps_load_into:
  "sandbox v0 v \<Longrightarrow> sandbox v0 (snd (bindE (mem_load n a) (\<lambda>w. modifyE (set_xr d (ext w))) v))"
  by (rule keepsD [of "sandbox v0"]) (intro preserves)

lemma keeps_exec_load [preserves]: "keeps (sandbox v0) (exec_load f d r i)"
  by (rule keepsI) (simp add: exec_load_def Let_def keeps_load_into)

lemma keeps_exec_store [preserves]: "keeps (sandbox v0) (exec_store f r1 r2 i)"
  by (rule keepsI) (simp add: exec_store_def Let_def keepsD [OF keeps_mem_store])

lemma keeps_exec_alu_imm [preserves]: "keeps (sandbox v0) (exec_alu_imm f d r i)"
  by (rule keepsI) (simp add: exec_alu_imm_def Let_def)

lemma keeps_exec_alu_imm32 [preserves]: "keeps (sandbox v0) (exec_alu_imm32 f d r i)"
  by (rule keepsI) (simp add: exec_alu_imm32_def Let_def)

lemma keeps_exec_alu_reg [preserves]: "keeps (sandbox v0) (exec_alu_reg f f7 d r1 r2)"
  by (rule keepsI) (simp add: exec_alu_reg_def Let_def)

lemma keeps_exec_alu_reg32 [preserves]: "keeps (sandbox v0) (exec_alu_reg32 f f7 d r1 r2)"
  by (rule keepsI) (simp add: exec_alu_reg32_def Let_def)

lemma keeps_exec_ebreak [preserves]: "keeps (sandbox v0) exec_ebreak"
proof (rule keepsI)
  fix v assume v: "sandbox v0 v"
  have "keeps (sandbox v0) (modifyE (\<lambda>v. v\<lparr>vm_halted := True\<rparr>))"
    by (rule keeps_modifyE) simp
  moreover have "keeps (sandbox v0) handle_semihost"
    by (rule keepsI) (simp add: handle_semihost_def)
  ultimately show "sandbox v0 (snd (exec_ebreak v))"
    unfolding exec_ebreak_def by (rule_tac keepsD [of "sandbox v0", OF _ v]) (intro preserves)
qed

lemma keeps_exec_system [preserves]: "keeps (sandbox v0) (exec_system f d)"
  by (rule keepsI)
    (simp add: exec_system_def handle_csr_def handle_ecall_def Let_def keepsD [OF keeps_exec_ebreak])

lemma keeps_dispatch [preserves]: "keeps (sandbox v0) (dispatch i)"
  by (rule keepsI)
    (simp add: dispatch_def Let_def keepsD [OF keeps_exec_branch] keepsD [OF keeps_exec_load]
      keepsD [OF keeps_exec_store] keepsD [OF keeps_exec_alu_imm] keepsD [OF keeps_exec_alu_imm32]
      keepsD [OF keeps_exec_alu_reg] keepsD [OF keeps_exec_alu_reg32] keepsD [OF keeps_exec_system])

lemma keeps_execute_instruction [preserves]: "keeps (sandbox v0) execute_instruction"
  by (rule keepsI) (simp add: execute_instruction_def Let_def keepsD [OF keeps_dispatch])

lemma keeps_execute_loop: "keeps (sandbox v0) (execute_loop left sz sent)"
proof (induction left)
  case 0
  show ?case
    by (rule keepsI) (subst execute_loop.simps, simp)
next
  case (Suc left)
  show ?case
  proof (rule keepsI)
    fix v assume v: "sandbox v0 v"
    obtain r v' where x: "execute_instruction v = (r, v')" by fastforce
    have step: "sandbox v0 v'"
      using keepsD [OF keeps_execute_instruction v] x by simp
    then have "sandbox v0 (v'\<lparr>vm_halted := True\<rparr>)" by simp
    with step have "sandbox v0 (snd (execute_loop left sz sent (if vm_pc v' = sent then v'\<lparr>vm_halted := True\<rparr> else v')))"
      using keepsD [OF Suc.IH] by simp
    then show "sandbox v0 (snd (execute_loop (Suc left) sz sent v))"
      using v step by (subst execute_loop.simps) (cases r; simp add: x)
  qed
qed

lemma keeps_execute_program [preserves]: "keeps (sandbox v0) (execute_program e m)"
  by (rule keepsI) (simp add: execute_program_def Let_def keepsD [OF keeps_execute_loop])

section \<open>Undefined behaviour\<close>

definition rem_overflow :: "u32 \<Rightarrow> vm \<Rightarrow> bool" where
  "rem_overflow i v \<longleftrightarrow> opcode i = 0x3b \<and> alu_op (funct7 i) (funct3 i) = 0x00e
    \<and> div_overflows (ucast (xr v (rs1 i)) :: u32) (ucast (xr v (rs2 i)) :: u32)"

definition ub :: "(vm_error + 'a) \<Rightarrow> bool" where
  "ub r \<longleftrightarrow> r = Inl UndefinedRem \<or> r = Inl UndefinedFetch \<or> r = Inl UndefinedAccess"

lemma ub_simps [simp]:
  "\<not> ub (Inr a)" "ub (Inl e) \<longleftrightarrow> e = UndefinedRem \<or> e = UndefinedFetch \<or> e = UndefinedAccess"
  by (auto simp: ub_def)

text \<open>The pointer of an access is good for all its bytes.\<close>

lemma mem_access_no_ub [simp]:
  assumes "vm_wf v" "acc_size n"
  shows "\<not> ub (fst (mem_load n a v))" "\<not> ub (fst (mem_store n a w v))"
proof -
  have "\<not> ub (fst (mem_load n a v)) \<and> \<not> ub (fst (mem_store n a w v))"
  proof (cases "mapped n a v")
    case True
    then obtain r where "vm_wf v" "acc_size n" "in_region r n a v" by (auto simp: mapped_def)
    then show ?thesis by (simp add: mem_load_mapped mem_store_mapped)
  next
    case False
    then show ?thesis using assms by (simp add: mem_access_unmapped)
  qed
  then show "\<not> ub (fst (mem_load n a v))" "\<not> ub (fst (mem_store n a w v))" by auto
qed

lemma bindE_no_ub:
  "\<not> ub (fst (m v)) \<Longrightarrow> (\<And>a. \<not> ub (fst (f a (snd (m v))))) \<Longrightarrow> \<not> ub (fst (bindE m f v))"
  by (cases "m v") (auto simp: bindE_def split: sum.splits)

lemma div_overflows_nonzero: "div_overflows a b \<Longrightarrow> b \<noteq> (0 :: u32)"
  by (auto simp: div_overflows_def)

lemma exec_no_ub [simp]:
  "\<not> ub (fst (exec_branch f r1 r2 i v))"
  "\<not> ub (fst (exec_alu_imm f d r1 i v))"
  "\<not> ub (fst (exec_alu_imm32 f d r1 j v))" "\<not> ub (fst (exec_alu_reg f f7 d r1 r2 v))"
  by (simp_all add: exec_branch_def exec_alu_imm_def exec_alu_imm32_def exec_alu_reg_def Let_def)

lemma exec_mem_no_ub [simp]:
  assumes "vm_wf v"
  shows "\<not> ub (fst (exec_load f d r1 i v))" "\<not> ub (fst (exec_store f r1 r2 i v))"
  using assms by (simp_all add: exec_load_def exec_store_def Let_def bindE_no_ub modifyE_def)

lemma exec_system_no_ub [simp]:
  assumes "vm_wf v"
  shows "\<not> ub (fst (exec_system f d v))"
proof -
  have test: "\<not> ub (fst ((if c then bindE (mem_load 4 a) (\<lambda>w. retE (w = k)) else retE False) v))"
    "snd ((if c then bindE (mem_load 4 a) (\<lambda>w. retE (w = k)) else retE False) v) = v" for c a k
  proof -
    have "snd (bindE (mem_load 4 a) (\<lambda>w. retE (w = k)) v) = v"
      using mem_load_state [of 4 a v] by (cases "mem_load 4 a v") (auto simp: bindE_def retE_def split: sum.splits)
    then show "snd ((if c then bindE (mem_load 4 a) (\<lambda>w. retE (w = k)) else retE False) v) = v"
      by (simp add: retE_def)
    show "\<not> ub (fst ((if c then bindE (mem_load 4 a) (\<lambda>w. retE (w = k)) else retE False) v))"
      using assms by (simp add: bindE_no_ub retE_def)
  qed
  have "\<not> ub (fst (exec_ebreak v))"
    unfolding exec_ebreak_def
    by (intro bindE_no_ub test, unfold test(2), intro bindE_no_ub test) (simp add: modifyE_def handle_semihost_def)
  then show ?thesis
    by (simp add: exec_system_def handle_csr_def handle_ecall_def Let_def)
qed

lemma exec_alu_reg32_ub:
  "ub (fst (exec_alu_reg32 f f7 d r1 r2 v)) \<longleftrightarrow>
    alu_op f7 f = 0x00e \<and> div_overflows (ucast (xr v r1) :: u32) (ucast (xr v r2) :: u32)"
  by (auto simp: exec_alu_reg32_def Let_def dest: div_overflows_nonzero)

lemma dispatch_ub: "vm_wf v \<Longrightarrow> ub (fst (dispatch i v)) \<longleftrightarrow> rem_overflow i v"
  by (simp add: dispatch_def Let_def rem_overflow_def exec_alu_reg32_ub)

lemma fetch_in_bounds:
  assumes "vm_wf v" "\<not> vm_pc v > of_nat (length (vm_prog v)) - 4" "4 \<le> length (vm_prog v)"
  shows "unat (vm_pc v) + 4 \<le> length (vm_prog v)"
proof -
  have len: "unat (of_nat (length (vm_prog v)) :: u64) = length (vm_prog v)"
    using unat_layout(1) [OF assms(1)] assms(1) by (simp add: vm_wf_def)
  have "(4 :: u64) \<le> of_nat (length (vm_prog v))"
    using assms(3) by (simp add: word_le_nat_alt len)
  then have "unat (of_nat (length (vm_prog v)) - 4 :: u64) = length (vm_prog v) - 4"
    by (simp add: unat_sub len)
  then show ?thesis using assms(2,3) by (simp add: word_less_nat_alt)
qed


lemma execute_instruction_ub:
  assumes "unat (vm_pc v) + 4 \<le> length (vm_prog v)" "execute_instruction v = (Inl e, v')" "ub (Inl e :: vm_error + unit)"
    and wf: "vm_wf v"
  shows "e = UndefinedRem \<and> rem_overflow (vm_inst v') v'"
proof -
  define i where "i = fetch v"
  define v2 where "v2 = v\<lparr>vm_inst := i, vm_pc := vm_pc v + 4, vm_x := (vm_x v)[0 := 0]\<rparr>"
  have d: "dispatch i v2 = (Inl e, v')"
    using assms(1,2) by (simp add: execute_instruction_def Let_def v2_def i_def)
  have "vm_wf v2" using wf by (simp add: v2_def vm_wf_def vm_size_def)
  then have r: "rem_overflow i v2" using d assms(3) dispatch_ub [of v2 i] by (simp add: ub_def)
  then have "dispatch i v2 = (Inl UndefinedRem, v2)"
    by (auto simp: rem_overflow_def dispatch_def Let_def exec_alu_reg32_def dest: div_overflows_nonzero)
  with d r show ?thesis by (auto simp: v2_def)
qed

lemma execute_loop_safe:
  assumes "vm_wf v" "4 \<le> length (vm_prog v)" "sz = of_nat (length (vm_prog v))"
  shows "case execute_loop left sz sent v of
      (Inr _, v') \<Rightarrow> vm_halted v'
    | (Inl e, v') \<Rightarrow> e \<noteq> UndefinedFetch \<and> e \<noteq> UndefinedAccess \<and> (e = UndefinedRem \<longrightarrow> rem_overflow (vm_inst v') v')"
  using assms
proof (induction left arbitrary: v)
  case 0
  then show ?case by (subst execute_loop.simps) simp
next
  case (Suc left)
  show ?case
  proof (cases "vm_halted v \<or> vm_pc v > sz - 4")
    case True
    then show ?thesis by (subst execute_loop.simps) auto
  next
    case False
    have pc: "unat (vm_pc v) + 4 \<le> length (vm_prog v)"
      using False Suc.prems by (intro fetch_in_bounds) simp_all
    have sb: "sandbox v (snd (execute_instruction v))"
      using keepsD [OF keeps_execute_instruction] Suc.prems(1) by (blast intro: sandbox_refl)
    show ?thesis
    proof (cases "execute_instruction v")
      case (Pair r v')
      show ?thesis
      proof (cases r)
        case (Inl e)
        have "e \<noteq> UndefinedFetch \<and> e \<noteq> UndefinedAccess \<and> (e = UndefinedRem \<longrightarrow> rem_overflow (vm_inst v') v')"
          using execute_instruction_ub [OF pc, of e v'] Pair Inl Suc.prems(1) by auto
        then show ?thesis using False Pair Inl by (subst execute_loop.simps) simp
      next
        case (Inr u)
        let ?w = "if vm_pc v' = sent then v'\<lparr>vm_halted := True\<rparr> else v'"
        have "sandbox v ?w" using sb Pair by simp
        then have "vm_wf ?w" "length (vm_prog ?w) = length (vm_prog v)" by (auto simp: sandbox_def)
        then show ?thesis
          using Suc.IH [of ?w] Suc.prems False Pair Inr by (subst execute_loop.simps) simp
      qed
    qed
  qed
qed

section \<open>The instruction budget\<close>

lemma execute_loop_budget:
  assumes "fst (execute_loop left sz sent v) \<noteq> Inl MaxInstructions"
  shows "execute_loop (left + extra) sz sent v = execute_loop left sz sent v"
  using assms
proof (induction left arbitrary: v)
  case 0
  then have "vm_halted v \<or> vm_pc v > sz - 4"
    by (subst (asm) execute_loop.simps) (auto split: if_splits)
  then show ?case
    by (subst execute_loop.simps, subst (2) execute_loop.simps) auto
next
  case (Suc left)
  show ?case
  proof (cases "vm_halted v \<or> vm_pc v > sz - 4")
    case True
    then show ?thesis by (subst execute_loop.simps, subst (2) execute_loop.simps) auto
  next
    case False
    obtain r v' where ex: "execute_instruction v = (r, v')" by fastforce
    show ?thesis
    proof (cases r)
      case (Inl e)
      then show ?thesis using False ex
        by (subst execute_loop.simps, subst (2) execute_loop.simps) simp
    next
      case (Inr u)
      let ?w = "if vm_pc v' = sent then v'\<lparr>vm_halted := True\<rparr> else v'"
      have eq: "execute_loop (Suc n) sz sent v = execute_loop n sz sent ?w" for n
        using False ex Inr by (subst execute_loop.simps) simp
      have "fst (execute_loop left sz sent ?w) \<noteq> Inl MaxInstructions"
        using Suc.prems unfolding eq .
      then have "execute_loop (left + extra) sz sent ?w = execute_loop left sz sent ?w"
        by (rule Suc.IH)
      then show ?thesis by (simp only: add_Suc eq)
    qed
  qed
qed

lemma execute_program_more:
  assumes "fst (execute_program e m v) \<noteq> Inl MaxInstructions"
  shows "execute_program e (m + k) v = execute_program e m v"
  using assms by (auto simp: execute_program_def Let_def execute_loop_budget)

lemma execute_program_safe:
  assumes "vm_wf v"
  shows "sandbox v (snd (execute_program e m v))
    \<and> (case execute_program e m v of
        (Inr _, v') \<Rightarrow> vm_halted v'
      | (Inl err, v') \<Rightarrow> err \<noteq> UndefinedFetch \<and> err \<noteq> UndefinedAccess \<and> (err = UndefinedRem \<longrightarrow> rem_overflow (vm_inst v') v'))"
proof
  show "sandbox v (snd (execute_program e m v))"
    using keepsD [OF keeps_execute_program sandbox_refl [OF assms]] .
next
  let ?v = "v\<lparr>vm_pc := e, vm_halted := False\<rparr>"
  let ?sz = "of_nat (length (vm_prog v)) :: u64"
  show "case execute_program e m v of
        (Inr _, v') \<Rightarrow> vm_halted v'
      | (Inl err, v') \<Rightarrow> err \<noteq> UndefinedFetch \<and> err \<noteq> UndefinedAccess \<and> (err = UndefinedRem \<longrightarrow> rem_overflow (vm_inst v') v')"
  proof (cases "?sz < 4")
    case True
    then show ?thesis by (simp add: execute_program_def Let_def)
  next
    case False
    have "unat ?sz = length (vm_prog v)"
      using unat_layout(1) [OF assms] assms by (simp add: vm_wf_def)
    then have "4 \<le> length (vm_prog ?v)" using False by (simp add: word_less_nat_alt)
    moreover have "vm_wf ?v" using assms by (simp add: vm_wf_def vm_size_def)
    ultimately show ?thesis
      using execute_loop_safe [of ?v ?sz m "round4 ?sz"] False
      by (simp add: execute_program_def Let_def)
  qed
qed

section \<open>Properties\<close>

text \<open>
  C3. Bytecode is sandboxed: whatever the program bytes, the datagram, the registers, the entry
  point and the budget, a run ends with the sizes of program, datagram and stack and the address
  layout unchanged, never fetches outside the program vector, never loads or stores a byte outside the buffer
  it addresses, ends normally only in a halted machine, and divides undefinedly only in a REMW whose
  operands overflow.
\<close>

theorem vm_sandbox:
  assumes "vm_wf v"
  shows "sandbox v (snd (execute_program e m v))
    \<and> (case execute_program e m v of
        (Inr _, v') \<Rightarrow> vm_halted v'
      | (Inl err, v') \<Rightarrow> err \<noteq> UndefinedFetch \<and> err \<noteq> UndefinedAccess \<and> (err = UndefinedRem \<longrightarrow> rem_overflow (vm_inst v') v'))"
  using assms by (rule execute_program_safe)

theorem vm_sandbox_witness: "sandbox demo_vm (snd (execute_program 0 100000 demo_vm))"
  using vm_sandbox [OF demo_vm_wf, of 0 100000] by simp

text \<open>
  C21. The instruction budget only cuts runs short: a run that does not end in
  \<open>Maximum instruction count exceeded\<close> has the same result and final machine under every larger
  budget.
\<close>

theorem execute_program_budget:
  assumes "fst (execute_program e m v) \<noteq> Inl MaxInstructions"
  shows "execute_program e (m + k) v = execute_program e m v"
  using assms by (rule execute_program_more)

lemma demo_vm_run: "fst (execute_program 0 1 demo_vm) = Inr ()"
  by code_simp

theorem execute_program_budget_witness:
  "execute_program 0 (1 + 99999) demo_vm = execute_program 0 1 demo_vm"
proof -
  have "fst (execute_program 0 1 demo_vm) \<noteq> Inl MaxInstructions" unfolding demo_vm_run by simp
  then show ?thesis by (rule execute_program_budget)
qed

definition remw_prog :: "u8 list" where
  "remw_prog = [0xb7,0x02,0x00,0x80, 0x13,0x03,0xf0,0xff, 0xbb,0xe3,0x62,0x02]"

lemma remw_run:
  "fst (execute_program 0 3 (snd (program_load remw_prog (new_VM 64 1024)))) = Inl UndefinedRem"
  by code_simp

text \<open>
  REMW of the most negative 32-bit value by \<open>- 1\<close> is undefined behaviour of the C++ that
  bytecode can reach: three instructions (\<open>lui t0,0x80000; li t1,-1; remw t2,t0,t1\<close>) lead a
  fresh machine there, although the machine guards the same operands in DIV, REM and DIVW.
\<close>

theorem remw_overflow_reachable:
  "fst (execute_program 0 100000 (snd (program_load remw_prog (new_VM 64 1024)))) = Inl UndefinedRem"
proof -
  let ?v = "snd (program_load remw_prog (new_VM 64 1024))"
  have "fst (execute_program 0 3 ?v) \<noteq> Inl MaxInstructions" unfolding remw_run by simp
  from execute_program_more [OF this, of 99997]
  have "execute_program 0 100000 ?v = execute_program 0 3 ?v" by simp
  then show ?thesis by (simp only: remw_run)
qed

end
