(* ===== verification/MiniPlex.thy ===== *)
theory MiniPlex
  imports CmdArgs TimeoutCache RiscvSafety
begin

text \<open>
  The multiplexer of \<open>src/src/MiniPlex.cpp\<close> and \<open>src/src/MiniPlex.h\<close>. Endpoints are any linear
  order (asio orders them), sockets and logging are not modelled: a handler returns the datagrams
  it posts for sending, as pairs of destination and bytes, in order, or \<open>None\<close> where the C++ has no
  defined behaviour. A \<open>std::set\<close> is iterated in increasing order. Each handler gets the clock
  readings its calls of the cache make.
\<close>

section \<open>State\<close>

datatype plex_mode = HubMode | TrunkMode | PruneMode | SwitchMode

record 'ep plex =
  px_mode :: plex_mode
  px_trunk :: 'ep
  px_perma :: "'ep set"
  px_inactive :: "'ep set"
  px_active :: "'ep tcache"
  px_addr :: "u64 \<rightharpoonup> 'ep tcache"
  px_vm :: vm
  px_timeout :: nat
  px_max_switch :: nat

type_synonym 'ep send = "'ep \<times> u8 list"
type_synonym instants = "nat \<times> nat"

section \<open>Construction\<close>

datatype plex_error =
    BadLocalAddr | ModeError | ByteCodeError vm_error | BadTrunkAddr | BadBranchAddr
  | BranchPortOutOfRange

fun add_branches :: "(string \<Rightarrow> 'a option) \<Rightarrow> ('a \<Rightarrow> u16 \<Rightarrow> 'ep) \<Rightarrow> string list \<Rightarrow> u16 list
    \<Rightarrow> 'ep plex \<Rightarrow> plex_error + 'ep plex" where
  "add_branches from_string endpoint [] ports s = Inr s"
| "add_branches from_string endpoint (b # bs) [] s = Inl BranchPortOutOfRange"
| "add_branches from_string endpoint (b # bs) (p # ps) s =
    (case from_string b of
       None \<Rightarrow> Inl BadBranchAddr
     | Some a \<Rightarrow>
         let branch = endpoint a p
         in add_branches from_string endpoint bs ps
              (s\<lparr>px_perma := insert branch (px_perma s),
                 px_inactive := insert branch (px_inactive s)\<rparr>))"

definition select_mode ::
  "plex_args \<Rightarrow> u8 list option \<Rightarrow> vm \<Rightarrow> plex_error + plex_mode \<times> vm" where
  "select_mode a file v =
    (if arg_hub a then Inr (HubMode, v)
     else if arg_trunk a then Inr (TrunkMode, v)
     else if arg_prune a then Inr (PruneMode, v)
     else if arg_switch a then
       (case program_load_file file v of
          (Inl e, _) \<Rightarrow> Inl (ByteCodeError e)
        | (Inr _, v') \<Rightarrow> Inr (SwitchMode, v'))
     else Inl ModeError)"

text \<open>The constructor; \<open>no_ep\<close> is the default-constructed endpoint \<open>trunk\<close> starts with, and the
  bytecode machine has a stack of 4096 bytes and the default program limit.\<close>

definition new_plex :: "(string \<Rightarrow> 'a option) \<Rightarrow> ('a \<Rightarrow> u16 \<Rightarrow> 'ep) \<Rightarrow> 'ep \<Rightarrow> plex_args
    \<Rightarrow> u8 list option \<Rightarrow> plex_error + 'ep plex" where
  "new_plex from_string endpoint no_ep a file =
    (if from_string (arg_local_addr a) = None then Inl BadLocalAddr
     else case select_mode a file (new_VM 4096 (1024 * 1024)) of
       Inl e \<Rightarrow> Inl e
     | Inr (mode, v) \<Rightarrow>
         case (if arg_trunk a \<or> arg_prune a
               then map_option (\<lambda>t. endpoint t (arg_trunk_port a)) (from_string (arg_trunk_addr a))
               else Some no_ep) of
           None \<Rightarrow> Inl BadTrunkAddr
         | Some trunk \<Rightarrow>
             let active = tc_new (arg_cache_timeout a);
                 sz = arg_max_branch_cache a
             in add_branches from_string endpoint (arg_branch_addrs a) (arg_branch_ports a)
               \<lparr>px_mode = mode, px_trunk = trunk, px_perma = {}, px_inactive = {},
                px_active = (if sz \<noteq> 0 then tc_set_max sz active else active),
                px_addr = Map.empty, px_vm = v, px_timeout = arg_cache_timeout a,
                px_max_switch = arg_max_switch_cache a\<rparr>)"

section \<open>Forwarding and the branch caches\<close>

definition forward :: "u8 list \<Rightarrow> 'ep \<Rightarrow> 'ep list \<Rightarrow> 'ep send list" where
  "forward buf sender branches = map (\<lambda>ep. (ep, buf)) (filter (\<lambda>ep. ep \<noteq> sender) branches)"

definition branches :: "instants \<Rightarrow> 'ep \<Rightarrow> 'ep plex \<Rightarrow> 'ep list \<times> 'ep plex" where
  "branches t ep s =
    (if ep \<noteq> px_trunk s then
       (case tc_add t ep (px_active s) of
          (ADDED, c) \<Rightarrow> (tc_keys c, s\<lparr>px_active := c, px_inactive := px_inactive s - {ep}\<rparr>)
        | (_, c) \<Rightarrow> (tc_keys c, s\<lparr>px_active := c\<rparr>))
     else (tc_keys (px_active s), s))"

definition address_cache :: "u64 \<Rightarrow> 'ep plex \<Rightarrow> 'ep tcache" where
  "address_cache addr s =
    (case px_addr s addr of
       Some c \<Rightarrow> c
     | None \<Rightarrow>
         let c = tc_new (px_timeout s)
         in if px_max_switch s \<noteq> 0 then tc_set_max (px_max_switch s) c else c)"

definition address_branches ::
  "instants \<Rightarrow> 'ep \<Rightarrow> u64 \<Rightarrow> bool \<Rightarrow> 'ep plex \<Rightarrow> 'ep list \<times> 'ep plex" where
  "address_branches t ep addr associate s =
    (let c = address_cache addr s;
         c' = (if associate then snd (tc_add t ep c) else c)
     in (tc_keys c', s\<lparr>px_addr := (px_addr s)(addr \<mapsto> c')\<rparr>))"

section \<open>Packet addresses\<close>

text \<open>\<open>GetSrcDst\<close>: every exception of the machine is caught; undefined behaviour cannot be.\<close>

definition run_src_dst :: "u8 list \<Rightarrow> (bool \<times> u64 \<times> u64) vm_op" where
  "run_src_dst buf =
    bindE (map_data_mem buf) (\<lambda>virt_buf.
    bindE (stack_push 8 0) (\<lambda>src_addr.
    bindE (stack_push 8 0) (\<lambda>dst_addr.
    bindE (register_set 10 virt_buf) (\<lambda>_.
    bindE (register_set 11 (of_nat (length buf))) (\<lambda>_.
    bindE (register_set 12 src_addr) (\<lambda>_.
    bindE (register_set 13 dst_addr) (\<lambda>_.
    bindE (execute_program p_beg 100000) (\<lambda>_.
    bindE (register_get 10) (\<lambda>res.
    bindE (stack_pop 8) (\<lambda>dst.
    bindE (stack_pop 8) (\<lambda>src.
    retE (res = 0, src, dst))))))))))))"

definition get_src_dst :: "u8 list \<Rightarrow> vm \<Rightarrow> (bool \<times> u64 \<times> u64) option \<times> vm" where
  "get_src_dst buf v =
    (case run_src_dst buf v of
       (Inr r, v') \<Rightarrow> (Some r, v')
     | (Inl e, v') \<Rightarrow>
         (if e = UndefinedRem \<or> e = UndefinedFetch \<or> e = UndefinedAccess then None else Some (False, 0, 0), v'))"

section \<open>The mode handlers\<close>

definition flood :: "u8 list \<Rightarrow> 'ep::linorder \<Rightarrow> 'ep list \<Rightarrow> 'ep plex \<Rightarrow> 'ep send list" where
  "flood buf sender brs s =
    forward buf sender brs @ forward buf sender (sorted_list_of_set (px_inactive s))"

definition hub_handler :: "'ep::linorder list \<Rightarrow> 'ep \<Rightarrow> u8 list \<Rightarrow> 'ep plex \<Rightarrow> 'ep send list" where
  "hub_handler brs sender buf s = flood buf sender brs s"

definition trunk_handler :: "'ep::linorder list \<Rightarrow> 'ep \<Rightarrow> u8 list \<Rightarrow> 'ep plex \<Rightarrow> 'ep send list" where
  "trunk_handler brs sender buf s =
    (if sender = px_trunk s then flood buf sender brs s
     else forward buf sender [px_trunk s])"

text \<open>\<open>begin\<close> of a list, dereferenced: undefined for an empty one. \<open>Prune\<close> does so behind its tests.\<close>

fun front :: "'a list \<Rightarrow> 'a option" where
  "front [] = None"
| "front (x # _) = Some x"

lemma front_hd: "front xs = (if xs = [] then None else Some (hd xs))"
  by (cases xs) simp_all

definition prune_handler :: "'ep::linorder list \<Rightarrow> 'ep \<Rightarrow> u8 list \<Rightarrow> 'ep plex \<Rightarrow> 'ep send list option" where
  "prune_handler brs sender buf s =
    Option.bind (if sender \<noteq> px_trunk s \<and> brs \<noteq> [] then map_option (\<lambda>b. sender \<noteq> b) (front brs) else Some False)
      (\<lambda>pruned.
        if pruned then Some []
        else if sender = px_trunk s then
          (if brs = [] then Some (forward buf sender (sorted_list_of_set (px_perma s)))
           else map_option (\<lambda>b. forward buf sender [b]) (front brs))
        else Some (forward buf sender [px_trunk s]))"

lemma prune_handler_eq:
  "prune_handler brs sender buf s = Some
    (if sender \<noteq> px_trunk s \<and> brs \<noteq> [] \<and> sender \<noteq> hd brs then []
     else if sender = px_trunk s then
       (if brs = [] then forward buf sender (sorted_list_of_set (px_perma s)) else forward buf sender [hd brs])
     else forward buf sender [px_trunk s])"
  by (cases brs) (simp_all add: prune_handler_def)

text \<open>The datagram is mapped into the machine, so what is forwarded is what the bytecode left in it.
  \<open>None\<close>: undefined behaviour, in the machine or by dereferencing \<open>begin\<close> of an empty list.\<close>

definition switch_handler :: "instants \<Rightarrow> 'ep::linorder list \<Rightarrow> 'ep \<Rightarrow> u8 list \<Rightarrow> 'ep plex
    \<Rightarrow> 'ep send list option \<times> 'ep plex" where
  "switch_handler t brs sender buf s =
    (case get_src_dst buf (px_vm s) of
       (None, v) \<Rightarrow> (None, s\<lparr>px_vm := v\<rparr>)
     | (Some (success, src, dst), v) \<Rightarrow>
         let s1 = s\<lparr>px_vm := v\<rparr>; buf' = vm_data v
         in if \<not> success then (Some [], s1)
            else
              let (src_branches, s2) = address_branches t sender src True s1;
                  (dst_branches, s3) = address_branches t sender dst False s2
              in case front src_branches of
                   None \<Rightarrow> (None, s3)
                 | Some active_src \<Rightarrow>
                     if active_src \<noteq> sender then (Some [], s3)
                     else if dst_branches = [] then (Some (flood buf' sender brs s3), s3)
                     else (map_option (\<lambda>active_dst. forward buf' sender [active_dst]) (front dst_branches), s3))"

definition rcv_handler :: "instants \<Rightarrow> instants \<Rightarrow> bool \<Rightarrow> u8 list \<Rightarrow> 'ep::linorder \<Rightarrow> 'ep plex
    \<Rightarrow> 'ep send list option \<times> 'ep plex" where
  "rcv_handler t1 t2 err buf sender s =
    (if err then (Some [], s)
     else
       let (brs, s1) = branches t1 sender s
       in case px_mode s1 of
            HubMode \<Rightarrow> (Some (hub_handler brs sender buf s1), s1)
          | TrunkMode \<Rightarrow> (Some (trunk_handler brs sender buf s1), s1)
          | PruneMode \<Rightarrow> (prune_handler brs sender buf s1, s1)
          | SwitchMode \<Rightarrow> switch_handler t2 brs sender buf s1)"

section \<open>Timeouts\<close>

text \<open>The handler the constructor gives to \<open>ActiveBranches\<close>.\<close>

definition timeout_handler :: "'ep \<Rightarrow> 'ep plex \<Rightarrow> 'ep plex" where
  "timeout_handler ep s =
    (if ep \<in> px_perma s then s\<lparr>px_inactive := insert ep (px_inactive s)\<rparr> else s)"

text \<open>A firing of the timer of an active branch; the second component is what it posts.\<close>

definition active_timer :: "instants \<Rightarrow> 'ep \<Rightarrow> bool \<Rightarrow> 'ep plex \<Rightarrow> (cache_error + 'ep option) \<times> 'ep plex" where
  "active_timer t ep err s =
    (case tc_timer_handler t ep err (px_active s) of (r, c) \<Rightarrow> (r, s\<lparr>px_active := c\<rparr>))"

text \<open>A firing of the timer of a branch in the cache of an address; its posted handler only logs.\<close>

definition address_timer :: "instants \<Rightarrow> u64 \<Rightarrow> 'ep \<Rightarrow> bool \<Rightarrow> 'ep plex \<Rightarrow> 'ep plex" where
  "address_timer t addr ep err s =
    (case px_addr s addr of
       None \<Rightarrow> s
     | Some c \<Rightarrow> s\<lparr>px_addr := (px_addr s)(addr \<mapsto> snd (tc_timer_handler t ep err c))\<rparr>)"

end
