(* ===== verification/PlexInvariant.thy ===== *)
theory PlexInvariant
  imports MiniPlex
begin

text \<open>
  The multiplexer as a transition system: datagrams, timers and posted timeout handlers in any
  order, and the invariant that ties the fixed branches, the active branches and the timeout
  handlers still to run together.
\<close>

section \<open>Steps\<close>

text \<open>
  A system state is the multiplexer with the timeout handlers posted to the \<open>io_context\<close> and not
  yet run. A posted handler is not serialised with the process strand: it may run before or after
  any handler of the strand.
\<close>

inductive plex_step :: "'ep::linorder plex \<times> 'ep list \<Rightarrow> 'ep plex \<times> 'ep list \<Rightarrow> bool" where
  rcv: "rcv_handler t1 t2 err buf sender s = (Some out, s') \<Longrightarrow> length buf \<le> 64 * 1024 \<Longrightarrow>
    plex_step (s, posted) (s', posted)"
| active: "tc_cache (px_active s) k = Some e \<Longrightarrow> ce_timer e \<le> fst t \<Longrightarrow>
    active_timer t k False s = (Inr r, s') \<Longrightarrow>
    plex_step (s, posted) (s', posted @ (case r of None \<Rightarrow> [] | Some ep \<Rightarrow> [ep]))"
| address: "plex_step (s, posted) (address_timer t a k False s, posted)"
| timeout: "plex_step (s, ps @ ep # qs) (timeout_handler ep s, ps @ qs)"

inductive_cases plex_stepE: "plex_step c c'"

inductive plex_reach :: "'ep::linorder plex \<Rightarrow> 'ep plex \<times> 'ep list \<Rightarrow> bool" for s0 where
  start: "plex_reach s0 (s0, [])"
| step: "plex_reach s0 c \<Longrightarrow> plex_step c c' \<Longrightarrow> plex_reach s0 c'"

section \<open>The invariant\<close>

definition vm_ok :: "vm \<Rightarrow> bool" where
  "vm_ok v \<longleftrightarrow> vm_wf v \<and> length (vm_prog v) \<le> 1024 * 1024 \<and> length (vm_stack v) = 4096
    \<and> length (vm_data v) \<le> 64 * 1024 \<and> vm_max_prog v = 1024 * 1024"

definition addr_ok :: "(u64 \<rightharpoonup> 'ep tcache) \<Rightarrow> bool" where
  "addr_ok m \<longleftrightarrow> (\<forall>a c. m a = Some c \<longrightarrow> tc_wf c \<and> 0 < tc_max c)"

definition plex_inv :: "'ep plex \<times> 'ep list \<Rightarrow> bool" where
  "plex_inv c = (case c of (s, posted) \<Rightarrow>
     tc_wf (px_active s) \<and> 0 < tc_max (px_active s) \<and> px_trunk s \<notin> set (tc_keys (px_active s))
   \<and> finite (px_perma s) \<and> px_inactive s \<subseteq> px_perma s
   \<and> px_perma s \<subseteq> px_inactive s \<union> set (tc_keys (px_active s)) \<union> set posted
   \<and> addr_ok (px_addr s) \<and> vm_ok (px_vm s))"

section \<open>The machine\<close>

lemma vm_ok_sandbox: "vm_ok v \<Longrightarrow> sandbox v v' \<Longrightarrow> vm_ok v'"
  by (simp add: vm_ok_def sandbox_def)

lemma new_VM_ok: "vm_ok (new_VM 4096 1048576)"
  by (simp add: vm_ok_def new_VM_def vm_wf_reset vm_size_def)

lemma program_load_file_ok: "vm_ok v \<Longrightarrow> vm_ok (snd (program_load_file file v))"
  by (auto simp: program_load_file_def load_program_def vm_ok_def vm_wf_reset vm_size_def
      split: option.split sum.split)

lemma keeps_vm_ok:
  assumes "\<And>v0. keeps (sandbox v0) m"
  shows "keeps vm_ok m"
proof (rule keepsI)
  fix v assume v: "vm_ok v"
  then have "sandbox v v" by (simp add: vm_ok_def sandbox_refl)
  then show "vm_ok (snd (m v))" using keepsD [OF assms] vm_ok_sandbox [OF v] by blast
qed

lemma keeps_stack_push [preserves]: "acc_size n \<Longrightarrow> keeps (sandbox v0) (stack_push n w)"
  unfolding stack_push_def by (intro preserves keeps_modifyE; simp)

lemma keeps_stack_pop [preserves]: "keeps (sandbox v0) (stack_pop n)"
  unfolding stack_pop_def by (intro preserves keeps_modifyE; simp)

lemma keeps_register_set [preserves]: "keeps (sandbox v0) (register_set r w)"
  by (rule keepsI) (simp add: register_set_def)

lemma keeps_register_get [preserves]: "keeps P (register_get r)"
  by (rule keepsI) (simp add: register_get_def)

lemma keeps_map_data_mem: "length buf \<le> 64 * 1024 \<Longrightarrow> keeps vm_ok (map_data_mem buf)"
  by (rule keepsI) (simp add: map_data_mem_def vm_ok_def Let_def vm_wf_reset vm_size_def)

lemma keeps_run_src_dst: "length buf \<le> 64 * 1024 \<Longrightarrow> keeps vm_ok (run_src_dst buf)"
  unfolding run_src_dst_def
  by (intro keeps_bindE keeps_map_data_mem; (intro keeps_vm_ok preserves keeps_execute_program)?; simp)

lemma get_src_dst_vm_ok:
  "vm_ok v \<Longrightarrow> length buf \<le> 64 * 1024 \<Longrightarrow> vm_ok (snd (get_src_dst buf v))"
  using keepsD [OF keeps_run_src_dst [of buf], of v]
  by (auto simp: get_src_dst_def split: prod.splits sum.splits)

section \<open>The branch caches\<close>

lemma plex_invD:
  assumes "plex_inv (s, posted)"
  shows "tc_wf (px_active s)" "0 < tc_max (px_active s)" "px_trunk s \<notin> set (tc_keys (px_active s))"
    "finite (px_perma s)" "px_inactive s \<subseteq> px_perma s" "finite (px_inactive s)"
    "px_perma s \<subseteq> px_inactive s \<union> set (tc_keys (px_active s)) \<union> set posted"
    "addr_ok (px_addr s)" "vm_ok (px_vm s)"
  using assms by (auto simp: plex_inv_def intro: finite_subset)

text \<open>What \<open>branches\<close> does, by the result of \<open>tc_add\<close>.\<close>

lemma branches_cases:
  assumes "tc_wf (px_active s)"
  obtains (trunk) "ep = px_trunk s" "branches t ep s = (tc_keys (px_active s), s)"
  | (known) c where "ep \<noteq> px_trunk s" "ep \<in> set (tc_keys (px_active s))"
      "tc_keys c = tc_keys (px_active s)"
      "c = snd (tc_add t ep (px_active s))" "branches t ep s = (tc_keys c, s\<lparr>px_active := c\<rparr>)"
  | (full) "ep \<noteq> px_trunk s" "ep \<notin> set (tc_keys (px_active s))"
      "length (tc_keys (px_active s)) = tc_max (px_active s)"
      "branches t ep s = (tc_keys (px_active s), s)"
  | (new) c where "ep \<noteq> px_trunk s" "ep \<notin> set (tc_keys (px_active s))"
      "length (tc_keys (px_active s)) < tc_max (px_active s)"
      "tc_keys c = tc_keys (px_active s) @ [ep]" "c = snd (tc_add t ep (px_active s))"
      "branches t ep s = (tc_keys c, s\<lparr>px_active := c, px_inactive := px_inactive s - {ep}\<rparr>)"
proof (cases "ep = px_trunk s")
  case True
  then show thesis using trunk by (simp add: branches_def)
next
  case False
  obtain r c where rc: "tc_add t ep (px_active s) = (r, c)" by fastforce
  show thesis
  proof (rule tcache.add_cases [OF assms, of ep t])
    assume "ep \<in> set (tc_keys (px_active s))" "fst (tc_add t ep (px_active s)) = REFRESHED"
      "tc_keys (snd (tc_add t ep (px_active s))) = tc_keys (px_active s)"
    with False rc show thesis by (intro known [of c]) (simp_all add: branches_def)
  next
    assume k: "ep \<notin> set (tc_keys (px_active s))"
      "length (tc_keys (px_active s)) = tc_max (px_active s)"
    then have "tc_add t ep (px_active s) = (DROPPED, px_active s)"
      by (intro tc_add_full [OF assms]) simp_all
    with False k show thesis by (intro full) (simp_all add: branches_def)
  next
    assume "ep \<notin> set (tc_keys (px_active s))"
      "length (tc_keys (px_active s)) < tc_max (px_active s)"
      "fst (tc_add t ep (px_active s)) = ADDED"
      "tc_keys (snd (tc_add t ep (px_active s))) = tc_keys (px_active s) @ [ep]"
    with False rc show thesis by (intro new [of c]) (simp_all add: branches_def)
  qed
qed

lemma branches_frame [simp]:
  "px_mode (snd (branches t ep s)) = px_mode s" "px_trunk (snd (branches t ep s)) = px_trunk s"
  "px_perma (snd (branches t ep s)) = px_perma s" "px_vm (snd (branches t ep s)) = px_vm s"
  "px_addr (snd (branches t ep s)) = px_addr s" "px_timeout (snd (branches t ep s)) = px_timeout s"
  "px_max_switch (snd (branches t ep s)) = px_max_switch s"
  by (auto simp: branches_def split: prod.splits add_result.splits)

lemma branches_fst: "fst (branches t ep s) = tc_keys (px_active (snd (branches t ep s)))"
  by (auto simp: branches_def split: prod.splits add_result.splits)

lemma branches_inv:
  assumes "plex_inv (s, posted)"
  shows "plex_inv (snd (branches t ep s), posted)"
proof -
  note inv = plex_invD [OF assms]
  have wf: "tc_wf (snd (tc_add t ep (px_active s)))" by (rule tc_add_wf [OF inv(1)])
  have mx: "0 < tc_max (snd (tc_add t ep (px_active s)))" using inv(2) by (simp add: tc_add_max)
  show ?thesis
    by (rule branches_cases [OF inv(1), of ep t])
      (use assms wf mx in \<open>auto simp: plex_inv_def\<close>)
qed

lemma addr_ok_cache: "addr_ok (px_addr s) \<Longrightarrow> tc_wf (address_cache a s) \<and> 0 < tc_max (address_cache a s)"
  by (auto simp: addr_ok_def address_cache_def Let_def tc_wf_new tc_wf_set_max split: option.split)
    (auto simp: tc_new_def tc_set_max_def size_max_def tc_wf_def)

lemma address_branches_frame [simp]:
  "px_mode (snd (address_branches t ep a b s)) = px_mode s"
  "px_trunk (snd (address_branches t ep a b s)) = px_trunk s"
  "px_perma (snd (address_branches t ep a b s)) = px_perma s"
  "px_inactive (snd (address_branches t ep a b s)) = px_inactive s"
  "px_active (snd (address_branches t ep a b s)) = px_active s"
  "px_vm (snd (address_branches t ep a b s)) = px_vm s"
  "px_timeout (snd (address_branches t ep a b s)) = px_timeout s"
  "px_max_switch (snd (address_branches t ep a b s)) = px_max_switch s"
  by (simp_all add: address_branches_def Let_def)

lemma address_branches_ok:
  "addr_ok (px_addr s) \<Longrightarrow> addr_ok (px_addr (snd (address_branches t ep a b s)))"
  using addr_ok_cache [of s a]
  by (auto simp: addr_ok_def address_branches_def Let_def tc_add_wf tc_add_max)

lemma address_branches_keys:
  assumes "addr_ok (px_addr s)"
  shows "fst (address_branches t ep a True s) \<noteq> []"
    "hd (fst (address_branches t ep a True s)) =
      (if tc_keys (address_cache a s) = [] then ep else hd (tc_keys (address_cache a s)))"
  using addr_ok_cache [OF assms, of a] tcache.add_nonempty [of "address_cache a s" t ep]
    tcache.add_head_is_key [of "address_cache a s" t ep]
  by (auto simp: address_branches_def Let_def)

section \<open>Every step keeps the invariant\<close>

lemma px_vm_inv: "plex_inv (s, posted) \<Longrightarrow> vm_ok v \<Longrightarrow> plex_inv (s\<lparr>px_vm := v\<rparr>, posted)"
  by (simp add: plex_inv_def)

lemma address_branches_inv:
  "plex_inv (s, posted) \<Longrightarrow> plex_inv (snd (address_branches t ep a b s), posted)"
  using address_branches_ok [of s t ep a b] by (simp add: plex_inv_def)

lemma switch_handler_inv:
  assumes "plex_inv (s, posted)" "length buf \<le> 64 * 1024"
  shows "plex_inv (snd (switch_handler t brs sender buf s), posted)"
proof -
  obtain r v where rv: "get_src_dst buf (px_vm s) = (r, v)" by fastforce
  have "vm_ok v"
    using get_src_dst_vm_ok [OF plex_invD(9) [OF assms(1)] assms(2)] by (simp add: rv)
  then have inv: "plex_inv (s\<lparr>px_vm := v\<rparr>, posted)" by (rule px_vm_inv [OF assms(1)])
  show ?thesis
  proof (cases r)
    case None
    then show ?thesis using inv by (simp add: switch_handler_def rv)
  next
    case (Some a)
    obtain success src dst where a: "a = (success, src, dst)" by (cases a)
    define s2 where "s2 = address_branches t sender src True (s\<lparr>px_vm := v\<rparr>)"
    define s3 where "s3 = address_branches t sender dst False (snd s2)"
    have "plex_inv (snd s3, posted)"
      unfolding s3_def s2_def by (intro address_branches_inv inv)
    then show ?thesis
      using inv by (simp add: switch_handler_def rv Some a Let_def flip: s2_def)
        (simp add: case_prod_beta front_hd flip: s3_def)
  qed
qed

lemma rcv_handler_inv:
  assumes "plex_inv (s, posted)" "length buf \<le> 64 * 1024"
  shows "plex_inv (snd (rcv_handler t1 t2 err buf sender s), posted)"
proof -
  obtain brs s1 where b: "branches t1 sender s = (brs, s1)" by fastforce
  have "plex_inv (s1, posted)" using branches_inv [OF assms(1), of t1 sender] by (simp add: b)
  then show ?thesis using assms switch_handler_inv [of s1]
    by (auto simp: rcv_handler_def b split: plex_mode.split)
qed

lemma tc_timer_max: "tc_max (snd (tc_timer_handler t k err c)) = tc_max c"
  by (auto simp: tc_timer_handler_def Let_def split: option.split)

lemma address_timer_inv:
  "plex_inv (s, posted) \<Longrightarrow> plex_inv (address_timer t a k err s, posted)"
  using tc_timer_max [of t k err]
  by (auto simp: plex_inv_def address_timer_def addr_ok_def tc_timer_wf split: option.split)

lemma timeout_handler_inv:
  "plex_inv (s, ps @ ep # qs) \<Longrightarrow> plex_inv (timeout_handler ep s, ps @ qs)"
  by (auto simp: plex_inv_def timeout_handler_def)

lemma active_timer_inv:
  assumes "plex_inv (s, posted)" "active_timer t k False s = (Inr r, s')"
  shows "plex_inv (s', posted @ (case r of None \<Rightarrow> [] | Some ep \<Rightarrow> [ep]))"
proof -
  note inv = plex_invD [OF assms(1)]
  have wf: "tc_wf (px_active s')"
    using tc_timer_wf [OF inv(1), of t k False] assms(2) by (auto simp: active_timer_def split: prod.splits)
  show ?thesis
  proof (cases "tc_cache (px_active s) k")
    case None
    then show ?thesis using assms(2) by (simp add: active_timer_def tc_timer_handler_def)
  next
    case (Some e)
    show ?thesis
    proof (cases "fst t < ce_access e + tc_timeout (px_active s)")
      case True
      then show ?thesis using assms wf
        by (auto simp: active_timer_def tc_timer_rearms [OF Some] plex_inv_def tc_keys_def)
    next
      case False
      then have r: "r = Some k" and s': "tc_keys (px_active s') = remove1 k (tc_keys (px_active s))"
        "px_trunk s' = px_trunk s" "px_perma s' = px_perma s" "px_inactive s' = px_inactive s"
        "px_addr s' = px_addr s" "px_vm s' = px_vm s" "tc_max (px_active s') = tc_max (px_active s)"
        using assms(2) by (auto simp: active_timer_def tc_timer_expires [OF Some] tc_keys_def)
      have "set (tc_keys (px_active s)) = insert k (set (remove1 k (tc_keys (px_active s))))
          \<or> k \<notin> set (tc_keys (px_active s))"
        using inv(1) by (auto simp: tc_wf_def tc_keys_def)
      moreover have "set (remove1 k (tc_keys (px_active s))) \<subseteq> set (tc_keys (px_active s))"
        by (rule set_remove1_subset)
      ultimately show ?thesis using assms(1) wf
        by (auto simp: plex_inv_def r s')
    qed
  qed
qed

lemma plex_step_inv: "plex_step c c' \<Longrightarrow> plex_inv c \<Longrightarrow> plex_inv c'"
proof (induction rule: plex_step.induct)
  case (rcv t1 t2 err buf sender s out s' posted)
  then show ?case using rcv_handler_inv [of s posted buf t1 t2 err sender] by simp
qed (simp_all add: active_timer_inv address_timer_inv timeout_handler_inv)

lemma plex_reach_inv: "plex_reach s0 c \<Longrightarrow> plex_inv (s0, []) \<Longrightarrow> plex_inv c"
  by (induction rule: plex_reach.induct) (auto intro: plex_step_inv)

section \<open>The constructor establishes the invariant\<close>

lemma add_branches_inv:
  "add_branches from_string endpoint bs ps s = Inr s' \<Longrightarrow> plex_inv (s, []) \<Longrightarrow> plex_inv (s', [])"
proof (induction from_string endpoint bs ps s rule: add_branches.induct)
  case (3 from_string endpoint b bs p ps s)
  then show ?case by (auto simp: Let_def plex_inv_def split: option.splits)
qed simp_all

lemma select_mode_ok: "select_mode a file v = Inr (m, v') \<Longrightarrow> vm_ok v \<Longrightarrow> vm_ok v'"
  using program_load_file_ok [of v]
  by (auto simp: select_mode_def split: if_splits prod.splits sum.splits) (metis snd_conv)

lemma new_cache_ok:
  "tc_wf (tc_new d)" "0 < tc_max (tc_new d)" "tc_keys (tc_new d) = []"
  "tc_wf (tc_set_max m (tc_new d))" "tc_max (tc_set_max m (tc_new d)) = m"
  "tc_keys (tc_set_max m (tc_new d)) = []"
  by (simp_all add: tc_wf_new tc_new_def tc_set_max_def size_max_def tc_keys_def tc_wf_def)

lemma new_plex_inv:
  assumes "new_plex from_string endpoint no_ep a file = Inr s"
  shows "plex_inv (s, [])"
proof -
  obtain m v where m: "select_mode a file (new_VM 4096 1048576) = Inr (m, v)"
    using assms by (auto simp: new_plex_def split: if_splits sum.splits)
  have v: "vm_ok v" using select_mode_ok [OF m new_VM_ok] .
  show ?thesis
    using assms by (auto simp: new_plex_def m Let_def split: if_splits option.splits
        elim!: add_branches_inv)
      (simp_all add: plex_inv_def v addr_ok_def new_cache_ok)
qed

end
