(* ===== verification/PlexForwarding.thy ===== *)
theory PlexForwarding
  imports PlexInvariant
begin

text \<open>
  Where each mode of the multiplexer sends a datagram, stated over the state before it arrives, and
  the behaviour of the fixed branches over whole runs.
\<close>

section \<open>Destinations\<close>

definition dests :: "'ep send list \<Rightarrow> 'ep list" where
  "dests out = map fst out"

lemma dests_forward [simp]: "dests (forward buf sender brs) = filter (\<lambda>ep. ep \<noteq> sender) brs"
  by (induction brs) (simp_all add: dests_def forward_def)

lemma dests_append [simp]: "dests (xs @ ys) = dests xs @ dests ys"
  by (simp add: dests_def)

lemma dests_Nil [simp]: "dests [] = []"
  by (simp add: dests_def)

lemma forward_payload: "x \<in> set (forward buf sender brs) \<Longrightarrow> snd x = buf"
  by (auto simp: forward_def)

lemma flood_payload: "x \<in> set (flood buf sender brs s) \<Longrightarrow> snd x = buf"
  by (auto simp: flood_def forward_payload)

lemma forward_single: "forward buf sender [ep] = (if ep = sender then [] else [(ep, buf)])"
  by (simp add: forward_def)

text \<open>A flood after the sender has been cached, over the state before.\<close>

lemma flood_branches:
  assumes "plex_inv (s, posted)"
  shows "set (dests (flood buf ep (fst (branches t ep s)) (snd (branches t ep s)))) =
      set (tc_keys (px_active s)) \<union> px_inactive s - {ep}"
    and "set (tc_keys (px_active s)) \<inter> px_inactive s = {} \<Longrightarrow>
      distinct (dests (flood buf ep (fst (branches t ep s)) (snd (branches t ep s))))"
proof -
  note inv = plex_invD [OF assms]
  have "distinct (tc_keys (px_active (snd (branches t ep s))))"
    "finite (px_inactive (snd (branches t ep s)))"
    using plex_invD [OF branches_inv [OF assms, of t ep]] tcache.keys_distinct by blast+
  note fin = this
  show "set (dests (flood buf ep (fst (branches t ep s)) (snd (branches t ep s)))) =
      set (tc_keys (px_active s)) \<union> px_inactive s - {ep}"
    by (rule branches_cases [OF inv(1), of ep t]) (use fin inv(6) in \<open>auto simp: flood_def\<close>)
  show "distinct (dests (flood buf ep (fst (branches t ep s)) (snd (branches t ep s))))"
    if "set (tc_keys (px_active s)) \<inter> px_inactive s = {}"
    by (rule branches_cases [OF inv(1), of ep t])
      (use fin inv(6) that in \<open>auto simp: flood_def branches_fst\<close>)
qed

section \<open>Hub, trunk and prune modes\<close>

lemma rcv_handler_pure_modes:
  "px_mode s = HubMode \<Longrightarrow> rcv_handler t1 t2 False buf sender s =
    (Some (hub_handler (fst (branches t1 sender s)) sender buf (snd (branches t1 sender s))),
     snd (branches t1 sender s))"
  "px_mode s = TrunkMode \<Longrightarrow> rcv_handler t1 t2 False buf sender s =
    (Some (trunk_handler (fst (branches t1 sender s)) sender buf (snd (branches t1 sender s))),
     snd (branches t1 sender s))"
  "px_mode s = PruneMode \<Longrightarrow> rcv_handler t1 t2 False buf sender s =
    (prune_handler (fst (branches t1 sender s)) sender buf (snd (branches t1 sender s)),
     snd (branches t1 sender s))"
  by (simp_all add: rcv_handler_def case_prod_beta)

lemma branches_trunk: "branches t (px_trunk s) s = (tc_keys (px_active s), s)"
  by (simp add: branches_def)

lemma branches_head:
  assumes "plex_inv (s, posted)" "ep \<noteq> px_trunk s"
  shows "fst (branches t ep s) \<noteq> []"
    "hd (fst (branches t ep s)) = (if tc_keys (px_active s) = [] then ep else hd (tc_keys (px_active s)))"
proof -
  note inv = plex_invD [OF assms(1)]
  have eq: "fst (branches t ep s) = tc_keys (snd (tc_add t ep (px_active s)))"
    using assms(2) by (auto simp: branches_def split: prod.splits add_result.splits)
  show "fst (branches t ep s) \<noteq> []"
    "hd (fst (branches t ep s)) = (if tc_keys (px_active s) = [] then ep else hd (tc_keys (px_active s)))"
    unfolding eq by (rule tcache.add_nonempty [OF inv(1,2)], rule tcache.add_head_is_key [OF inv(1,2)])
qed

section \<open>Witness multiplexers\<close>

text \<open>Three multiplexers over natural-number endpoints, with the fixed branches 2 and 3.\<close>

definition demo_plex :: "plex_mode \<Rightarrow> nat plex" where
  "demo_plex m = \<lparr>px_mode = m, px_trunk = 1, px_perma = {2, 3}, px_inactive = {2, 3},
     px_active = tc_new 10, px_addr = Map.empty, px_vm = new_VM 4096 1048576,
     px_timeout = 10, px_max_switch = 0\<rparr>"

lemma demo_plex_inv: "plex_inv (demo_plex m, [])"
  by (simp add: plex_inv_def demo_plex_def new_VM_ok tc_wf_new addr_ok_def)
    (simp add: tc_new_def tc_keys_def size_max_def)

section \<open>Properties of the forwarding\<close>

text \<open>
  C14. Hub mode: a datagram goes, unchanged, to every active branch and every inactive fixed branch
  except its sender, to nobody else, and to each at most once when no branch is both active and
  inactive; so every fixed branch other than the sender is reached unless its timeout handler is
  still to run.
\<close>

theorem hub_forwarding:
  assumes "plex_inv (s, posted)" "px_mode s = HubMode"
  shows "\<exists>out s'. rcv_handler t1 t2 False buf sender s = (Some out, s')
    \<and> set (dests out) = set (tc_keys (px_active s)) \<union> px_inactive s - {sender}
    \<and> px_perma s - set posted - {sender} \<subseteq> set (dests out)
    \<and> (set (tc_keys (px_active s)) \<inter> px_inactive s = {} \<longrightarrow> distinct (dests out))
    \<and> (\<forall>x \<in> set out. snd x = buf)"
  using flood_branches [OF assms(1), of buf sender t1] plex_invD(7) [OF assms(1)]
  by (auto simp: rcv_handler_pure_modes(1) [OF assms(2)] hub_handler_def flood_payload)

theorem hub_forwarding_witness:
  "\<exists>out s'. rcv_handler (0, 0) (0, 0) False [9] 5 (demo_plex HubMode) = (Some out, s')
    \<and> {2, 3} \<subseteq> set (dests out)"
  using hub_forwarding [OF demo_plex_inv, of HubMode "(0, 0)" "(0, 0)" "[9]" 5]
  by (fastforce simp: demo_plex_def)

text \<open>
  C15. Trunk mode: what the trunk sends is flooded to the branches as in hub mode; what anybody
  else sends goes to the trunk, once, and to nobody else.
\<close>

theorem trunk_forwarding:
  assumes "plex_inv (s, posted)" "px_mode s = TrunkMode"
  shows "\<exists>out s'. rcv_handler t1 t2 False buf sender s = (Some out, s')
    \<and> (if sender = px_trunk s
       then set (dests out) = set (tc_keys (px_active s)) \<union> px_inactive s - {sender}
         \<and> (\<forall>x \<in> set out. snd x = buf) \<and> s' = s
       else out = [(px_trunk s, buf)])"
proof (cases "sender = px_trunk s")
  case True
  then show ?thesis
    using flood_branches(1) [OF assms(1), of buf sender t1]
    by (auto simp: rcv_handler_pure_modes(2) [OF assms(2)] trunk_handler_def branches_trunk flood_payload)
next
  case False
  then show ?thesis
    by (simp add: rcv_handler_pure_modes(2) [OF assms(2)] trunk_handler_def forward_single)
qed

theorem trunk_forwarding_witness:
  "fst (rcv_handler (0, 0) (0, 0) False [9] 5 (demo_plex TrunkMode)) = Some [(1, [9])]"
  using trunk_forwarding [OF demo_plex_inv, of TrunkMode "(0, 0)" "(0, 0)" "[9]" 5]
  by (auto simp: demo_plex_def)

text \<open>
  C16. Prune mode lets one branch through: the trunk's datagrams go to the first active branch only,
  or to all fixed branches when no branch is active; a branch's datagram goes to the trunk exactly
  if the branch is, or with this datagram becomes, the first active branch, and is dropped otherwise.
\<close>

theorem prune_forwarding:
  assumes "plex_inv (s, posted)" "px_mode s = PruneMode"
  shows "\<exists>s'. rcv_handler t1 t2 False buf sender s = (Some
    (if sender = px_trunk s
     then (if tc_keys (px_active s) = []
           then forward buf sender (sorted_list_of_set (px_perma s))
           else [(hd (tc_keys (px_active s)), buf)])
     else if tc_keys (px_active s) = [] \<or> hd (tc_keys (px_active s)) = sender
     then [(px_trunk s, buf)] else []), s')"
proof (cases "sender = px_trunk s")
  case True
  have "tc_keys (px_active s) \<noteq> [] \<Longrightarrow> hd (tc_keys (px_active s)) \<noteq> px_trunk s"
    using plex_invD(3) [OF assms(1)] hd_in_set by metis
  then show ?thesis using True
    by (simp add: rcv_handler_pure_modes(3) [OF assms(2)] prune_handler_eq branches_trunk forward_single)
next
  case False
  then show ?thesis
    using branches_head [OF assms(1) False, of t1]
    by (auto simp: rcv_handler_pure_modes(3) [OF assms(2)] prune_handler_eq forward_single)
qed

theorem prune_forwarding_witness:
  "fst (rcv_handler (0, 0) (0, 0) False [9] 5 (demo_plex PruneMode)) = Some [(1, [9])]"
  using prune_forwarding [OF demo_plex_inv, of PruneMode "(0, 0)" "(0, 0)" "[9]" 5]
  by (auto simp: demo_plex_def tc_new_def tc_keys_def)

end
