(* ===== verification/PlexSwitch.thy ===== *)
theory PlexSwitch
  imports PlexForwarding
begin

text \<open>
  Switch mode: the packet addresses come from the bytecode, every address has its own bounded cache
  of branches, and the first branch of an address owns it.
\<close>

section \<open>The call of the bytecode\<close>

text \<open>The machine as the bytecode finds it: the datagram mapped, two zeroed cells on the stack for
  the results, and the four argument registers.\<close>

definition entry_vm :: "u8 list \<Rightarrow> vm \<Rightarrow> vm" where
  "entry_vm buf v =
    (let v1 = snd (map_data_mem buf v);
         v2 = snd (stack_push 8 0 v1); src = sp v2;
         v3 = snd (stack_push 8 0 v2); dst = sp v3
     in v3\<lparr>vm_x := (vm_x v3)[10 := d_beg v1, 11 := of_nat (length buf), 12 := src, 13 := dst]\<rparr>)"

lemma reset_sp: "sp (reset v) = s_end (reset v)"
  by (simp add: reset_def sp_def Let_def)

lemma unat_of_nat_small: "n < 2 ^ 64 \<Longrightarrow> unat (of_nat n :: u64) = n"
  by (simp add: unat_of_nat take_bit_nat_eq_self)

text \<open>The two result cells lie in the stack region, apart from each other.\<close>

lemma result_cells:
  assumes "vm_wf v" "16 \<le> length (vm_stack v)" "sp v = s_end v"
  shows "mapped 8 (sp v - 8) v" "mapped 8 (sp v - 16) v"
    "apart 8 (sp v - 16) 8 (sp v - 8)" "unat (sp v - 8) = vm_size v - 8"
    "unat (sp v - 16) = vm_size v - 16"
proof -
  have s: "unat (sp v) = vm_size v" using unat_layout(5) [OF assms(1)] assms(3) by simp
  have le: "16 \<le> vm_size v" using assms(2) by (simp add: vm_size_def)
  show 8: "unat (sp v - 8) = vm_size v - 8" and 16: "unat (sp v - 16) = vm_size v - 16"
    using le by (simp_all add: unat_sub s word_le_nat_alt)
  have "in_region StackMem 8 (sp v - 8) v" "in_region StackMem 8 (sp v - 16) v"
    using assms(2) 8 16 by (simp_all add: in_region_def region_beg_def vm_size_def)
  then show "mapped 8 (sp v - 8) v" "mapped 8 (sp v - 16) v"
    using assms(1) by (auto simp: mapped_def)
  show "apart 8 (sp v - 16) 8 (sp v - 8)"
    using le by (simp add: apart_def 8 16)
qed

lemma vm_ok_map:
  assumes "vm_ok v" "length buf \<le> 64 * 1024"
  shows "vm_ok (snd (map_data_mem buf v))"
  using keepsD [OF keeps_map_data_mem [OF assms(2)] assms(1)] .

lemma two_pushes:
  assumes "vm_wf v" "16 \<le> length (vm_stack v)" "sp v = s_end v"
  defines "v2 \<equiv> snd (stack_push 8 0 v)"
  defines "v3 \<equiv> snd (stack_push 8 0 v2)"
  shows "stack_push 8 0 v = (Inr (sp v - 8), v2)" "stack_push 8 0 v2 = (Inr (sp v - 16), v3)"
    "sp v2 = sp v - 8" "sp v3 = sp v - 16" "sandbox v v3"
proof -
  note cells = result_cells [OF assms(1-3)]
  have m1: "mapped 8 (sp v - of_nat 8) v" using cells(1) by simp
  show 1: "stack_push 8 0 v = (Inr (sp v - 8), v2)"
    using stack_push_eq [OF m1, of 0] by (simp add: v2_def)
  show sp2: "sp v2 = sp v - 8"
    using push_then_pop(2) [OF m1, of 0] by (simp add: v2_def)
  have sb: "sandbox v v2"
    using keepsD [OF keeps_stack_push [of 8 v] sandbox_refl [OF assms(1)]] by (simp add: v2_def)
  have "v2 = snd (mem_store 8 (sp v - 8) 0 (set_sp (sp v - 8) v))"
    using stack_push_eq [OF m1, of 0] by (simp add: v2_def)
  then have "mapped 8 (sp v - 16) v2"
    using cells(1,2) by (simp add: mapped_mem_store)
  then have m2: "mapped 8 (sp v2 - of_nat 8) v2" by (simp add: sp2)
  show "stack_push 8 0 v2 = (Inr (sp v - 16), v3)"
    using stack_push_eq [OF m2, of 0] by (simp add: v3_def sp2)
  show "sp v3 = sp v - 16"
    using push_then_pop(2) [OF m2, of 0] by (simp add: v3_def sp2)
  show "sandbox v v3"
    using keepsD [OF keeps_stack_push [of 8 v] sb, of 0] by (simp add: v3_def)
qed

lemma map_data_mem_eq: "map_data_mem buf v = (Inr (d_beg (snd (map_data_mem buf v))), snd (map_data_mem buf v))"
  by (simp add: map_data_mem_def Let_def)

lemma map_data_mem_sp: "sp (snd (map_data_mem buf v)) = s_end (snd (map_data_mem buf v))"
  by (simp add: map_data_mem_def Let_def reset_sp)

lemma run_src_dst_eq:
  assumes "vm_ok v" "length buf \<le> 64 * 1024"
  shows "run_src_dst buf v =
    bindE (execute_program p_beg 100000) (\<lambda>_.
    bindE (register_get 10) (\<lambda>res.
    bindE (stack_pop 8) (\<lambda>dst.
    bindE (stack_pop 8) (\<lambda>src.
    retE (res = 0, src, dst))))) (entry_vm buf v)"
proof -
  define v1 where "v1 = snd (map_data_mem buf v)"
  define v2 where "v2 = snd (stack_push 8 0 v1)"
  define v3 where "v3 = snd (stack_push 8 0 v2)"
  have ok: "vm_ok v1" using vm_ok_map [OF assms] by (simp add: v1_def)
  then have "vm_wf v1" "16 \<le> length (vm_stack v1)" by (simp_all add: vm_ok_def)
  note pushes = two_pushes [OF this, folded v2_def v3_def]
  have sp1: "sp v1 = s_end v1" by (simp add: v1_def map_data_mem_sp)
  have m: "map_data_mem buf v = (Inr (d_beg v1), v1)" using map_data_mem_eq by (simp add: v1_def)
  have "entry_vm buf v = v3\<lparr>vm_x := (vm_x v3)[10 := d_beg v1, 11 := of_nat (length buf),
      12 := sp v1 - 8, 13 := sp v1 - 16]\<rparr>"
    using pushes [OF sp1] by (simp add: entry_vm_def Let_def flip: v1_def v2_def v3_def)
  then show ?thesis
    using pushes(1,2) [OF sp1]
    by (simp add: run_src_dst_def bindE_def m register_set_def)
qed

lemma entry_vm_sandbox:
  assumes "vm_ok v" "length buf \<le> 64 * 1024"
  shows "sandbox (snd (map_data_mem buf v)) (entry_vm buf v)" "vm_ok (entry_vm buf v)"
proof -
  define v1 where "v1 = snd (map_data_mem buf v)"
  have ok: "vm_ok v1" using vm_ok_map [OF assms] by (simp add: v1_def)
  have sp1: "sp v1 = s_end v1" by (simp add: v1_def map_data_mem_sp)
  have "vm_wf v1" "16 \<le> length (vm_stack v1)" using ok by (simp_all add: vm_ok_def)
  from two_pushes(5) [OF this sp1] show "sandbox (snd (map_data_mem buf v)) (entry_vm buf v)"
    by (simp add: entry_vm_def Let_def flip: v1_def)
  then show "vm_ok (entry_vm buf v)" using vm_ok_sandbox [OF ok] by (simp add: v1_def)
qed

section \<open>Address caches\<close>

definition owner :: "u64 \<Rightarrow> 'ep \<Rightarrow> 'ep plex \<Rightarrow> 'ep" where
  "owner addr ep s =
    (let ks = tc_keys (address_cache addr s) in if ks = [] then ep else hd ks)"

lemma address_cache_after [simp]:
  "address_cache a (snd (address_branches t ep b as s)) =
    (if a = b then (if as then snd (tc_add t ep (address_cache b s)) else address_cache b s)
     else address_cache a s)"
  by (auto simp: address_branches_def Let_def address_cache_def cong: option.case_cong)

lemma address_branches_fst:
  "fst (address_branches t ep a as s) = tc_keys (address_cache a (snd (address_branches t ep a as s)))"
  by (simp only: address_cache_after) (simp add: address_branches_def Let_def)

lemma address_cache_upd [simp]:
  "address_cache a (s\<lparr>px_vm := v\<rparr>) = address_cache a s"
  "address_cache a (s\<lparr>px_active := c\<rparr>) = address_cache a s"
  "address_cache a (s\<lparr>px_active := c, px_inactive := i\<rparr>) = address_cache a s"
  by (simp_all add: address_cache_def Let_def cong: option.case_cong)

lemma address_cache_branches [simp]: "address_cache a (snd (branches t ep s)) = address_cache a s"
  by (simp add: address_cache_def Let_def cong: option.case_cong)

section \<open>What switch mode does with a packet\<close>

lemma owner_after:
  assumes "addr_ok (px_addr s)"
  shows "tc_keys (snd (tc_add t ep (address_cache a s))) \<noteq> []"
    "hd (tc_keys (snd (tc_add t ep (address_cache a s)))) = owner a ep s"
  using addr_ok_cache [OF assms, of a] tcache.add_nonempty [of "address_cache a s" t ep]
    tcache.add_head_is_key [of "address_cache a s" t ep]
  by (auto simp: owner_def Let_def)

text \<open>The destinations by the owners of the two addresses, over the state before the packet.\<close>

definition switch_out :: "'ep::linorder list \<Rightarrow> 'ep \<Rightarrow> u8 list \<Rightarrow> u64 \<Rightarrow> u64 \<Rightarrow> 'ep plex \<Rightarrow> 'ep send list" where
  "switch_out brs sender buf src dst s =
    (if owner src sender s \<noteq> sender then []
     else if src = dst then []
     else if tc_keys (address_cache dst s) = [] then flood buf sender brs s
     else forward buf sender [hd (tc_keys (address_cache dst s))])"

lemma switch_handler_eq:
  assumes "addr_ok (px_addr s)" "get_src_dst buf (px_vm s) = (Some (True, src, dst), v)"
  shows "\<exists>s'. switch_handler t brs sender buf s = (Some (switch_out brs sender (vm_data v) src dst s), s')
    \<and> address_cache src s' = snd (tc_add t sender (address_cache src s))
    \<and> (\<forall>a. a \<noteq> src \<longrightarrow> address_cache a s' = address_cache a s)
    \<and> px_active s' = px_active s \<and> px_inactive s' = px_inactive s \<and> px_mode s' = px_mode s
    \<and> px_vm s' = v"
proof -
  define s1 where "s1 = s\<lparr>px_vm := v\<rparr>"
  define s2 where "s2 = snd (address_branches t sender src True s1)"
  define s3 where "s3 = snd (address_branches t sender dst False s2)"
  have ok: "addr_ok (px_addr s1)" using assms(1) by (simp add: s1_def)
  have c1: "address_cache a s1 = address_cache a s" for a by (simp add: s1_def)
  have own: "owner src sender s1 = owner src sender s" by (simp add: owner_def c1)
  note add = owner_after [OF ok, of t sender src, unfolded c1 own]
  have src_br: "address_branches t sender src True s1 =
      (tc_keys (snd (tc_add t sender (address_cache src s))), s2)"
    by (simp add: s2_def prod_eq_iff address_branches_fst c1)
  have dst_br: "address_branches t sender dst False s2 =
      (tc_keys (if dst = src then snd (tc_add t sender (address_cache src s)) else address_cache dst s), s3)"
    by (simp add: s3_def s2_def prod_eq_iff address_branches_fst c1)
  have s3: "px_active s3 = px_active s" "px_inactive s3 = px_inactive s" "px_mode s3 = px_mode s"
    "px_vm s3 = v"
    by (simp_all add: s3_def s2_def s1_def)
  have c3: "address_cache a s3 =
      (if a = src then snd (tc_add t sender (address_cache src s)) else address_cache a s)" for a
    by (simp add: s3_def s2_def c1)
  have fl: "flood b sender brs s3 = flood b sender brs s" for b by (simp add: flood_def s3)
  have "switch_handler t brs sender buf s = (Some (switch_out brs sender (vm_data v) src dst s), s3)"
    using add unfolding switch_handler_def assms(2)
    by (auto simp: Let_def src_br dst_br switch_out_def forward_single fl front_hd simp flip: s1_def)
  then show ?thesis using c3 s3 by auto
qed

lemma rcv_handler_switch:
  "px_mode s = SwitchMode \<Longrightarrow> rcv_handler t1 t2 False buf sender s =
    switch_handler t2 (fst (branches t1 sender s)) sender buf (snd (branches t1 sender s))"
  by (simp add: rcv_handler_def case_prod_beta)

lemma owner_branches [simp]: "owner a ep (snd (branches t b s)) = owner a ep s"
  by (simp add: owner_def)

section \<open>Entering and leaving the bytecode\<close>

lemma stack_push_stack:
  assumes "vm_wf v" "in_region StackMem 8 (sp v - 8) v" "unat (sp v - 8) = region_beg StackMem v + off"
  shows "snd (stack_push 8 w v) =
    v\<lparr>vm_x := (vm_x v)[2 := sp v - 8], vm_stack := write_at off (le_bytes 8 w) (vm_stack v)\<rparr>"
proof -
  have "mapped 8 (sp v - of_nat 8) v" using assms by (auto simp: mapped_def)
  moreover have "vm_wf (set_sp (sp v - 8) v)" "in_region StackMem 8 (sp v - 8) (set_sp (sp v - 8) v)"
    using assms by (simp_all add: set_sp_def)
  ultimately show ?thesis
    using assms(3) by (simp add: stack_push_eq mem_store_mapped) (simp add: set_sp_def)
qed

lemma write_two_zeros:
  assumes "16 \<le> length (xs :: u8 list)"
  shows "write_at (length xs - 16) (le_bytes 8 0) (write_at (length xs - 8) (le_bytes 8 0) xs) =
    take (length xs - 16) xs @ replicate 16 0"
proof -
  have z: "le_bytes 8 0 = replicate 8 0" by (simp add: numeral_eq_Suc)
  obtain n where n: "length xs = n + 16" using assms by (metis le_add_diff_inverse2)
  show ?thesis by (simp add: write_at_def z n min_def) (simp flip: replicate_add)
qed

text \<open>The machine at entry in closed form.\<close>

lemma entry_vm_eq:
  assumes "vm_ok v" "length buf \<le> 64 * 1024"
  defines "v1 \<equiv> snd (map_data_mem buf v)"
  shows "entry_vm buf v = v1\<lparr>vm_x := (vm_x v1)[2 := s_end v1 - 16, 10 := d_beg v1,
      11 := of_nat (length buf), 12 := s_end v1 - 8, 13 := s_end v1 - 16],
    vm_stack := take (length (vm_stack v) - 16) (vm_stack v) @ replicate 16 0\<rparr>"
proof -
  define v2 where "v2 = snd (stack_push 8 0 v1)"
  define v3 where "v3 = snd (stack_push 8 0 v2)"
  have ok: "vm_ok v1" using vm_ok_map [OF assms(1,2)] by (simp add: v1_def)
  then have wf: "vm_wf v1" and st: "16 \<le> length (vm_stack v1)" by (simp_all add: vm_ok_def)
  have sp1: "sp v1 = s_end v1" by (simp add: v1_def map_data_mem_sp)
  note pushes = two_pushes [OF wf st sp1, folded v2_def v3_def]
  note cells = result_cells [OF wf st sp1]
  let ?n = "length (vm_stack v1)"
  have size: "vm_size v1 = region_beg StackMem v1 + ?n" by (simp add: vm_size_def region_beg_def)
  have in1: "in_region StackMem 8 (sp v1 - 8) v1" and in2: "in_region StackMem 8 (sp v1 - 16) v1"
    using st cells(4,5) by (simp_all add: in_region_def size)
  have v2: "v2 = v1\<lparr>vm_x := (vm_x v1)[2 := sp v1 - 8],
      vm_stack := write_at (?n - 8) (le_bytes 8 0) (vm_stack v1)\<rparr>"
    using stack_push_stack [OF wf in1, of "?n - 8" 0] st cells(4) by (simp add: v2_def size)
  have len2: "length (write_at (?n - 8) (le_bytes 8 0) (vm_stack v1)) = ?n" using st by simp
  have wf2: "vm_wf v2" using wf len2 by (simp add: v2 vm_wf_def vm_size_def)
  have sp2: "sp v2 - 8 = sp v1 - 16" using pushes(3) by simp
  have "in_region StackMem 8 (sp v2 - 8) v2" "unat (sp v2 - 8) = region_beg StackMem v2 + (?n - 16)"
    using in2 cells(5) st len2 unfolding sp2 by (simp_all add: v2 in_region_def region_beg_def size vm_size_def)
  from stack_push_stack [OF wf2 this, of 0] have "v3 = v1\<lparr>vm_x := (vm_x v1)[2 := sp v1 - 16],
      vm_stack := take (?n - 16) (vm_stack v1) @ replicate 16 0\<rparr>"
    using write_two_zeros [OF st] unfolding sp2 by (simp add: v3_def v2)
  moreover have "vm_stack v1 = vm_stack v" by (simp add: v1_def map_data_mem_def Let_def)
  ultimately show ?thesis
    using pushes(3,4) by (simp add: entry_vm_def Let_def sp1 flip: v1_def v2_def v3_def)
qed

lemma map_data_mem_x:
  "vm_x (snd (map_data_mem buf v)) =
    (replicate 32 0)[1 := round4 (p_end (snd (map_data_mem buf v))),
      2 := s_end (snd (map_data_mem buf v)), 8 := s_end (snd (map_data_mem buf v))]"
  by (simp add: map_data_mem_def reset_def Let_def)

lemma entry_vm_regs:
  assumes "vm_ok v" "length buf \<le> 64 * 1024"
  defines "e \<equiv> entry_vm buf v"
  shows "vm_x e ! 10 = d_beg e" "vm_x e ! 11 = of_nat (length buf)"
    "vm_x e ! 12 = s_end e - 8" "vm_x e ! 13 = s_end e - 16" "sp e = s_end e - 16"
    "vm_x e ! 1 = round4 (p_end e)" "vm_data e = buf" "vm_prog e = vm_prog v"
    "vm_wf e" "length (vm_stack e) = length (vm_stack v)" "vm_pc e = vm_pc v"
  using entry_vm_sandbox(1) [OF assms(1,2)] assms(1)
  by (simp_all add: e_def entry_vm_eq [OF assms(1,2)] map_data_mem_x sp_def sandbox_def vm_ok_def)
    (simp_all add: map_data_mem_def Let_def)

lemma entry_cells:
  assumes "vm_ok v" "length buf \<le> 64 * 1024"
  defines "e \<equiv> entry_vm buf v"
  shows "mapped 8 (s_end e - 16) e" "mapped 8 (s_end e - 8) e"
    "apart 8 (s_end e - 16) 8 (s_end e - 8)"
    "fst (mem_load 8 (s_end e - 16) e) = Inr 0" "fst (mem_load 8 (s_end e - 8) e) = Inr 0"
    "unat (s_end e - 8) = unat (s_end e - 16) + 8"
proof -
  have wf: "vm_wf e" and st: "length (vm_stack e) = 4096"
    using entry_vm_sandbox [OF assms(1,2)] by (simp_all add: e_def sandbox_def vm_ok_def)
  have s: "unat (s_end e) = vm_size e" by (rule unat_layout(5) [OF wf])
  have le: "4096 \<le> vm_size e" and size: "vm_size e = region_beg StackMem e + 4096"
    using st by (simp_all add: vm_size_def region_beg_def)
  have 8: "unat (s_end e - 8) = vm_size e - 8" and 16: "unat (s_end e - 16) = vm_size e - 16"
    using le by (simp_all add: unat_sub s word_le_nat_alt)
  show "unat (s_end e - 8) = unat (s_end e - 16) + 8" using le by (simp add: 8 16)
  have in8: "in_region StackMem 8 (s_end e - 8) e" and in16: "in_region StackMem 8 (s_end e - 16) e"
    using st by (simp_all add: in_region_def 8 16 size)
  show "mapped 8 (s_end e - 16) e" "mapped 8 (s_end e - 8) e"
    using wf in8 in16 by (auto simp: mapped_def)
  show "apart 8 (s_end e - 16) 8 (s_end e - 8)" using le by (simp add: apart_def 8 16)
  have stk: "vm_stack e = take 4080 (vm_stack v) @ replicate 16 0" and lv: "length (vm_stack v) = 4096"
    using assms(1) by (simp_all add: e_def entry_vm_eq [OF assms(1,2)] vm_ok_def)
  have "read_at 4080 8 (vm_stack e) = replicate 8 0" "read_at 4088 8 (vm_stack e) = replicate 8 0"
    by (simp_all add: stk lv read_at_def)
  moreover have "le_val (replicate 8 0) = 0" by (simp add: numeral_eq_Suc)
  ultimately show "fst (mem_load 8 (s_end e - 16) e) = Inr 0" "fst (mem_load 8 (s_end e - 8) e) = Inr 0"
    by (simp_all add: mem_load_mapped [OF wf _ in8] mem_load_mapped [OF wf _ in16] 8 16 size)
qed

text \<open>Reading the results back when the bytecode has kept the stack pointer.\<close>

lemma get_src_dst_result:
  assumes "vm_ok v" "length buf \<le> 64 * 1024"
    and run: "execute_program p_beg 100000 (entry_vm buf v) = (Inr (), v')"
    and sp: "sp v' = sp (entry_vm buf v)"
  shows "\<exists>v''. get_src_dst buf v = (Some (vm_x v' ! 10 = 0,
      projr (fst (mem_load 8 (vm_x (entry_vm buf v) ! 12) v')),
      projr (fst (mem_load 8 (vm_x (entry_vm buf v) ! 13) v'))), v'')
    \<and> vm_data v'' = vm_data v' \<and> vm_prog v'' = vm_prog v' \<and> region_bytes StackMem v'' = vm_stack v'"
proof -
  define e where "e = entry_vm buf v"
  have sb: "sandbox e v'"
    using execute_program_safe [of e p_beg 100000] entry_vm_sandbox(2) [OF assms(1,2)] run
    by (simp add: vm_ok_def e_def)
  then have wf: "vm_wf v'" by (simp add: sandbox_def)
  have "vm_wf e" using entry_vm_regs(9) [OF assms(1,2)] by (simp add: e_def)
  then have layout: "s_end v' = s_end e"
    "\<And>r n a. in_region r n a v' \<longleftrightarrow> in_region r n a e"
    using sb by (auto simp: sandbox_def vm_wf_def in_region_def region_beg_def vm_size_def split: region.split)
  have m: "mapped 8 (s_end e - 16) v'" "mapped 8 (s_end e - 8) v'"
    using entry_cells(1,2) [OF assms(1,2)] wf layout(2) by (auto simp: mapped_def e_def)
  have spe: "sp v' = s_end e - 16" using sp entry_vm_regs(5) [OF assms(1,2)] by (simp add: e_def)
  have load: "\<exists>w. mem_load 8 a u = (Inr w, u)" if "mapped 8 a u" for a u
    using that by (auto simp: mapped_def mem_load_mapped)
  define v2 where "v2 = set_sp (s_end e - 8) v'"
  have wf2: "vm_wf v2" and sp2: "sp v2 = s_end e - 8"
    using wf by (simp_all add: v2_def set_sp_def sp_def vm_wf_def vm_size_def)
  obtain d where d: "mem_load 8 (s_end e - 16) v' = (Inr d, v')" using load [OF m(1)] by blast
  obtain u where u: "mem_load 8 (s_end e - 8) v' = (Inr u, v')" using load [OF m(2)] by blast
  have pop1: "stack_pop 8 v' = (Inr d, v2)"
    using stack_pop_eq [OF wf, of 8] d by (simp add: spe v2_def)
  have pop2: "stack_pop 8 v2 = (Inr u, set_sp (s_end e) v2)"
    using stack_pop_eq [OF wf2, of 8] u mem_load_set_sp [of 8 "s_end e - 8" "s_end e - 8" v']
    unfolding sp2 by (simp add: v2_def)
  have "run_src_dst buf v = (Inr (vm_x v' ! 10 = 0, u, d), set_sp (s_end e) v2)"
    using run pop1 pop2 unfolding run_src_dst_eq [OF assms(1,2)]
    by (simp add: bindE_def register_get_def retE_def)
  then show ?thesis
    using d u entry_vm_regs(3,4) [OF assms(1,2)]
    by (simp add: get_src_dst_def v2_def set_sp_def flip: e_def)
qed

lemma get_src_dst_throws:
  assumes "vm_ok v" "length buf \<le> 64 * 1024"
    and "execute_program p_beg 100000 (entry_vm buf v) = (Inl err, v')"
  shows "get_src_dst buf v = (if err = UndefinedRem then None else Some (False, 0, 0), v')"
proof -
  have "err \<noteq> UndefinedFetch" "err \<noteq> UndefinedAccess"
    using execute_program_safe [of "entry_vm buf v" p_beg 100000] entry_vm_sandbox(2) [OF assms(1,2)] assms(3)
    by (simp_all add: vm_ok_def)
  then show ?thesis using assms(3) unfolding get_src_dst_def run_src_dst_eq [OF assms(1,2)]
    by (simp add: bindE_def)
qed

section \<open>Properties\<close>

text \<open>
  C20. The calling convention of the bytecode. At entry \<open>a0\<close> is the address of the mapped
  datagram and \<open>a1\<close> its length, \<open>a2\<close> and \<open>a3\<close> are two separate, mapped, zeroed 64-bit cells, the one of
  \<open>a3\<close> at the stack pointer and that of \<open>a2\<close> next above it, so that pushes go below both, and \<open>ra\<close> is the return
  sentinel. If the run ends normally with the stack pointer as it was, the call succeeds exactly if \<open>a0\<close>
  is 0 and returns the contents of the two cells; if the machine throws, the call fails with zero addresses, and
  only a REMW that overflows makes it undefined. This is for every datagram of at most 64 KiB and a machine
  in order (\<open>vm_ok\<close>, as every run keeps it).
\<close>

theorem get_src_dst_contract:
  assumes "vm_ok v" "length buf \<le> 64 * 1024"
  shows "vm_x (entry_vm buf v) ! 10 = d_beg (entry_vm buf v) \<and> vm_data (entry_vm buf v) = buf
    \<and> vm_x (entry_vm buf v) ! 11 = of_nat (length buf)
    \<and> mapped 8 (vm_x (entry_vm buf v) ! 12) (entry_vm buf v)
    \<and> mapped 8 (vm_x (entry_vm buf v) ! 13) (entry_vm buf v)
    \<and> apart 8 (vm_x (entry_vm buf v) ! 13) 8 (vm_x (entry_vm buf v) ! 12)
    \<and> fst (mem_load 8 (vm_x (entry_vm buf v) ! 12) (entry_vm buf v)) = Inr 0
    \<and> fst (mem_load 8 (vm_x (entry_vm buf v) ! 13) (entry_vm buf v)) = Inr 0
    \<and> vm_x (entry_vm buf v) ! 13 = sp (entry_vm buf v)
    \<and> unat (vm_x (entry_vm buf v) ! 12) = unat (sp (entry_vm buf v)) + 8
    \<and> vm_x (entry_vm buf v) ! 1 = round4 (p_end (entry_vm buf v))
    \<and> (case execute_program p_beg 100000 (entry_vm buf v) of
        (Inr _, v') \<Rightarrow> sp v' = sp (entry_vm buf v) \<longrightarrow>
          fst (get_src_dst buf v) = Some (vm_x v' ! 10 = 0,
            projr (fst (mem_load 8 (vm_x (entry_vm buf v) ! 12) v')),
            projr (fst (mem_load 8 (vm_x (entry_vm buf v) ! 13) v')))
      | (Inl err, v') \<Rightarrow> fst (get_src_dst buf v) =
          (if err = UndefinedRem then None else Some (False, 0, 0)))"
proof -
  have run: "case execute_program p_beg 100000 (entry_vm buf v) of
        (Inr _, v') \<Rightarrow> sp v' = sp (entry_vm buf v) \<longrightarrow>
          fst (get_src_dst buf v) = Some (vm_x v' ! 10 = 0,
            projr (fst (mem_load 8 (vm_x (entry_vm buf v) ! 12) v')),
            projr (fst (mem_load 8 (vm_x (entry_vm buf v) ! 13) v')))
      | (Inl err, v') \<Rightarrow> fst (get_src_dst buf v) =
          (if err = UndefinedRem then None else Some (False, 0, 0))"
    using get_src_dst_result [OF assms] get_src_dst_throws [OF assms]
    by (fastforce split: prod.split sum.split)
  moreover have "unat (s_end (entry_vm buf v) - 8) = unat (s_end (entry_vm buf v) - 16) + 8"
    using entry_cells(6) [OF assms] .
  ultimately show ?thesis
    using entry_vm_regs [OF assms] entry_cells [OF assms] by simp
qed

text \<open>A program that sets \<open>a0\<close> to 0 and returns.\<close>

definition ret_vm :: vm where
  "ret_vm = snd (program_load [0x13, 0x05, 0x00, 0x00, 0x67, 0x80, 0x00, 0x00] (new_VM 4096 1048576))"

lemma ret_vm_ok: "vm_ok ret_vm"
  by (simp add: ret_vm_def new_VM_def program_load_def vm_ok_def vm_wf_reset vm_size_def Let_def)

lemma ret_vm_run:
  "\<exists>p i. execute_program p_beg 100000 (entry_vm [1, 2, 3] ret_vm) = (Inr (), entry_vm [1, 2, 3] ret_vm
    \<lparr>vm_pc := p, vm_inst := i, vm_halted := True, vm_x := (vm_x (entry_vm [1, 2, 3] ret_vm))[0 := 0, 10 := 0, 0 := 8]\<rparr>)"
proof -
  let ?e = "entry_vm [1, 2, 3] ret_vm"
  have prog: "vm_prog ret_vm = [0x13, 0x05, 0x00, 0x00, 0x67, 0x80, 0x00, 0x00]"
    by (simp add: ret_vm_def new_VM_def program_load_def reset_def Let_def)
  note regs = entry_vm_regs [OF ret_vm_ok, of "[1, 2, 3]"]
  have p: "vm_prog ?e = [0x13, 0x05, 0x00, 0x00, 0x67, 0x80, 0x00, 0x00]" using regs(8) prog by simp
  have x: "length (vm_x ?e) = 32" "p_end ?e = 8" using regs(9) p by (simp_all add: vm_wf_def)
  then have ra: "vm_x ?e ! 1 = 8" using regs(6) by (simp add: round4_def)
  have "execute_program p_beg 100000 ?e =
      (Inr (), ?e\<lparr>vm_pc := 8, vm_inst := 0x8067, vm_halted := True, vm_x := (vm_x ?e)[0 := 0, 10 := 0, 0 := 8]\<rparr>)"
    using p x ra
    by (simp add: execute_program_def execute_loop.simps execute_instruction_def dispatch_def fetch_def read_at_def
        opcode_def funct3_def funct7_def rd_def rs1_def imm_i_def exec_alu_imm_def set_xr_def xr_def Let_def round4_def
        p_beg_def)
  then show ?thesis by blast
qed

lemma mem_load_same_memory:
  "fst (mem_load n a (v\<lparr>vm_pc := p, vm_inst := i, vm_halted := h, vm_x := x\<rparr>)) = fst (mem_load n a v)"
proof -
  have "region_bytes r (v\<lparr>vm_pc := p, vm_inst := i, vm_halted := h, vm_x := x\<rparr>) = region_bytes r v" for r
    by (cases r) simp_all
  then show ?thesis by (simp add: mem_load_def mem_ptr_def Let_def)
qed

theorem get_src_dst_contract_witness:
  "vm_data (entry_vm [1, 2, 3] ret_vm) = [1, 2, 3] \<and> fst (get_src_dst [1, 2, 3] ret_vm) = Some (True, 0, 0)"
proof -
  let ?e = "entry_vm [1, 2, 3] ret_vm"
  have len: "length [1, 2, 3 :: u8] \<le> 64 * 1024" by simp
  obtain p i where run: "execute_program p_beg 100000 ?e =
      (Inr (), ?e\<lparr>vm_pc := p, vm_inst := i, vm_halted := True, vm_x := (vm_x ?e)[0 := 0, 10 := 0, 0 := 8]\<rparr>)"
    using ret_vm_run by blast
  have "length (vm_x ?e) = 32" using entry_vm_regs(9) [OF ret_vm_ok len] by (simp add: vm_wf_def)
  moreover from this have "sp (?e\<lparr>vm_pc := p, vm_inst := i, vm_halted := True, vm_x := (vm_x ?e)[0 := 0, 10 := 0, 0 := 8]\<rparr>)
      = sp ?e" by (simp add: sp_def)
  ultimately show ?thesis
    using get_src_dst_contract [OF ret_vm_ok len] by (auto simp: run mem_load_same_memory)
qed

text \<open>
  C2. Switch mode forwards by owner. The first branch to send from an address owns it while its
  entry lives. A packet the bytecode rejects goes nowhere and teaches nothing. An accepted packet
  whose source address another branch owns goes nowhere; else it goes only to the branch that owns
  its destination address, and never back to its sender; if nobody owns the destination it goes to
  everybody else, as in hub mode. What is forwarded is the datagram as the bytecode left it.
\<close>

theorem switch_forwarding:
  assumes "plex_inv (s, posted)" "px_mode s = SwitchMode"
  shows "case get_src_dst buf (px_vm s) of
      (None, _) \<Rightarrow> fst (rcv_handler t1 t2 False buf sender s) = None
    | (Some (False, _, _), _) \<Rightarrow> (\<exists>s'. rcv_handler t1 t2 False buf sender s = (Some [], s')
        \<and> px_addr s' = px_addr s)
    | (Some (True, src, dst), v) \<Rightarrow> (\<exists>out s'. rcv_handler t1 t2 False buf sender s = (Some out, s')
        \<and> hd (tc_keys (address_cache src s')) = owner src sender s
        \<and> (if owner src sender s \<noteq> sender \<or> src = dst then out = []
           else case tc_keys (address_cache dst s) of
             [] \<Rightarrow> set (dests out) = set (tc_keys (px_active s)) \<union> px_inactive s - {sender}
               \<and> (\<forall>x \<in> set out. snd x = vm_data v)
           | b # _ \<Rightarrow> out = (if b = sender then [] else [(b, vm_data v)])))"
proof -
  define s1 where "s1 = snd (branches t1 sender s)"
  define brs where "brs = fst (branches t1 sender s)"
  have rcv: "rcv_handler t1 t2 False buf sender s = switch_handler t2 brs sender buf s1"
    using assms(2) by (simp add: rcv_handler_switch s1_def brs_def)
  have vm: "px_vm s1 = px_vm s" "px_addr s1 = px_addr s" by (simp_all add: s1_def)
  obtain r v where rv: "get_src_dst buf (px_vm s) = (r, v)" by fastforce
  show ?thesis
  proof (cases r)
    case None
    then show ?thesis by (simp add: rv rcv switch_handler_def vm)
  next
    case (Some a)
    obtain ok src dst where a: "a = (ok, src, dst)" by (cases a)
    show ?thesis
    proof (cases ok)
      case False
      then show ?thesis by (simp add: rv rcv switch_handler_def vm Some a)
    next
      case True
      have "addr_ok (px_addr s1)" using plex_invD(8) [OF assms(1)] by (simp add: vm)
      from switch_handler_eq [OF this, of buf src dst v t2 brs sender]
      obtain s' where s': "switch_handler t2 brs sender buf s1 =
          (Some (switch_out brs sender (vm_data v) src dst s1), s')"
        "address_cache src s' = snd (tc_add t2 sender (address_cache src s1))"
        using rv Some a True by (auto simp: vm)
      have "hd (tc_keys (address_cache src s')) = owner src sender s"
        using owner_after(2) [OF \<open>addr_ok (px_addr s1)\<close>] by (simp add: s'(2)) (simp add: s1_def)
      moreover have "owner src sender s1 = owner src sender s" "address_cache dst s1 = address_cache dst s"
        by (simp_all add: s1_def)
      ultimately show ?thesis
        using s'(1) flood_branches(1) [OF assms(1), of "vm_data v" sender t1]
        by (auto simp: rv rcv Some a True switch_out_def forward_single flood_payload
            simp flip: s1_def brs_def split: list.split)
    qed
  qed
qed

lemma empty_program_rejects:
  assumes "vm_ok v" "vm_prog v = []" "length buf \<le> 64 * 1024"
  shows "fst (get_src_dst buf v) = Some (False, 0, 0)"
  using get_src_dst_throws [OF assms(1,3), of ProgramTooSmall] entry_vm_regs(8) [OF assms(1,3)] assms(2)
  by (simp add: execute_program_def Let_def)

theorem switch_forwarding_witness:
  "fst (rcv_handler (0, 0) (0, 0) False [9] 5 (demo_plex SwitchMode)) = Some []"
proof -
  have "vm_prog (new_VM 4096 1048576) = []" by (simp add: new_VM_def)
  then have "fst (get_src_dst [9] (px_vm (demo_plex SwitchMode))) = Some (False, 0, 0)"
    using empty_program_rejects [OF new_VM_ok, of "[9]"] by (simp add: demo_plex_def)
  then show ?thesis
    using switch_forwarding [OF demo_plex_inv, of SwitchMode "(0, 0)" "(0, 0)" "[9]" 5]
    by (auto simp: demo_plex_def split: prod.splits)
qed

end
