(* ===== verification/SwitchExec.thy ===== *)
theory SwitchExec
  imports PlexSwitch
begin

text \<open>
  The machine under a switch program: one turn of the execution loop at a known address, the layout of its
  memory after \<open>GetSrcDst\<close> has mapped a datagram, and how a run from there becomes the result of the call.
\<close>

section \<open>A turn of the loop\<close>

definition code_at :: "u8 list \<Rightarrow> nat \<Rightarrow> u32" where
  "code_at prog p = ucast (le_val (read_at p 4 prog))"

text \<open>One turn of the execution loop at a known address.\<close>

lemma loop_step:
  assumes "\<not> vm_halted v" "vm_pc v = of_nat p" "p + 4 \<le> length (vm_prog v)"
    "length (vm_prog v) \<le> 1024 * 1024" "sz = of_nat (length (vm_prog v))"
    and d: "dispatch (code_at (vm_prog v) p)
      (v\<lparr>vm_inst := code_at (vm_prog v) p, vm_pc := of_nat p + 4, vm_x := (vm_x v)[0 := 0]\<rparr>) = (Inr (), v')"
    and "vm_pc v' \<noteq> sent"
  shows "execute_loop (Suc n) sz sent v = execute_loop n sz sent v'"
proof -
  have p: "unat (of_nat p :: u64) = p" using assms(3,4) by (intro unat_of_nat_small) simp
  have l: "unat sz = length (vm_prog v)" using assms(4,5) by (simp add: unat_of_nat_small)
  have "unat (sz - 4) = length (vm_prog v) - 4"
    using assms(3) l by (simp add: unat_sub word_le_nat_alt)
  then have "\<not> vm_pc v > sz - 4"
    using assms(2,3) p by (simp add: word_less_nat_alt)
  moreover have "execute_instruction v = (Inr (), v')"
    using d assms(2,3) p by (simp add: execute_instruction_def Let_def fetch_def code_at_def)
  ultimately show ?thesis using assms(1,7) by (subst execute_loop.simps) simp
qed

lemma execute_loop_halted: "vm_halted v \<Longrightarrow> execute_loop n sz sent v = (Inr (), v)"
  by (subst execute_loop.simps) simp

text \<open>The last turn: a jump to the sentinel halts the machine.\<close>

lemma loop_exit:
  assumes "\<not> vm_halted v" "vm_pc v = of_nat p" "p + 4 \<le> length (vm_prog v)"
    "length (vm_prog v) \<le> 1024 * 1024" "sz = of_nat (length (vm_prog v))"
    and d: "dispatch (code_at (vm_prog v) p)
      (v\<lparr>vm_inst := code_at (vm_prog v) p, vm_pc := of_nat p + 4, vm_x := (vm_x v)[0 := 0]\<rparr>) = (Inr (), v')"
    and "vm_pc v' = sent"
  shows "execute_loop (Suc n) sz sent v = (Inr (), v'\<lparr>vm_halted := True\<rparr>)"
proof -
  have p: "unat (of_nat p :: u64) = p" using assms(3,4) by (intro unat_of_nat_small) simp
  have l: "unat sz = length (vm_prog v)" using assms(4,5) by (simp add: unat_of_nat_small)
  have "unat (sz - 4) = length (vm_prog v) - 4"
    using assms(3) l by (simp add: unat_sub word_le_nat_alt)
  then have "\<not> vm_pc v > sz - 4"
    using assms(2,3) p by (simp add: word_less_nat_alt)
  moreover have "execute_instruction v = (Inr (), v')"
    using d assms(2,3) p by (simp add: execute_instruction_def Let_def fetch_def code_at_def)
  ultimately show ?thesis
    using assms(1,7) by (subst execute_loop.simps) (simp add: execute_loop_halted)
qed

text \<open>The layout of a machine that has a program of \<open>P\<close> bytes, a datagram and a 4096-byte stack.\<close>

definition layout :: "nat \<Rightarrow> vm \<Rightarrow> bool" where
  "layout P v \<longleftrightarrow> length (vm_x v) = 32 \<and> P \<le> 1024 * 1024 \<and> length (vm_data v) \<le> 64 * 1024
    \<and> length (vm_prog v) = P \<and> length (vm_stack v) = 4096 \<and> p_end v = of_nat P
    \<and> d_beg v = of_nat (P + 64) \<and> d_end v = of_nat (P + 64 + length (vm_data v))
    \<and> s_beg v = of_nat (P + 128 + length (vm_data v))
    \<and> s_end v = of_nat (P + 4224 + length (vm_data v))"

lemma layout_ok:
  assumes "vm_ok v" "length (vm_prog v) = P"
  shows "layout P v" "vm_wf v"
proof -
  have "vm_size v = P + 4224 + length (vm_data v)"
    using assms by (simp add: vm_size_def vm_ok_def)
  then show "layout P v" "vm_wf v"
    using assms by (simp_all add: layout_def vm_ok_def vm_wf_def ac_simps del: of_nat_add)
qed

lemma layout_wf:
  assumes "layout P v"
  shows "vm_wf v"
proof -
  have "vm_size v = P + 4224 + length (vm_data v)"
    using assms by (simp add: vm_size_def layout_def)
  then show ?thesis
    using assms by (simp add: layout_def vm_wf_def ac_simps del: of_nat_add)
qed

lemma layout_load:
  assumes "layout P w" "a = of_nat (P + 64 + off)" "off + n \<le> length (vm_data w)" "acc_size n"
  shows "mem_load n a w = (Inr (le_val (read_at off n (vm_data w))), w)"
proof -
  have a: "unat a = P + 64 + off"
    using assms(1,2,3) unfolding layout_def by (simp add: unat_of_nat_small del: of_nat_add)
  have "in_region DataMem n a w"
    using assms(1,3) by (simp add: in_region_def a region_beg_def layout_def)
  from mem_load_mapped [OF layout_wf [OF assms(1)] assms(4) this] show ?thesis
    using assms(1) by (simp add: a region_beg_def layout_def)
qed

lemma layout_store:
  assumes "layout P w" "a = of_nat (P + 128 + length (vm_data w) + off)" "off + n \<le> 4096" "acc_size n"
  shows "mem_store n a val w = (Inr (), w\<lparr>vm_stack := write_at off (le_bytes n val) (vm_stack w)\<rparr>)"
proof -
  have a: "unat a = P + 128 + length (vm_data w) + off"
    using assms(1,2,3) unfolding layout_def by (simp add: unat_of_nat_small del: of_nat_add)
  have "in_region StackMem n a w"
    using assms(1,3) by (simp add: in_region_def a region_beg_def layout_def)
  from mem_store_mapped [OF layout_wf [OF assms(1)] assms(4) this] show ?thesis
    using assms(1) by (simp add: a region_beg_def layout_def)
qed

lemma layout_upd [simp]:
  "layout P (v\<lparr>vm_pc := p\<rparr>) \<longleftrightarrow> layout P v" "layout P (v\<lparr>vm_inst := i\<rparr>) \<longleftrightarrow> layout P v"
  "layout P (v\<lparr>vm_halted := h\<rparr>) \<longleftrightarrow> layout P v"
  "length xs = length (vm_x v) \<Longrightarrow> layout P (v\<lparr>vm_x := xs\<rparr>) \<longleftrightarrow> layout P v"
  "length st = length (vm_stack v) \<Longrightarrow> layout P (v\<lparr>vm_stack := st\<rparr>) \<longleftrightarrow> layout P v"
  by (simp_all add: layout_def)

section \<open>A machine at an instruction\<close>

text \<open>A machine at an instruction: everything but the program counter, the instruction register
  and the registers is that of \<open>v\<close>.\<close>

definition at :: "vm \<Rightarrow> nat \<Rightarrow> u32 \<Rightarrow> u64 list \<Rightarrow> vm" where
  "at v p i xs = v\<lparr>vm_inst := i, vm_pc := of_nat p, vm_x := xs\<rparr>"

definition ready :: "u8 list \<Rightarrow> vm \<Rightarrow> u64 list \<Rightarrow> bool" where
  "ready prog v xs \<longleftrightarrow> layout (length prog) v \<and> vm_prog v = prog \<and> \<not> vm_halted v
    \<and> length xs = 32 \<and> xs ! 0 = 0"

lemma at_step:
  assumes "ready prog v xs" "p + 4 \<le> length prog" "sz = of_nat (length prog)"
    and "dispatch (code_at prog p) (at v (p + 4) (code_at prog p) xs) = (Inr (), at v' p' i' xs')"
    and "of_nat p' \<noteq> sent"
  shows "execute_loop (Suc n) sz sent (at v p i xs) = execute_loop n sz sent (at v' p' i' xs')"
proof -
  have "xs[0 := 0] = xs" using assms(1) list_update_id [of xs 0] by (simp add: ready_def)
  then show ?thesis
    using assms by (intro loop_step [of _ p]) (simp_all add: at_def ready_def layout_def)
qed

lemma at_exit:
  assumes "ready prog v xs" "p + 4 \<le> length prog" "sz = of_nat (length prog)"
    and "dispatch (code_at prog p) (at v (p + 4) (code_at prog p) xs) = (Inr (), at v' p' i' xs')"
    and "of_nat p' = sent"
  shows "execute_loop (Suc n) sz sent (at v p i xs) = (Inr (), (at v' p' i' xs')\<lparr>vm_halted := True\<rparr>)"
proof -
  have "xs[0 := 0] = xs" using assms(1) list_update_id [of xs 0] by (simp add: ready_def)
  then show ?thesis
    using assms by (intro loop_exit [of _ p]) (simp_all add: at_def ready_def layout_def)
qed

lemma at_simps [simp]:
  "xr (at v p i xs) r = xs ! unat r" "set_xr r w (at v p i xs) = at v p i (xs[unat r := w])"
  "vm_pc (at v p i xs) = of_nat p" "vm_x (at v p i xs) = xs"
  by (simp_all add: at_def xr_def set_xr_def)

lemma at_jump [simp]: "(at v p i xs)\<lparr>vm_pc := w\<rparr> = at v (unat w) i xs"
  by (simp add: at_def)

lemma layout_at: "length xs = 32 \<Longrightarrow> layout P v \<Longrightarrow> layout P (at v p i xs)"
  by (simp add: at_def layout_def)

lemma at_load:
  assumes "ready prog v xs" "a = of_nat (length prog + 64 + off)" "off + n \<le> length (vm_data v)"
    "acc_size n"
  shows "mem_load n a (at v p i xs) = (Inr (le_val (read_at off n (vm_data v))), at v p i xs)"
  using layout_load [of "length prog" "at v p i xs" a off n] assms
  by (simp add: layout_at ready_def) (simp add: at_def)

lemma at_store:
  assumes "ready prog v xs" "a = of_nat (length prog + 128 + length (vm_data v) + off)"
    "off + n \<le> 4096" "acc_size n"
  shows "mem_store n a w (at v p i xs) =
    (Inr (), at (v\<lparr>vm_stack := write_at off (le_bytes n w) (vm_stack v)\<rparr>) p i xs)"
  using layout_store [of "length prog" "at v p i xs" a off n w] assms
  by (simp add: layout_at ready_def) (simp add: at_def)

lemma ready_stack [simp]:
  "ready prog v xs \<Longrightarrow> off + 8 \<le> 4096 \<Longrightarrow>
    ready prog (v\<lparr>vm_stack := write_at off (le_bytes 8 w) (vm_stack v)\<rparr>) xs"
  by (simp add: ready_def layout_def)

lemma pc_halted_commute: "v\<lparr>vm_pc := a, vm_halted := h\<rparr> = v\<lparr>vm_halted := h, vm_pc := a\<rparr>"
  by simp

lemma ready_upd [simp]: "r \<noteq> 0 \<Longrightarrow> ready prog v (xs[r := w]) \<longleftrightarrow> ready prog v xs"
  by (simp add: ready_def)

section \<open>The call from the multiplexer\<close>

lemma entry_ready:
  assumes "vm_ok v" "length buf \<le> 64 * 1024"
  shows "ready (vm_prog v) ((entry_vm buf v)\<lparr>vm_halted := False\<rparr>) (vm_x (entry_vm buf v))"
    "execute_program p_beg m (entry_vm buf v) =
      (if (of_nat (length (vm_prog v)) :: u64) < 4 then (Inl ProgramTooSmall, (entry_vm buf v)\<lparr>vm_pc := p_beg, vm_halted := False\<rparr>)
       else execute_loop m (of_nat (length (vm_prog v))) (round4 (of_nat (length (vm_prog v))))
        (at ((entry_vm buf v)\<lparr>vm_halted := False\<rparr>) 0 (vm_inst (entry_vm buf v)) (vm_x (entry_vm buf v))))"
proof -
  note regs = entry_vm_regs [OF assms]
  have ok: "vm_ok (entry_vm buf v)" by (rule entry_vm_sandbox(2) [OF assms])
  have "layout (length (vm_prog v)) (entry_vm buf v)"
    using layout_ok(1) [OF ok refl] regs(8) by simp
  moreover have "vm_x (entry_vm buf v) ! 0 = 0"
    by (simp add: entry_vm_eq [OF assms] map_data_mem_x)
  ultimately show "ready (vm_prog v) ((entry_vm buf v)\<lparr>vm_halted := False\<rparr>) (vm_x (entry_vm buf v))"
    using regs(8) by (simp add: ready_def layout_def)
  show "execute_program p_beg m (entry_vm buf v) =
      (if (of_nat (length (vm_prog v)) :: u64) < 4 then (Inl ProgramTooSmall, (entry_vm buf v)\<lparr>vm_pc := p_beg, vm_halted := False\<rparr>)
       else execute_loop m (of_nat (length (vm_prog v))) (round4 (of_nat (length (vm_prog v))))
        (at ((entry_vm buf v)\<lparr>vm_halted := False\<rparr>) 0 (vm_inst (entry_vm buf v)) (vm_x (entry_vm buf v))))"
    by (simp add: execute_program_def Let_def regs(8) at_def p_beg_def pc_halted_commute)
qed

text \<open>The argument registers, as numbers.\<close>

lemma entry_args:
  assumes "vm_ok v" "length buf \<le> 64 * 1024" "length (vm_prog v) = P"
  defines "xs \<equiv> vm_x (entry_vm buf v)"
  shows "xs ! 10 = of_nat (P + 64)" "xs ! 11 = of_nat (length buf)"
    "xs ! 12 = of_nat (P + 4216 + length buf)" "xs ! 13 = of_nat (P + 4208 + length buf)"
    "xs ! 2 = of_nat (P + 4208 + length buf)" "xs ! 1 = round4 (of_nat P)"
proof -
  note regs = entry_vm_regs [OF assms(1,2)]
  have "layout P (entry_vm buf v)"
    using layout_ok(1) [OF entry_vm_sandbox(2) [OF assms(1,2)] refl] regs(8) assms(3) by simp
  then have l: "s_end (entry_vm buf v) = of_nat (P + 4224 + length buf)" "d_beg (entry_vm buf v) = of_nat (P + 64)"
    "p_end (entry_vm buf v) = of_nat P"
    using regs(7) by (simp_all add: layout_def)
  show "xs ! 10 = of_nat (P + 64)" "xs ! 11 = of_nat (length buf)"
    "xs ! 12 = of_nat (P + 4216 + length buf)" "xs ! 13 = of_nat (P + 4208 + length buf)"
    "xs ! 2 = of_nat (P + 4208 + length buf)" "xs ! 1 = round4 (of_nat P)"
    using regs(1-6) by (simp_all add: xs_def l sp_def)
qed

lemma layout_load_stack:
  assumes "layout P w" "a = of_nat (P + 128 + length (vm_data w) + off)" "off + 8 \<le> 4096"
  shows "mem_load 8 a w = (Inr (le_val (read_at off 8 (vm_stack w))), w)"
proof -
  have a: "unat a = P + 128 + length (vm_data w) + off"
    using assms(1,2,3) unfolding layout_def by (simp add: unat_of_nat_small del: of_nat_add)
  have "in_region StackMem 8 a w"
    using assms(1,3) by (simp add: in_region_def a region_beg_def layout_def)
  from mem_load_mapped [OF layout_wf [OF assms(1)] _ this] show ?thesis
    using assms(1) by (simp add: a region_beg_def layout_def acc_size_def)
qed

text \<open>From a symbolic run to the result of the call.\<close>

lemma get_src_dst_at:
  assumes ok: "vm_ok v" "length buf \<le> 64 * 1024" "length (vm_prog v) = P" "4 \<le> P"
    and run: "execute_loop k (of_nat P) (round4 (of_nat P))
      (at ((entry_vm buf v)\<lparr>vm_halted := False\<rparr>) 0 (vm_inst (entry_vm buf v)) (vm_x (entry_vm buf v))) =
      (Inr (), (at w p i xs)\<lparr>vm_halted := True\<rparr>)"
    and w: "k \<le> 100000" "layout P w" "length (vm_data w) = length buf" "length xs = 32"
      "xs ! 2 = vm_x (entry_vm buf v) ! 2"
  shows "\<exists>v'. get_src_dst buf v = (Some (xs ! 10 = 0, le_val (read_at 4088 8 (vm_stack w)),
      le_val (read_at 4080 8 (vm_stack w))), v') \<and> vm_prog v' = vm_prog w \<and> vm_data v' = vm_data w"
proof -
  let ?e = "entry_vm buf v"
  let ?v' = "(at w p i xs)\<lparr>vm_halted := True\<rparr>"
  have "P \<le> 1024 * 1024" using w(2) by (simp add: layout_def)
  then have "\<not> (of_nat P :: u64) < 4" using ok(4) by (simp add: word_less_nat_alt unat_of_nat_small)
  then have "execute_program p_beg k ?e = (Inr (), ?v')"
    using run by (simp add: entry_ready(2) [OF ok(1,2)] ok(3))
  then have "execute_program p_beg 100000 ?e = (Inr (), ?v')"
    using execute_program_more [of p_beg k ?e "100000 - k"] w(1) by simp
  moreover have "sp ?v' = sp ?e" using w(5) by (simp add: sp_def)
  ultimately obtain v'' where v'': "get_src_dst buf v = (Some (vm_x ?v' ! 10 = 0,
      projr (fst (mem_load 8 (vm_x ?e ! 12) ?v')), projr (fst (mem_load 8 (vm_x ?e ! 13) ?v'))), v'')"
    "vm_data v'' = vm_data ?v'" "vm_prog v'' = vm_prog ?v'"
    using get_src_dst_result [OF ok(1,2)] by blast
  have l: "layout P ?v'" using w(2,4) by (simp add: layout_at)
  have d: "vm_data ?v' = vm_data w" "vm_prog ?v' = vm_prog w" "vm_stack ?v' = vm_stack w"
    by (simp_all add: at_def)
  have "vm_x ?e ! 12 = of_nat (P + 128 + length (vm_data ?v') + 4088)"
    "vm_x ?e ! 13 = of_nat (P + 128 + length (vm_data ?v') + 4080)"
    using entry_args(3,4) [OF ok(1-3)] by (simp_all add: d w(3) ac_simps)
  note loads = layout_load_stack [OF l this(1)] layout_load_stack [OF l this(2)]
  show ?thesis using v'' loads by (simp add: d)
qed

lemma vm_with_program_ok:
  assumes "length p \<le> 1024 * 1024"
  defines "v \<equiv> snd (program_load p (new_VM 4096 1048576))"
  shows "vm_ok v" "vm_prog v = p"
  using assms(1) by (simp_all add: v_def program_load_def new_VM_def vm_ok_def vm_wf_reset vm_size_def)

end
