(* ===== verification/SwitchSymbolic.thy ===== *)
theory SwitchSymbolic
  imports SwitchExec
begin

text \<open>
  Symbolic execution of a switch program, one rule for every instruction: the state of a machine that
  runs code \<open>C\<close> followed in program memory by a table \<open>T\<close>, which the code may write, is made explicit, and
  a turn of the execution loop is the effect of the instruction at its address. The simplifier then runs a
  program from its words.
\<close>

section \<open>States\<close>

definition pst :: "u8 list \<Rightarrow> vm \<Rightarrow> u8 list \<Rightarrow> u8 list \<Rightarrow> nat \<Rightarrow> u32 \<Rightarrow> u64 list \<Rightarrow> vm" where
  "pst C v T st p i xs = at (v\<lparr>vm_prog := C @ T, vm_stack := st\<rparr>) p i xs"

definition pok :: "u8 list \<Rightarrow> vm \<Rightarrow> u8 list \<Rightarrow> u8 list \<Rightarrow> u64 list \<Rightarrow> bool" where
  "pok C v T st xs \<longleftrightarrow> layout (length C + length T) v \<and> \<not> vm_halted v \<and> length st = 4096
    \<and> length xs = 32 \<and> xs ! 0 = 0"

lemma pok_ready: "pok C v T st xs \<Longrightarrow> ready (C @ T) (v\<lparr>vm_prog := C @ T, vm_stack := st\<rparr>) xs"
  by (simp add: pok_def ready_def layout_def)

lemma pok_upd [simp]:
  "r \<noteq> 0 \<Longrightarrow> pok C v T st (xs[r := w]) \<longleftrightarrow> pok C v T st xs"
  "off + length bs \<le> length T \<Longrightarrow> pok C v (write_at off bs T) st xs \<longleftrightarrow> pok C v T st xs"
  "length st = 4096 \<Longrightarrow> off + length bs \<le> 4096 \<Longrightarrow> pok C v T (write_at off bs st) xs \<longleftrightarrow> length st = 4096 \<and> pok C v T st xs"
  by (auto simp: pok_def)

lemma pst_simps [simp]:
  "xr (pst C v T st p i xs) r = xs ! unat r" "set_xr r w (pst C v T st p i xs) = pst C v T st p i (xs[unat r := w])"
  "vm_pc (pst C v T st p i xs) = of_nat p" "(pst C v T st p i xs)\<lparr>vm_pc := w\<rparr> = pst C v T st (unat w) i xs"
  by (simp_all add: pst_def)

lemma code_at_append: "p + 4 \<le> length C \<Longrightarrow> code_at (C @ T) p = code_at C p"
  by (simp add: code_at_def read_at_def)

text \<open>The instruction words of a program given by its words.\<close>

lemma words_length: "length (concat (map (\<lambda>w. le_bytes 4 w) ws)) = 4 * length ws"
  by (induction ws) simp_all

lemma code_word:
  "i < length ws \<Longrightarrow> code_at (concat (map (\<lambda>w. le_bytes 4 w) ws)) (4 * i) = ucast (ws ! i)"
proof (induction ws arbitrary: i)
  case (Cons w ws)
  show ?case
  proof (cases i)
    case 0
    have "ucast (take_bit 32 w) = (ucast w :: u32)" by (rule bit_word_eqI) (simp add: bit_simps)
    then show ?thesis by (simp add: 0 code_at_def read_at_def le_val_le_bytes del: le_bytes.simps)
  next
    case (Suc j)
    have "code_at (le_bytes 4 w @ bs) (4 + p) = code_at bs p" for bs p
      by (simp add: code_at_def read_at_def)
    then have "code_at (concat (map (\<lambda>w. le_bytes 4 w) (w # ws))) (4 + 4 * j) =
        code_at (concat (map (\<lambda>w. le_bytes 4 w) ws)) (4 * j)" by (simp del: le_bytes.simps)
    then show ?thesis using Cons Suc by (simp add: algebra_simps)
  qed
qed simp

lemma code_words:
  "p mod 4 = 0 \<Longrightarrow> p div 4 < length ws \<Longrightarrow>
    code_at (concat (map (\<lambda>w. le_bytes 4 w) ws)) p = ucast (ws ! (p div 4))"
  using code_word [of "p div 4" ws] by (simp add: mult_div_mod_eq [symmetric] dvd_imp_mod_0 mod_0_imp_dvd)

section \<open>A turn of the loop\<close>

definition turn :: "nat \<Rightarrow> u64 \<Rightarrow> (vm_error + unit) \<times> vm \<Rightarrow> (vm_error + unit) \<times> vm" where
  "turn k sz r =
    (case r of
       (Inl e, w) \<Rightarrow> (Inl e, w)
     | (Inr _, w) \<Rightarrow> if vm_pc w = sz then (Inr (), w\<lparr>vm_halted := True\<rparr>) else execute_loop k sz sz w)"

lemma pst_not_halted: "pok C v T st xs \<Longrightarrow> \<not> vm_halted (pst C v T st p i xs)"
  by (simp add: pok_def pst_def at_def)

lemma loop_turn:
  assumes ok: "pok C v T st xs" and p: "p + 4 \<le> length C" and sz: "sz = of_nat (length C + length T)" and k: "0 < k"
    and d: "dispatch (code_at C p) (pst C v T st (p + 4) (code_at C p) xs) = (Inr (), pst C v T' st' p' i' xs')"
  shows "execute_loop k sz sz (pst C v T st p i xs) = turn (k - 1) sz (Inr (), pst C v T' st' p' i' xs')"
proof -
  let ?v = "v\<lparr>vm_prog := C @ T, vm_stack := st\<rparr>" and ?v' = "v\<lparr>vm_prog := C @ T', vm_stack := st'\<rparr>"
  obtain n where n: "k = Suc n" using k gr0_implies_Suc by blast
  have d': "dispatch (code_at (C @ T) p) (at ?v (p + 4) (code_at (C @ T) p) xs) = (Inr (), at ?v' p' i' xs')"
    using d by (simp add: pst_def code_at_append [OF p])
  have "p + 4 \<le> length (C @ T)" using p by simp
  note step = at_step [OF pok_ready [OF ok] this _ d'] and stop = at_exit [OF pok_ready [OF ok] this _ d']
  show ?thesis
  proof (cases "of_nat p' = sz")
    case True
    then show ?thesis using stop [of sz sz n i] sz by (simp add: n turn_def pst_def)
  next
    case False
    then show ?thesis using step [of sz sz n i] sz by (simp add: n turn_def pst_def)
  qed
qed

text \<open>A jump may write register 0; the next instruction clears it.\<close>

lemma loop_x0:
  assumes ok: "pok C v T st xs" and p: "p + 4 \<le> length C" and sz: "sz = of_nat (length C + length T)" and k: "0 < k"
  shows "execute_loop k sz sz (pst C v T st p i (xs[0 := w])) = execute_loop k sz sz (pst C v T st p i xs)"
proof -
  have P: "length C + length T \<le> 1024 * 1024" "\<not> vm_halted v" using ok by (simp_all add: pok_def layout_def)
  have u: "unat (of_nat p :: u64) = p" "unat sz = length C + length T"
    using P(1) p by (simp_all add: sz unat_of_nat_small del: of_nat_add)
  have "unat (sz - 4) = length C + length T - 4" using p u(2) by (simp add: unat_sub word_le_nat_alt)
  then have pc: "\<not> (of_nat p :: u64) > sz - 4" using p u(1) by (simp add: word_less_nat_alt)
  have "(xs[0 := w])[0 := 0] = xs[0 := 0]" by simp
  then have "execute_instruction (pst C v T st p i (xs[0 := w])) = execute_instruction (pst C v T st p i xs)"
    using p by (simp add: execute_instruction_def fetch_def pst_def at_def u(1) Let_def)
  moreover obtain n where "k = Suc n" using k gr0_implies_Suc by blast
  ultimately show ?thesis
    using pc P(2) by (simp add: execute_loop.simps [of "Suc n"] pst_not_halted pst_def at_def)
qed

lemma turn_pst:
  "turn k sz (Inr (), pst C v T st p i xs) =
    (if of_nat p = sz then (Inr (), (pst C v T st p i xs)\<lparr>vm_halted := True\<rparr>)
     else execute_loop k sz sz (pst C v T st p i xs))"
  by (simp add: turn_def)

section \<open>Memory\<close>

text \<open>Accesses to the datagram, to the table and to the stack, by their distance from the beginning of
  the region.\<close>

lemma pst_layout: "pok C v T st xs \<Longrightarrow> layout (length C + length T) (pst C v T st p i xs)"
  by (simp add: pok_def pst_def layout_def at_def)

lemma pst_fields [simp]:
  "vm_data (pst C v T st p i xs) = vm_data v" "vm_prog (pst C v T st p i xs) = C @ T"
  "vm_stack (pst C v T st p i xs) = st"
  by (simp_all add: pst_def at_def)

definition data_off :: "u8 list \<Rightarrow> u8 list \<Rightarrow> u64 \<Rightarrow> nat" where
  "data_off C T a = unat (a - of_nat (length C + length T + 64))"

definition table_off :: "u8 list \<Rightarrow> u64 \<Rightarrow> nat" where
  "table_off C a = unat (a - of_nat (length C))"

definition stack_off :: "u8 list \<Rightarrow> u8 list \<Rightarrow> nat \<Rightarrow> u64 \<Rightarrow> nat" where
  "stack_off C T n a = unat (a - of_nat (length C + length T + 128 + n))"

lemma pst_load_data:
  assumes "pok C v T st xs" "data_off C T a + n \<le> length (vm_data v)" "acc_size n"
  shows "mem_load n a (pst C v T st p i xs) =
    (Inr (le_val (read_at (data_off C T a) n (vm_data v))), pst C v T st p i xs)"
proof -
  have "a = of_nat (length C + length T + 64 + data_off C T a)"
    by (simp add: data_off_def)
  from layout_load [OF pst_layout [OF assms(1)] this _ assms(3), of p i] show ?thesis
    using assms(2) by simp
qed

lemma pst_table:
  assumes "pok C v T st xs" "table_off C a + n \<le> length T"
  shows "in_region ProgMem n a (pst C v T st p i xs)" "unat a = length C + table_off C a"
proof -
  obtain m where m: "m = length C + table_off C a" by blast
  have a: "a = of_nat m" by (simp add: m table_off_def)
  have "length C + length T \<le> 1024 * 1024" using assms(1) by (simp add: pok_def layout_def)
  then have "m \<le> 1024 * 1024" using assms(2) m by linarith
  then have "unat (of_nat m :: u64) = m" by (intro unat_of_nat_small) simp
  then have "unat a = m" by (simp only: a [symmetric])
  then show "unat a = length C + table_off C a" by (simp only: m)
  then show "in_region ProgMem n a (pst C v T st p i xs)"
    using assms(2) by (simp add: in_region_def region_beg_def)
qed

lemma pst_load_table:
  assumes "pok C v T st xs" "table_off C a + n \<le> length T" "acc_size n"
  shows "mem_load n a (pst C v T st p i xs) =
    (Inr (le_val (read_at (table_off C a) n T)), pst C v T st p i xs)"
  using mem_load_mapped [OF layout_wf [OF pst_layout [OF assms(1)]] assms(3) pst_table(1) [OF assms(1,2)], of p i]
    pst_table(2) [OF assms(1,2)]
  by (simp add: region_beg_def read_at_def)

lemma write_at_append: "write_at (length C + off) bs (C @ T) = C @ write_at off bs T"
  by (simp add: write_at_def)

lemma pst_store_table:
  assumes "pok C v T st xs" "table_off C a + n \<le> length T" "acc_size n"
  shows "mem_store n a w (pst C v T st p i xs) =
    (Inr (), pst C v (write_at (table_off C a) (le_bytes n w) T) st p i xs)"
  using mem_store_mapped [OF layout_wf [OF pst_layout [OF assms(1)]] assms(3) pst_table(1) [OF assms(1,2)], of w p i]
    pst_table(2) [OF assms(1,2)]
  by (simp add: region_beg_def write_at_append) (simp add: pst_def at_def)

lemma pst_store_stack:
  assumes "pok C v T st xs" "stack_off C T (length (vm_data v)) a + n \<le> 4096" "acc_size n"
  shows "mem_store n a w (pst C v T st p i xs) =
    (Inr (), pst C v T (write_at (stack_off C T (length (vm_data v)) a) (le_bytes n w) st) p i xs)"
proof -
  let ?s = "pst C v T st p i xs"
  have "a = of_nat (length C + length T + 128 + length (vm_data ?s) + stack_off C T (length (vm_data v)) a)"
    by (simp add: stack_off_def)
  from layout_store [OF pst_layout [OF assms(1)] this assms(2,3)] show ?thesis
    by simp (simp add: pst_def at_def)
qed

section \<open>Instructions\<close>

text \<open>The unsigned loads.\<close>

lemma pst_exec_load:
  assumes "pok C v T st xs" "(f, n) \<in> {(4, 1), (5, 2), (6, 4)}"
  shows "data_off C T (xs ! unat r + imm) + n \<le> length (vm_data v) \<Longrightarrow>
      exec_load f d r imm (pst C v T st p i xs) =
        (Inr (), pst C v T st p i (xs[unat d := le_val (read_at (data_off C T (xs ! unat r + imm)) n (vm_data v))]))"
    "table_off C (xs ! unat r + imm) + n \<le> length T \<Longrightarrow>
      exec_load f d r imm (pst C v T st p i xs) =
        (Inr (), pst C v T st p i (xs[unat d := le_val (read_at (table_off C (xs ! unat r + imm)) n T)]))"
  using assms(2) pst_load_data [OF assms(1), of "xs ! unat r + imm" n p i]
    pst_load_table [OF assms(1), of "xs ! unat r + imm" n p i]
  by (auto simp: exec_load_def Let_def bindE_def modifyE_def acc_size_def)

lemma pst_exec_store:
  assumes "pok C v T st xs" "(f, n) \<in> {(1, 2), (2, 4), (3, 8)}"
  shows "table_off C (xs ! unat r1 + imm) + n \<le> length T \<Longrightarrow>
      exec_store f r1 r2 imm (pst C v T st p i xs) =
        (Inr (), pst C v (write_at (table_off C (xs ! unat r1 + imm)) (le_bytes n (xs ! unat r2)) T) st p i xs)"
    "stack_off C T (length (vm_data v)) (xs ! unat r1 + imm) + n \<le> 4096 \<Longrightarrow>
      exec_store f r1 r2 imm (pst C v T st p i xs) =
        (Inr (), pst C v T (write_at (stack_off C T (length (vm_data v)) (xs ! unat r1 + imm))
          (le_bytes n (xs ! unat r2)) st) p i xs)"
  using assms(2) pst_store_table [OF assms(1), of "xs ! unat r1 + imm" n "xs ! unat r2" p i]
    pst_store_stack [OF assms(1), of "xs ! unat r1 + imm" n "xs ! unat r2" p i]
  by (auto simp: exec_store_def Let_def acc_size_def)

text \<open>What evaluates an instruction.\<close>

lemmas pst_exec = exec_alu_imm_def exec_alu_imm32_def exec_alu_reg_def alu_op_def exec_branch_def
  Let_def pst_exec_load pst_exec_store data_off_def table_off_def stack_off_def

section \<open>A call from the multiplexer\<close>

lemma pst_at: "vm_prog v = C @ T \<Longrightarrow> pst C v T (vm_stack v) p i xs = at v p i xs"
  by (cases v) (simp add: pst_def)

text \<open>The machine a program starts in: the argument registers, and zeros in the two result cells.\<close>

definition args_ok :: "nat \<Rightarrow> nat \<Rightarrow> u64 list \<Rightarrow> bool" where
  "args_ok P n xs \<longleftrightarrow> xs ! 1 = round4 (of_nat P) \<and> xs ! 10 = of_nat (P + 64) \<and> xs ! 11 = of_nat n
    \<and> xs ! 12 = of_nat (P + 4216 + n) \<and> xs ! 13 = of_nat (P + 4208 + n)"

lemma zero_cells:
  assumes "read_at 4080 16 st = replicate 16 (0 :: u8)" "length st = 4096"
  shows "le_val (read_at 4088 8 st) = 0" "le_val (read_at 4080 8 st) = 0"
proof -
  have "read_at 4088 8 st = drop 8 (read_at 4080 16 st)" "read_at 4080 8 st = take 8 (read_at 4080 16 st)"
    by (simp_all add: read_at_def drop_take)
  moreover have "le_val (replicate n (0 :: u8)) = 0" for n by (induction n) simp_all
  ultimately show "le_val (read_at 4088 8 st) = 0" "le_val (read_at 4080 8 st) = 0"
    by (simp_all add: assms(1))
qed

lemma stored_cells:
  assumes "length st = 4096"
  shows "le_val (read_at 4088 8 (write_at 4080 (le_bytes 8 d) (write_at 4088 (le_bytes 8 s) st))) = s"
    "le_val (read_at 4080 8 (write_at 4080 (le_bytes 8 d) (write_at 4088 (le_bytes 8 s) st))) = d"
  using read_write_same [of 4088 "le_bytes 8 s" st] read_write_same [of 4080 "le_bytes 8 d" "write_at 4088 (le_bytes 8 s) st"] assms
  by (simp_all add: read_write_other le_val_le_bytes_8)

text \<open>The run from state \<open>s\<close> ends within the budget, with the stack pointer \<open>x2\<close>, the table \<open>T'\<close> and the result
  \<open>r\<close>: whether \<open>a0\<close> is zero, and the two cells.\<close>

definition returns :: "u8 list \<Rightarrow> vm \<Rightarrow> u64 \<Rightarrow> u64 \<Rightarrow> vm \<Rightarrow> u8 list \<Rightarrow> bool \<times> u64 \<times> u64 \<Rightarrow> bool" where
  "returns C w sz x2 s T' r \<longleftrightarrow> (\<exists>k p i ys st. k \<le> 100000 \<and> length ys = 32 \<and> ys ! 2 = x2 \<and> length st = 4096
    \<and> execute_loop k sz (round4 sz) s = (Inr (), (pst C w T' st p i ys)\<lparr>vm_halted := True\<rparr>)
    \<and> (ys ! 10 = 0, le_val (read_at 4088 8 st), le_val (read_at 4080 8 st)) = r)"

lemma returnsI:
  assumes "execute_loop k sz sz s = (Inr (), (pst C w T' st p i ys)\<lparr>vm_halted := True\<rparr>)" "round4 sz = sz"
    "k \<le> 100000" "length ys = 32" "ys ! 2 = x2" "length st = 4096"
    "(ys ! 10 = 0, le_val (read_at 4088 8 st), le_val (read_at 4080 8 st)) = r"
  shows "returns C w sz x2 s T' r"
  unfolding returns_def using assms by metis

text \<open>A symbolic run from there gives the result of the call. \<open>T'\<close> is what the run leaves in the table.\<close>

lemma get_src_dst_pst:
  assumes v: "vm_ok v" "vm_prog v = C @ T" "length buf \<le> 64 * 1024" "4 \<le> length C"
    and run: "\<And>w st i xs. pok C w T st xs \<Longrightarrow> args_ok (length C + length T) (length buf) xs \<Longrightarrow> vm_data w = buf \<Longrightarrow>
      read_at 4080 16 st = replicate 16 0 \<Longrightarrow>
      returns C w (of_nat (length C + length T)) (xs ! 2) (pst C w T st 0 i xs) T' r"
    and T': "length T' = length T"
  shows "\<exists>v'. get_src_dst buf v = (Some r, v') \<and> vm_ok v' \<and> vm_prog v' = C @ T' \<and> vm_data v' = buf"
proof -
  define w where "w = (entry_vm buf v)\<lparr>vm_halted := False\<rparr>"
  define xs where "xs = vm_x (entry_vm buf v)"
  define P where "P = length C + length T"
  have P: "length (vm_prog v) = P" "4 \<le> P" using v(2,4) by (simp_all add: P_def)
  have r: "ready (C @ T) w xs" using entry_ready(1) [OF v(1,3)] by (simp add: w_def xs_def v(2))
  then have lay: "layout P w" and len: "length xs = 32" "xs ! 0 = 0"
    by (simp_all add: ready_def P_def)
  have data: "vm_data w = buf" "vm_prog w = C @ T" "length (vm_stack w) = 4096"
    using entry_vm_regs(7,8) [OF v(1,3)] v(2) lay by (simp_all add: w_def layout_def)
  have ok: "pok C w T (vm_stack w) xs" using lay len data r by (simp add: pok_def P_def ready_def)
  have args: "args_ok P (length buf) xs"
    using entry_args [OF v(1,3) P(1)] by (simp add: args_ok_def xs_def)
  have "vm_stack w = take 4080 (vm_stack v) @ replicate 16 0" and lv: "length (vm_stack v) = 4096"
    using v(1) by (simp_all add: w_def entry_vm_eq [OF v(1,3)] vm_ok_def)
  then have zero: "read_at 4080 16 (vm_stack w) = replicate 16 0" by (simp add: read_at_def)
  obtain k p i' ys st' where k: "k \<le> 100000" "length ys = 32" "ys ! 2 = xs ! 2" "length st' = 4096"
    "execute_loop k (of_nat P) (round4 (of_nat P)) (pst C w T (vm_stack w) 0 (vm_inst (entry_vm buf v)) xs) =
      (Inr (), (pst C w T' st' p i' ys)\<lparr>vm_halted := True\<rparr>)"
    "(ys ! 10 = 0, le_val (read_at 4088 8 st'), le_val (read_at 4080 8 st')) = r"
    using run [OF ok args [unfolded P_def] data(1) zero, folded P_def, of "vm_inst (entry_vm buf v)"]
    unfolding returns_def by blast
  let ?w = "w\<lparr>vm_prog := C @ T', vm_stack := st'\<rparr>"
  have "layout P ?w" using lay T' k(4) by (simp add: layout_def P_def)
  from get_src_dst_at [OF v(1,3) P, folded w_def xs_def, OF k(5) [unfolded pst_at [OF data(2)], unfolded pst_def [of C w T']]
      k(1) this _ k(2,3)]
  obtain v' where "get_src_dst buf v = (Some r, v')" "vm_prog v' = C @ T'" "vm_data v' = buf"
    using data(1) k(6) by auto
  moreover have "vm_ok v'" using get_src_dst_vm_ok [OF v(1,3)] calculation(1) by simp
  ultimately show ?thesis by blast
qed

end
