(* ===== verification/SwitchBytecode.thy ===== *)
theory SwitchBytecode
  imports SwitchSymbolic
begin

text \<open>
  The bytecode the project ships for switch mode (\<open>src/Examples/SwitchBytecode\<close>), run on the
  machine for every datagram: the programs are the instruction words of the assembler sources, and
  their effect is derived by symbolic execution of the interpreter, not by testing. Here is
  \<open>SwitchDNP3_FAST.s\<close>.
\<close>

section \<open>The program\<close>

text \<open>Sixteen instructions.\<close>

definition dnp3_fast :: "u8 list" where
  "dnp3_fast = concat (map (\<lambda>w. le_bytes 4 w)
    [0x00a00293, 0x0255ea63, 0x00055283, 0x00006337, 0x4053031b, 0x02629263, 0x00254283, 0x0055ce63,
     0x00655283, 0x00455303, 0x00563023, 0x0066b023, 0x00000513, 0x00008067, 0xfff00513, 0x00008067])"

lemma dnp3_fast_length: "length dnp3_fast = 64"
  by code_simp

lemma dnp3_fast_word: "p mod 4 = 0 \<Longrightarrow> p div 4 < 16 \<Longrightarrow> code_at dnp3_fast p = ucast ([0x00a00293, 0x0255ea63, 0x00055283, 0x00006337, 0x4053031b, 0x02629263, 0x00254283, 0x0055ce63,
     0x00655283, 0x00455303, 0x00563023, 0x0066b023, 0x00000513, 0x00008067, 0xfff00513, 0x00008067] ! (p div 4) :: u64)"
  unfolding dnp3_fast_def by (rule code_words) simp_all

lemma dnp3_fast_code:
  "code_at dnp3_fast 0 = 0x00a00293" "code_at dnp3_fast 4 = 0x0255ea63"
  "code_at dnp3_fast 8 = 0x00055283" "code_at dnp3_fast 12 = 0x00006337"
  "code_at dnp3_fast 16 = 0x4053031b" "code_at dnp3_fast 20 = 0x02629263"
  "code_at dnp3_fast 24 = 0x00254283" "code_at dnp3_fast 28 = 0x0055ce63"
  "code_at dnp3_fast 32 = 0x00655283" "code_at dnp3_fast 36 = 0x00455303"
  "code_at dnp3_fast 40 = 0x00563023" "code_at dnp3_fast 44 = 0x0066b023"
  "code_at dnp3_fast 48 = 0x00000513" "code_at dnp3_fast 52 = 0x00008067"
  "code_at dnp3_fast 56 = 0xfff00513" "code_at dnp3_fast 60 = 0x00008067"
  by (simp_all add: dnp3_fast_word)

lemma dnp3_fast_dispatch:
  "dispatch 0x00a00293 = exec_alu_imm 0 5 0 10"
  "dispatch 0x0255ea63 = exec_branch 6 11 5 52"
  "dispatch 0x00055283 = exec_load 5 5 10 0"
  "dispatch 0x00006337 = (\<lambda>v. (Inr (), set_xr 6 0x6000 v))"
  "dispatch 0x4053031b = exec_alu_imm32 0 6 6 0x405"
  "dispatch 0x02629263 = exec_branch 1 5 6 36"
  "dispatch 0x00254283 = exec_load 4 5 10 2"
  "dispatch 0x0055ce63 = exec_branch 4 11 5 28"
  "dispatch 0x00655283 = exec_load 5 5 10 6"
  "dispatch 0x00455303 = exec_load 5 6 10 4"
  "dispatch 0x00563023 = exec_store 3 12 5 0"
  "dispatch 0x0066b023 = exec_store 3 13 6 0"
  "dispatch 0x00000513 = exec_alu_imm 0 10 0 0"
  "dispatch 0xfff00513 = exec_alu_imm 0 10 0 (- 1)"
  "dispatch 0x00008067 = (\<lambda>v. (Inr (), (set_xr 0 (vm_pc v) v)\<lparr>vm_pc := xr v 1 AND NOT 1\<rparr>))"
  by (rule ext, simp add: dispatch_def decode_defs)+

lemmas fast_code = dnp3_fast_code dnp3_fast_dispatch dnp3_fast_length

lemma fast_turn:
  assumes "pok dnp3_fast v [] st xs" "p + 4 \<le> 64" "0 < k"
    and "dispatch (code_at dnp3_fast p) (pst dnp3_fast v [] st (p + 4) (code_at dnp3_fast p) xs) =
      (Inr (), pst dnp3_fast v [] st' p' i' xs')"
  shows "execute_loop k 64 64 (pst dnp3_fast v [] st p i xs) = turn (k - 1) 64 (Inr (), pst dnp3_fast v [] st' p' i' xs')"
  using loop_turn [OF assms(1) _ _ assms(3,4)] assms(2) by (simp add: dnp3_fast_length)

text \<open>The four paths through the program: too short, wrong start bytes, length byte beyond the
  datagram, and success.\<close>

lemma fast_paths:
  assumes ok: "pok dnp3_fast v [] st xs" and xs: "length st = 4096" "length xs = 32" "xs ! 0 = 0" "xs ! Suc 0 = 64"
      "xs ! 10 = 128" "xs ! 11 = of_nat (length (vm_data v))" "xs ! 12 = of_nat (length (vm_data v)) + 4280"
      "xs ! 13 = of_nat (length (vm_data v)) + 4272"
  defines "hdr \<equiv> le_val (read_at 0 2 (vm_data v))" and "len \<equiv> le_val (read_at 2 1 (vm_data v))"
    and "s \<equiv> le_val (read_at 6 2 (vm_data v))" and "d \<equiv> le_val (read_at 4 2 (vm_data v))"
  shows
    "(of_nat (length (vm_data v)) :: u64) < 10 \<Longrightarrow>
      execute_loop 4 64 64 (pst dnp3_fast v [] st 0 i xs) =
        (Inr (), (pst dnp3_fast v [] st 64 0x8067 (xs[5 := 10, 10 := - 1, 0 := 64]))\<lparr>vm_halted := True\<rparr>)"
    "\<not> (of_nat (length (vm_data v)) :: u64) < 10 \<Longrightarrow> 8 \<le> length (vm_data v) \<Longrightarrow> hdr \<noteq> 0x6405 \<Longrightarrow>
      execute_loop 8 64 64 (pst dnp3_fast v [] st 0 i xs) =
        (Inr (), (pst dnp3_fast v [] st 64 0x8067 (xs[5 := hdr, 6 := 0x6405, 10 := - 1, 0 := 64]))\<lparr>vm_halted := True\<rparr>)"
    "\<not> (of_nat (length (vm_data v)) :: u64) < 10 \<Longrightarrow> 8 \<le> length (vm_data v) \<Longrightarrow> hdr = 0x6405 \<Longrightarrow>
      of_nat (length (vm_data v)) <s len \<Longrightarrow>
      execute_loop 10 64 64 (pst dnp3_fast v [] st 0 i xs) =
        (Inr (), (pst dnp3_fast v [] st 64 0x8067 (xs[5 := hdr, 6 := 0x6405, 5 := len, 10 := - 1, 0 := 64]))
          \<lparr>vm_halted := True\<rparr>)"
    "\<not> (of_nat (length (vm_data v)) :: u64) < 10 \<Longrightarrow> 8 \<le> length (vm_data v) \<Longrightarrow> hdr = 0x6405 \<Longrightarrow>
      \<not> of_nat (length (vm_data v)) <s len \<Longrightarrow>
      execute_loop 14 64 64 (pst dnp3_fast v [] st 0 i xs) =
        (Inr (), (pst dnp3_fast v [] (write_at 4080 (le_bytes 8 d) (write_at 4088 (le_bytes 8 s) st))
          64 0x8067 (xs[5 := hdr, 6 := 0x6405, 5 := s, 6 := d, 10 := 0, 0 := 56]))\<lparr>vm_halted := True\<rparr>)"
  using ok xs unfolding hdr_def len_def s_def d_def
  by (simp_all add: fast_turn fast_code pst_exec turn_pst)

section \<open>What it does\<close>

text \<open>The program as a function of the datagram.\<close>

definition fast_addrs :: "u8 list \<Rightarrow> bool \<times> u64 \<times> u64" where
  "fast_addrs buf =
    (if length buf < 10 \<or> take 2 buf \<noteq> [0x05, 0x64] \<or> length buf < unat (buf ! 2) then (False, 0, 0)
     else (True, le_val [buf ! 6, buf ! 7], le_val [buf ! 4, buf ! 5]))"

lemma less_of_nat_iff: "n \<le> 64 * 1024 \<Longrightarrow> (of_nat n :: u64) < 10 \<longleftrightarrow> n < 10"
  by (simp add: word_less_nat_alt unat_of_nat_small)

lemma sint_small:
  assumes "uint (w :: u64) < 2 ^ 63"
  shows "sint w = uint w"
proof -
  have "- (2 ^ 63) \<le> uint w" by (rule order_trans [OF _ uint_ge_0]) simp
  with assms have "signed_take_bit 63 (uint w) = uint w" by (intro signed_take_bit_int_eq_self)
  then show ?thesis by (simp only: sint_uint) simp
qed

lemma uint_byte:
  fixes b :: u8
  shows "int (unat b) < 256" "uint (ucast b :: u64) = int (unat b)"
proof -
  have "uint b < 2 ^ LENGTH(8)" by (rule uint_lt2p)
  then have "uint b < 256" by simp
  then show "int (unat b) < 256" by (simp only: uint_nat [symmetric])
  then show "uint (ucast b :: u64) = int (unat b)"
    by (simp add: unsigned_ucast_eq take_bit_int_eq_self)
qed

lemma sless_byte_iff:
  fixes b :: u8
  assumes "n \<le> 64 * 1024"
  shows "(of_nat n :: u64) <s ucast b \<longleftrightarrow> n < unat b"
proof -
  have n: "uint (of_nat n :: u64) = int n"
    using assms unat_of_nat_small [of n] by (simp only: uint_nat) simp
  have "sint (of_nat n :: u64) = int n" using sint_small [of "of_nat n"] assms unfolding n by simp
  moreover have "int (unat b) < 2 ^ 63" by (rule less_trans [OF uint_byte(1)]) simp
  then have "sint (ucast b :: u64) = int (unat b)"
    using sint_small [of "ucast b"] unfolding uint_byte(2) by blast
  ultimately show ?thesis by (simp only: word_sless_alt of_nat_less_iff)
qed

lemma read_at_2: "off + 2 \<le> length buf \<Longrightarrow> read_at off 2 buf = [buf ! off, buf ! Suc off]"
  by (simp add: read_at_def numeral_2_eq_2 take_Suc_conv_app_nth)

lemma start_bytes_iff:
  assumes "2 \<le> length buf"
  shows "le_val (read_at 0 2 buf) = 0x6405 \<longleftrightarrow> take 2 buf = [0x05, 0x64]"
proof -
  have len: "length (take 2 buf) = 2" using assms by simp
  have "le_bytes 2 0x6405 = [0x05, 0x64]" by code_simp
  moreover have "le_val [0x05, 0x64] = 0x6405" by code_simp
  ultimately show ?thesis
    using le_bytes_le_val [of "take 2 buf"] len by (auto simp: read_at_def)
qed

text \<open>The decisions of the program, shared by its variants: what \<open>ret\<close> says of the result on each path
  it says of \<open>fast_addrs\<close>, with the addresses combined by \<open>f\<close>.\<close>

lemma dnp3_decisions:
  assumes n: "length buf \<le> 64 * 1024"
    and short: "(of_nat (length buf) :: u64) < 10 \<Longrightarrow> ret (False, 0, 0)"
    and start: "\<not> (of_nat (length buf) :: u64) < 10 \<Longrightarrow> 8 \<le> length buf \<Longrightarrow> le_val (read_at 0 2 buf) \<noteq> 0x6405 \<Longrightarrow>
      ret (False, 0, 0)"
    and beyond: "\<not> (of_nat (length buf) :: u64) < 10 \<Longrightarrow> 8 \<le> length buf \<Longrightarrow> le_val (read_at 0 2 buf) = 0x6405 \<Longrightarrow>
      of_nat (length buf) <s le_val (read_at 2 1 buf) \<Longrightarrow> ret (False, 0, 0)"
    and good: "\<not> (of_nat (length buf) :: u64) < 10 \<Longrightarrow> 8 \<le> length buf \<Longrightarrow> le_val (read_at 0 2 buf) = 0x6405 \<Longrightarrow>
      \<not> of_nat (length buf) <s le_val (read_at 2 1 buf) \<Longrightarrow>
      ret (True, f (le_val (read_at 6 2 buf)) (le_val (read_at 4 2 buf)))"
  shows "ret (case fast_addrs buf of (ok, s, d) \<Rightarrow> if ok then (True, f s d) else (False, 0, 0))"
proof (cases "length buf < 10")
  case True
  then show ?thesis using short n by (simp add: fast_addrs_def less_of_nat_iff)
next
  case False
  then have long: "\<not> (of_nat (length buf) :: u64) < 10" "8 \<le> length buf" "2 \<le> length buf"
    using n by (simp_all add: less_of_nat_iff)
  have "le_val (read_at 2 1 buf) = ucast (buf ! 2)"
    using long by (simp add: read_at_def take_Suc_conv_app_nth)
  then have lenb: "of_nat (length buf) <s le_val (read_at 2 1 buf) \<longleftrightarrow> length buf < unat (buf ! 2)"
    using sless_byte_iff [OF n] by simp
  have addrs: "le_val (read_at 6 2 buf) = le_val [buf ! 6, buf ! 7]" "le_val (read_at 4 2 buf) = le_val [buf ! 4, buf ! 5]"
    using long(2) by (simp_all add: read_at_2)
  show ?thesis
    using start [OF long(1,2)] beyond [OF long(1,2)] good [OF long(1,2)] False
    unfolding lenb start_bytes_iff [OF long(3)] addrs
    by (cases "take 2 buf = [0x05, 0x64]"; cases "length buf < unat (buf ! 2)")
      (simp_all add: fast_addrs_def del: le_val.simps)
qed

lemma fast_run:
  assumes ok: "pok dnp3_fast w [] st xs" "args_ok 64 (length buf) xs" and w: "vm_data w = buf"
    and zero: "read_at 4080 16 st = replicate 16 0" and n: "length buf \<le> 64 * 1024"
  shows "returns dnp3_fast w 64 (xs ! 2) (pst dnp3_fast w [] st 0 i xs) [] (fast_addrs buf)"
proof -
  let ?ret = "returns dnp3_fast w 64 (xs ! 2) (pst dnp3_fast w [] st 0 i xs) []"
  have len: "length st = 4096" "length xs = 32" "xs ! 0 = 0" using ok(1) by (simp_all add: pok_def)
  have r4: "round4 64 = 64" by (simp add: round4_def)
  have args: "xs ! Suc 0 = 64" "xs ! 10 = 128" "xs ! 11 = of_nat (length buf)"
    "xs ! 12 = of_nat (length buf) + 4280" "xs ! 13 = of_nat (length buf) + 4272"
    using ok(2) by (simp_all add: args_ok_def r4)
  note paths = fast_paths [OF ok(1) len, unfolded w, OF args]
  note cells = zero_cells [OF zero len(1)] stored_cells [OF len(1)] r4 len
  have "?ret (case fast_addrs buf of (ok, s, d) \<Rightarrow> if ok then (True, s, d) else (False, 0, 0))"
    by (rule dnp3_decisions [OF n]; rule returnsI, (erule (3) paths | erule (2) paths | erule paths)) (simp_all add: cells)
  moreover have "(case fast_addrs buf of (ok, s, d) \<Rightarrow> if ok then (True, s, d) else (False, 0, 0)) = fast_addrs buf"
    by (auto simp: fast_addrs_def)
  ultimately show ?thesis by simp
qed

lemma fast_program:
  assumes v: "vm_ok v" "vm_prog v = dnp3_fast" "length buf \<le> 64 * 1024"
  shows "\<exists>v'. get_src_dst buf v = (Some (fast_addrs buf), v') \<and> vm_prog v' = dnp3_fast \<and> vm_data v' = buf"
proof -
  have "\<exists>v'. get_src_dst buf v = (Some (fast_addrs buf), v') \<and> vm_ok v' \<and> vm_prog v' = dnp3_fast @ [] \<and> vm_data v' = buf"
    using fast_run [OF _ _ _ _ v(3)] v
    by (intro get_src_dst_pst) (simp_all add: dnp3_fast_length)
  then show ?thesis by auto
qed

section \<open>Properties\<close>

text \<open>
  C22. The shipped DNP3 bytecode is right for every datagram and every earlier history of the
  machine: it accepts exactly the datagrams of at least 10 bytes that begin with 0x05 0x64 and
  whose length byte is not larger than the datagram, returns the two 16-bit addresses of the
  header, source and destination, and leaves the program and the datagram as they were, so that
  the next call finds the same conditions.
\<close>

theorem dnp3_fast_addresses:
  assumes "vm_ok v" "vm_prog v = dnp3_fast" "length buf \<le> 64 * 1024"
  shows "\<exists>v'. get_src_dst buf v = (Some (fast_addrs buf), v')
    \<and> vm_ok v' \<and> vm_prog v' = dnp3_fast \<and> vm_data v' = buf"
  using fast_program [OF assms] get_src_dst_vm_ok [OF assms(1,3)] by fastforce

definition dnp3_datagram :: "u8 \<Rightarrow> u8 \<Rightarrow> u8 list" where
  "dnp3_datagram src dst = [0x05, 0x64, 5, 0xc0, dst, 0, src, 0, 0, 0]"

lemma dnp3_datagram_addrs: "fast_addrs (dnp3_datagram src dst) = (True, ucast src, ucast dst)"
  by (simp add: fast_addrs_def dnp3_datagram_def)

definition fast_vm :: vm where
  "fast_vm = snd (program_load dnp3_fast (new_VM 4096 1048576))"

lemma fast_vm: "vm_ok fast_vm" "vm_prog fast_vm = dnp3_fast"
  using vm_with_program_ok [of dnp3_fast] by (simp_all add: fast_vm_def dnp3_fast_length)

theorem dnp3_fast_addresses_witness:
  "\<exists>v'. get_src_dst (dnp3_datagram 10 1) fast_vm = (Some (True, 10, 1), v')"
proof -
  have "length (dnp3_datagram 10 1) \<le> 64 * 1024" by (simp add: dnp3_datagram_def)
  from dnp3_fast_addresses [OF fast_vm this] show ?thesis by (auto simp: dnp3_datagram_addrs)
qed

end
