(* ===== verification/SwitchVxlan.thy ===== *)
theory SwitchVxlan
  imports SwitchBytecode
begin

text \<open>
  The VXLAN example bytecode (\<open>src/Examples/SwitchBytecode/SwitchVXLAN.s\<close>), by symbolic execution.
  It stores the destination through \<open>a4\<close>, which the multiplexer leaves at 0, and so overwrites
  its own first two instructions with its first accepted datagram.
\<close>

definition vxlan :: "u8 list" where
  "vxlan = concat (map (\<lambda>w. le_bytes 4 w)
    [0x0b000293, 0x0255e663, 0x02851283, 0x03029293, 0x04053303, 0x00537333, 0x07053383, 0x0053f3b3,
     0x00763023, 0x00673023, 0x00000513, 0x00008067, 0xfff00513, 0x00008067])"

lemma vxlan_length: "length vxlan = 56"
  by code_simp

lemma vxlan_word: "p mod 4 = 0 \<Longrightarrow> p div 4 < 14 \<Longrightarrow> code_at vxlan p = ucast ([0x0b000293, 0x0255e663, 0x02851283, 0x03029293, 0x04053303, 0x00537333, 0x07053383, 0x0053f3b3,
     0x00763023, 0x00673023, 0x00000513, 0x00008067, 0xfff00513, 0x00008067] ! (p div 4) :: u64)"
  unfolding vxlan_def by (rule code_words) simp_all

lemma vxlan_code:
  "code_at vxlan 0 = 0x0b000293" "code_at vxlan 4 = 0x0255e663" "code_at vxlan 8 = 0x02851283"
  "code_at vxlan 12 = 0x03029293" "code_at vxlan 16 = 0x04053303" "code_at vxlan 20 = 0x00537333"
  "code_at vxlan 24 = 0x07053383" "code_at vxlan 28 = 0x0053f3b3" "code_at vxlan 32 = 0x00763023"
  "code_at vxlan 36 = 0x00673023" "code_at vxlan 40 = 0x00000513" "code_at vxlan 44 = 0x00008067"
  by (simp_all add: vxlan_word)

lemma vxlan_dispatch:
  "dispatch 0x0b000293 = exec_alu_imm 0 5 0 176"
  "dispatch 0x0255e663 = exec_branch 6 11 5 44"
  "dispatch 0x02851283 = exec_load 1 5 10 40"
  "dispatch 0x03029293 = exec_alu_imm 1 5 5 48"
  "dispatch 0x04053303 = exec_load 3 6 10 64"
  "dispatch 0x00537333 = exec_alu_reg 7 0 6 6 5"
  "dispatch 0x07053383 = exec_load 3 7 10 112"
  "dispatch 0x0053f3b3 = exec_alu_reg 7 0 7 7 5"
  "dispatch 0x00763023 = exec_store 3 12 7 0"
  "dispatch 0x00673023 = exec_store 3 14 6 0"
  "dispatch 0x00000513 = exec_alu_imm 0 10 0 0"
  "dispatch 0x00008067 = (\<lambda>v. (Inr (), (set_xr 0 (vm_pc v) v)\<lparr>vm_pc := xr v 1 AND NOT 1\<rparr>))"
  by (rule ext, simp add: dispatch_def decode_defs)+

lemmas vx_code = vxlan_code vxlan_dispatch vxlan_length
lemmas vx_step = at_step [of vxlan, simplified vxlan_length]

section \<open>The program overwritten\<close>

text \<open>The program after \<open>sd t1,0(a4)\<close> with the value \<open>t\<close> in \<open>t1\<close>.\<close>

definition vxlan_hit :: "u64 \<Rightarrow> u8 list" where
  "vxlan_hit t = write_at 0 (le_bytes 8 t) vxlan"

lemma vxlan_hit_length: "length (vxlan_hit t) = 56"
  by (simp add: vxlan_hit_def vxlan_length)

lemma vxlan_hit_code:
  "code_at (vxlan_hit t) 40 = 0x00000513" "code_at (vxlan_hit t) 44 = 0x00008067"
  using vxlan_code(11,12)
  by (simp_all add: code_at_def vxlan_hit_def read_write_other vxlan_length)

lemma vxlan_hit_first: "code_at (vxlan_hit t) 0 = ucast t"
proof -
  have "read_at 0 4 (vxlan_hit t) = le_bytes 4 t"
    by (simp add: read_at_def vxlan_hit_def write_at_def numeral_eq_Suc)
  moreover have "ucast (take_bit 32 t) = (ucast t :: u32)"
    by (rule bit_word_eqI) (simp add: bit_simps)
  ultimately show ?thesis by (simp add: code_at_def le_val_le_bytes)
qed

lemmas hit_step = at_step [of "vxlan_hit t", unfolded vxlan_hit_length] for t
lemmas hit_exit = at_exit [of "vxlan_hit t", unfolded vxlan_hit_length] for t

lemma at_store_prog:
  assumes "ready prog v xs" "8 \<le> length prog"
  shows "mem_store 8 0 w (at v p i xs) = (Inr (), at (v\<lparr>vm_prog := write_at 0 (le_bytes 8 w) prog\<rparr>) p i xs)"
proof -
  have l: "layout (length prog) (at v p i xs)" and p: "vm_prog (at v p i xs) = prog"
    using assms(1) by (simp_all add: ready_def layout_at) (simp add: at_def)
  have "in_region ProgMem 8 0 (at v p i xs)"
    using assms(2) by (simp add: in_region_def region_beg_def p)
  from mem_store_mapped [OF layout_wf [OF l] _ this] show ?thesis
    by (simp add: p acc_size_def region_beg_def) (simp add: at_def)
qed

lemma ready_hit:
  "ready vxlan v xs \<Longrightarrow> ready (vxlan_hit w) (v\<lparr>vm_prog := vxlan_hit w\<rparr>) xs"
  by (simp add: ready_def layout_def vxlan_hit_length vxlan_length)

section \<open>The accepting path\<close>

lemma vx_steps:
  assumes "ready vxlan v xs"
  shows
    "execute_loop (Suc n) 56 56 (at v 0 i xs) = execute_loop n 56 56 (at v 4 0x0b000293 (xs[5 := 176]))"
    "execute_loop (Suc n) 56 56 (at v 4 i xs) =
      execute_loop n 56 56 (at v (if xs ! 11 < xs ! 5 then 48 else 8) 0x0255e663 xs)"
    "execute_loop (Suc n) 56 56 (at v 12 i xs) =
      execute_loop n 56 56 (at v 16 0x03029293 (xs[5 := push_bit 48 (xs ! 5)]))"
    "execute_loop (Suc n) 56 56 (at v 20 i xs) =
      execute_loop n 56 56 (at v 24 0x00537333 (xs[6 := xs ! 6 AND xs ! 5]))"
    "execute_loop (Suc n) 56 56 (at v 28 i xs) =
      execute_loop n 56 56 (at v 32 0x0053f3b3 (xs[7 := xs ! 7 AND xs ! 5]))"
  by (rule vx_step [OF assms]; insert assms;
      simp add: vx_code exec_alu_imm_def exec_alu_reg_def alu_op_def exec_branch_def ready_def Let_def)+

lemma vx_loads:
  assumes "ready vxlan v xs" "xs ! 10 = 120" "176 \<le> length (vm_data v)"
  shows
    "execute_loop (Suc n) 56 56 (at v 8 i xs) = execute_loop n 56 56 (at v 12 0x02851283
      (xs[5 := scast (ucast (le_val (read_at 40 2 (vm_data v))) :: 16 word)]))"
    "execute_loop (Suc n) 56 56 (at v 16 i xs) =
      execute_loop n 56 56 (at v 20 0x04053303 (xs[6 := le_val (read_at 64 8 (vm_data v))]))"
    "execute_loop (Suc n) 56 56 (at v 24 i xs) =
      execute_loop n 56 56 (at v 28 0x07053383 (xs[7 := le_val (read_at 112 8 (vm_data v))]))"
  by (rule vx_step [OF assms(1)]; insert assms;
      simp add: vx_code exec_load_def Let_def bindE_def modifyE_def acc_size_def
        at_load [where prog = vxlan and off = 40 and n = 2]
        at_load [where prog = vxlan and off = 64 and n = 8]
        at_load [where prog = vxlan and off = 112 and n = 8])+

lemma vx_stores:
  assumes "ready vxlan v xs"
  shows
    "xs ! 12 = of_nat (length (vm_data v)) + 4272 \<Longrightarrow> execute_loop (Suc n) 56 56 (at v 32 i xs) =
      execute_loop n 56 56 (at (v\<lparr>vm_stack := write_at 4088 (le_bytes 8 (xs ! 7)) (vm_stack v)\<rparr>)
        36 0x00763023 xs)"
    "xs ! 14 = 0 \<Longrightarrow> execute_loop (Suc n) 56 56 (at v 36 i xs) =
      execute_loop n 56 56 (at (v\<lparr>vm_prog := vxlan_hit (xs ! 6)\<rparr>) 40 0x00673023 xs)"
  by (rule vx_step [OF assms]; insert assms;
      simp add: vx_code at_store [where prog = vxlan and off = 4088] acc_size_def
        exec_store_def Let_def at_store_prog vxlan_hit_def)+

lemma hit_steps:
  assumes "ready vxlan v xs"
  shows
    "execute_loop (Suc n) 56 56 (at (v\<lparr>vm_prog := vxlan_hit t\<rparr>) 40 i xs) =
      execute_loop n 56 56 (at (v\<lparr>vm_prog := vxlan_hit t\<rparr>) 44 0x00000513 (xs[10 := 0]))"
    "xs ! 1 = 56 \<Longrightarrow> execute_loop (Suc n) 56 56 (at (v\<lparr>vm_prog := vxlan_hit t\<rparr>) 44 i xs) =
      (Inr (), (at (v\<lparr>vm_prog := vxlan_hit t\<rparr>) 56 0x00008067 (xs[0 := 48]))\<lparr>vm_halted := True\<rparr>)"
  by (rule hit_step [OF ready_hit [OF assms(1)]] hit_exit [OF ready_hit [OF assms(1)]]; insert assms(1);
      simp add: vxlan_hit_code vxlan_dispatch exec_alu_imm_def ready_def Let_def)+

text \<open>What ends up in the destination register: only the two top bytes can be non-zero.\<close>

definition vx_tag :: "u8 list \<Rightarrow> u64" where
  "vx_tag buf = push_bit 48 (scast (ucast (le_val (read_at 40 2 buf)) :: 16 word))"

definition vx_src :: "u8 list \<Rightarrow> u64" where
  "vx_src buf = le_val (read_at 112 8 buf) AND vx_tag buf"

definition vx_dst :: "u8 list \<Rightarrow> u64" where
  "vx_dst buf = le_val (read_at 64 8 buf) AND vx_tag buf"

lemma vx_path:
  assumes r: "ready vxlan v xs" "xs ! 1 = 56" "xs ! 10 = 120" "xs ! 11 = of_nat (length (vm_data v))"
    "xs ! 12 = of_nat (length (vm_data v)) + 4272" "xs ! 14 = 0"
    and long: "\<not> of_nat (length (vm_data v)) < (176 :: u64)" "176 \<le> length (vm_data v)"
  defines "tag \<equiv> vx_tag (vm_data v)" and "src \<equiv> vx_src (vm_data v)" and "dst \<equiv> vx_dst (vm_data v)"
  shows "execute_loop (Suc (Suc (Suc (Suc (Suc (Suc (Suc (Suc (Suc (Suc (Suc (Suc n)))))))))))) 56 56 (at v 0 i xs) =
    (Inr (), (at (v\<lparr>vm_stack := write_at 4088 (le_bytes 8 src) (vm_stack v), vm_prog := vxlan_hit dst\<rparr>)
      56 0x00008067 (xs[5 := tag, 6 := dst, 7 := src, 10 := 0, 0 := 48]))\<lparr>vm_halted := True\<rparr>)"
proof -
  have len: "length xs = 32" using r(1) by (simp add: ready_def)
  show ?thesis
    unfolding tag_def src_def dst_def vx_src_def vx_dst_def vx_tag_def
    by (simp add: r(1,3-6) r(2) [unfolded One_nat_def] long len vx_steps vx_loads vx_stores hit_steps)
qed

lemma vx_dst_low: "ucast (vx_dst buf) = (0 :: u32)"
  by (rule bit_word_eqI) (simp add: vx_dst_def vx_tag_def bit_simps)

section \<open>The first datagram and the next\<close>

lemma vx_first:
  assumes v: "vm_ok v" "vm_prog v = vxlan" "176 \<le> length buf" "length buf \<le> 64 * 1024"
  shows "\<exists>v'. get_src_dst buf v = (Some (True, vx_src buf, 0), v') \<and> vm_prog v' = vxlan_hit (vx_dst buf)
    \<and> vm_data v' = buf"
proof -
  define w where "w = (entry_vm buf v)\<lparr>vm_halted := False\<rparr>"
  define xs where "xs = vm_x (entry_vm buf v)"
  have P: "length (vm_prog v) = 56" by (simp add: v(2) vxlan_length)
  have r: "ready vxlan w xs" using entry_ready(1) [OF v(1,4)] by (simp add: w_def xs_def v(2))
  then have lay: "layout 56 w" and len: "length xs = 32" by (simp_all add: ready_def vxlan_length)
  have data: "vm_data w = buf" "length (vm_stack w) = 4096"
    using entry_vm_regs(7) [OF v(1,4)] lay by (simp_all add: w_def layout_def)
  have sentinel: "round4 56 = 56" by (simp add: round4_def)
  have args: "xs ! 1 = 56" "xs ! 10 = 120" "xs ! 11 = of_nat (length buf)"
    "xs ! 12 = of_nat (length buf) + 4272" "xs ! 14 = 0"
    using entry_args [OF v(1,4) P] by (simp_all add: xs_def sentinel)
      (simp_all add: entry_vm_eq [OF v(1,4)] map_data_mem_x)
  have "\<not> of_nat (length buf) < (176 :: u64)"
    using v(3,4) by (simp add: word_less_nat_alt unat_of_nat_small)
  note path = vx_path [OF r, unfolded data, OF args this v(3), of 0]
  have stack: "vm_stack w = take 4080 (vm_stack v) @ replicate 16 0" and lv: "length (vm_stack v) = 4096"
    using v(1) by (simp_all add: w_def entry_vm_eq [OF v(1,4)] vm_ok_def)
  let ?st = "write_at 4088 (le_bytes 8 (vx_src buf)) (vm_stack w)"
  have zero: "le_val (replicate 8 0) = 0" by (simp add: numeral_eq_Suc)
  have "read_at 4080 8 ?st = read_at 4080 8 (vm_stack w)"
    using data(2) by (intro read_write_other) simp_all
  then have cells: "le_val (read_at 4088 8 ?st) = vx_src buf" "le_val (read_at 4080 8 ?st) = 0"
    using read_write_same [of 4088 "le_bytes 8 (vx_src buf)" "vm_stack w"] data(2)
    by (simp_all add: le_val_le_bytes_8) (simp add: stack lv read_at_def zero)
  let ?w = "w\<lparr>vm_stack := ?st, vm_prog := vxlan_hit (vx_dst buf)\<rparr>"
  have "layout 56 ?w" using lay by (simp add: layout_def vxlan_hit_length)
  then show ?thesis
    using get_src_dst_at [OF v(1,4) P, folded w_def xs_def, simplified sentinel of_nat_numeral,
        OF _ path] cells data(1) len
    by simp
qed

text \<open>A program whose first word is not an instruction fails on every datagram.\<close>

lemma bad_first_word:
  assumes v: "vm_ok v" "length (vm_prog v) = 56" "length buf \<le> 64 * 1024" "code_at (vm_prog v) 0 = 0"
  shows "fst (get_src_dst buf v) = Some (False, 0, 0)"
proof -
  let ?w = "at ((entry_vm buf v)\<lparr>vm_halted := False\<rparr>) 0 (vm_inst (entry_vm buf v)) (vm_x (entry_vm buf v))"
  have prog: "vm_prog ?w = vm_prog v" "vm_pc ?w = 0" "\<not> vm_halted ?w"
    using entry_vm_regs(8) [OF v(1,3)] by (simp_all add: at_def)
  have d: "dispatch 0 = (\<lambda>v. (Inl UnknownOpcode, v))"
    by (rule ext) (simp add: dispatch_def decode_defs)
  have f: "fetch ?w = 0" using v(4) prog by (simp add: fetch_def code_at_def)
  obtain w' where "execute_instruction ?w = (Inl UnknownOpcode, w')"
    using v(2) prog by (simp add: execute_instruction_def f d Let_def)
  then have "execute_loop (Suc 0) 56 sent ?w = (Inl UnknownOpcode, w')" for sent
    using prog by (subst execute_loop.simps) simp
  then have one: "execute_program p_beg (Suc 0) (entry_vm buf v) = (Inl UnknownOpcode, w')"
    by (simp add: entry_ready(2) [OF v(1,3)] v(2))
  have "execute_program p_beg (Suc 0 + 99999) (entry_vm buf v) = (Inl UnknownOpcode, w')"
    using execute_program_more [of p_beg "Suc 0" "entry_vm buf v" 99999] by (simp add: one)
  then have "execute_program p_beg 100000 (entry_vm buf v) = (Inl UnknownOpcode, w')" by simp
  then show ?thesis using get_src_dst_throws [OF v(1,3)] by simp
qed

section \<open>Properties\<close>

text \<open>
  The shipped VXLAN bytecode does not survive its first datagram. \<open>sd t1,0(a4)\<close> goes to
  address 0 of the program, not to the destination cell: the call succeeds with destination 0
  whatever the datagram says, and from then on every datagram is rejected, because the first
  instruction has become the word 0.
\<close>

theorem vxlan_self_destruct:
  assumes "vm_ok v" "vm_prog v = vxlan" "176 \<le> length buf" "length buf \<le> 64 * 1024"
    "length buf2 \<le> 64 * 1024"
  shows "\<exists>v'. get_src_dst buf v = (Some (True, vx_src buf, 0), v')
    \<and> fst (get_src_dst buf2 v') = Some (False, 0, 0)"
proof -
  obtain v' where v': "get_src_dst buf v = (Some (True, vx_src buf, 0), v')"
    "vm_prog v' = vxlan_hit (vx_dst buf)"
    using vx_first [OF assms(1-4)] by blast
  have "vm_ok v'" using get_src_dst_vm_ok [OF assms(1,4)] v'(1) by simp
  moreover have "code_at (vm_prog v') 0 = 0" by (simp add: v'(2) vxlan_hit_first vx_dst_low)
  ultimately have "fst (get_src_dst buf2 v') = Some (False, 0, 0)"
    using assms(5) by (intro bad_first_word) (simp_all add: v'(2) vxlan_hit_length)
  then show ?thesis using v'(1) by blast
qed

theorem vxlan_self_destruct_witness:
  "\<exists>v'. get_src_dst (replicate 200 1) (snd (program_load vxlan (new_VM 4096 1048576))) =
      (Some (True, vx_src (replicate 200 1), 0), v')
    \<and> fst (get_src_dst (replicate 200 1) v') = Some (False, 0, 0)"
proof -
  have "length vxlan \<le> 1024 * 1024" by (simp add: vxlan_length)
  from vxlan_self_destruct [OF vm_with_program_ok [OF this], of "replicate 200 1" "replicate 200 1"]
  show ?thesis by simp
qed

end
