(* ===== verification/Framing.thy ===== *)
theory Framing
  imports Prelude
begin

text \<open>
  Frames and the loop that cuts a byte stream into them: \<open>Frame\<close> and the \<open>FrameChecker\<close> interface of
  \<open>src/src/ProtoConv/FrameChecker.h\<close>, the null checker, and \<open>ProtoConv::RcvStreamHandler\<close>. The
  stream buffer is the list of its readable bytes. Every frame the loop cuts off is handed to the
  fragment handler; the loop returns them in order with the bytes it leaves in the buffer, or
  \<open>None\<close> if it does not end.
\<close>

section \<open>Frames\<close>

record frame =
  fr_buf :: "u8 list"
  fr_len :: nat
  fr_fir :: bool
  fr_fin :: bool
  fr_flow :: u64
  fr_seq :: nat

definition mk_frame :: "nat \<Rightarrow> bool \<Rightarrow> bool \<Rightarrow> u64 \<Rightarrow> nat \<Rightarrow> frame" where
  "mk_frame len fir fin flow seq =
    \<lparr>fr_buf = [], fr_len = len, fr_fir = fir, fr_fin = fin, fr_flow = flow, fr_seq = seq\<rparr>"

text \<open>\<open>Frame(n)\<close> with the default arguments.\<close>

definition raw_frame :: "nat \<Rightarrow> frame" where
  "raw_frame n = mk_frame n True True 0 0"

definition is_fragment :: "frame \<Rightarrow> bool" where
  "is_fragment f \<longleftrightarrow> \<not> (fr_fir f \<and> fr_fin f)"

lemma frame_sel [simp]:
  "fr_len (mk_frame n fir fin flow seq) = n" "fr_fir (mk_frame n fir fin flow seq) = fir"
  "fr_fin (mk_frame n fir fin flow seq) = fin" "fr_flow (mk_frame n fir fin flow seq) = flow"
  "fr_seq (mk_frame n fir fin flow seq) = seq" "fr_len (raw_frame n) = n" "fr_flow (raw_frame n) = 0"
  by (simp_all add: mk_frame_def raw_frame_def)

definition null_check :: "u8 list \<Rightarrow> frame" where
  "null_check buf = raw_frame (length buf)"

section \<open>The stream loop\<close>

text \<open>The frame as it is handed over: clamped to the buffer, with its bytes copied out of it.\<close>

definition cut_frame :: "frame \<Rightarrow> u8 list \<Rightarrow> frame" where
  "cut_frame f buf = (let n = min (fr_len f) (length buf) in f\<lparr>fr_len := n, fr_buf := take n buf\<rparr>)"

partial_function (option) rcv_stream ::
  "(u8 list \<Rightarrow> frame) \<Rightarrow> u8 list \<Rightarrow> (frame list \<times> u8 list) option" where
  "rcv_stream check buf =
    (let f = check buf
     in if fr_len f = 0 then Some ([], buf)
        else let g = cut_frame f buf
          in Option.bind (rcv_stream check (drop (fr_len g) buf)) (\<lambda>(fs, rest). Some (g # fs, rest)))"

lemma rcv_stream_none: "fr_len (check buf) = 0 \<Longrightarrow> rcv_stream check buf = Some ([], buf)"
  by (subst rcv_stream.simps) simp

lemma rcv_stream_some:
  "fr_len (check buf) \<noteq> 0 \<Longrightarrow> rcv_stream check buf =
    Option.bind (rcv_stream check (drop (fr_len (cut_frame (check buf) buf)) buf))
      (\<lambda>(fs, rest). Some (cut_frame (check buf) buf # fs, rest))"
  by (subst rcv_stream.simps) (simp add: Let_def)

section \<open>The interface of a frame checker\<close>

text \<open>
  What the stream loop relies on: a checker never claims more bytes than the buffer has. A length
  of 0 asks for more bytes.
\<close>

locale frame_checker =
  fixes check :: "u8 list \<Rightarrow> frame"
  assumes len_le: "fr_len (check buf) \<le> length buf"
begin

lemma cut_check:
  "cut_frame (check buf) buf = (check buf)\<lparr>fr_buf := take (fr_len (check buf)) buf\<rparr>"
  using len_le [of buf] by (simp add: cut_frame_def Let_def min_def)

lemma check_Nil: "fr_len (check []) = 0"
  using len_le [of "[]"] by simp

text \<open>The loop ends and loses nothing: the frames and the bytes left are the buffer, every frame has
  its bytes, and the checker wants more before it looks at the rest again.\<close>

lemma rcv_stream_total:
  "\<exists>fs rest. rcv_stream check buf = Some (fs, rest) \<and> concat (map fr_buf fs) @ rest = buf
    \<and> (\<forall>f \<in> set fs. fr_len f = length (fr_buf f) \<and> fr_len f \<noteq> 0) \<and> fr_len (check rest) = 0"
proof (induction "length buf" arbitrary: buf rule: less_induct)
  case less
  show ?case
  proof (cases "fr_len (check buf) = 0")
    case True
    then show ?thesis by (simp add: rcv_stream_none)
  next
    case False
    let ?n = "fr_len (check buf)"
    have le: "?n \<le> length buf" by (rule len_le)
    then have "length (drop ?n buf) < length buf" using False by simp
    from less [OF this] obtain fs rest where r: "rcv_stream check (drop ?n buf) = Some (fs, rest)"
      "concat (map fr_buf fs) @ rest = drop ?n buf"
      "\<forall>f \<in> set fs. fr_len f = length (fr_buf f) \<and> fr_len f \<noteq> 0" "fr_len (check rest) = 0" by blast
    have "rcv_stream check buf = Some ((check buf)\<lparr>fr_buf := take ?n buf\<rparr> # fs, rest)"
      using r(1) by (simp add: rcv_stream_some [of check, OF False] cut_check)
    moreover have "take ?n buf @ concat (map fr_buf fs) @ rest = buf" using r(2) by simp
    ultimately show ?thesis using r(3,4) False le by auto
  qed
qed

end

text \<open>A checker whose verdict more bytes cannot change; then it does not matter how the stream is
  cut into reads.\<close>

locale stable_checker = frame_checker +
  assumes stable: "fr_len (check buf) \<noteq> 0 \<Longrightarrow> check (buf @ extra) = check buf"
begin

lemma rcv_stream_append:
  assumes "rcv_stream check buf = Some (fs, rest)"
  shows "rcv_stream check (buf @ extra) =
    Option.bind (rcv_stream check (rest @ extra)) (\<lambda>(gs, rest'). Some (fs @ gs, rest'))"
  using assms
proof (induction "length buf" arbitrary: buf fs rule: less_induct)
  case less
  show ?case
  proof (cases "fr_len (check buf) = 0")
    case True
    then have "fs = [] \<and> rest = buf" using less.prems by (simp add: rcv_stream_none)
    then show ?thesis by (cases "rcv_stream check (buf @ extra)") auto
  next
    case False
    let ?n = "fr_len (check buf)"
    have le: "?n \<le> length buf" by (rule len_le)
    then have shorter: "length (drop ?n buf) < length buf" using False by simp
    obtain gs where gs: "rcv_stream check (drop ?n buf) = Some (gs, rest)"
      "fs = cut_frame (check buf) buf # gs"
      using less.prems False le
      by (auto simp: rcv_stream_some [of check, OF False] cut_check split: Option.bind_splits)
    have same: "check (buf @ extra) = check buf" using stable False by blast
    have "cut_frame (check buf) (buf @ extra) = cut_frame (check buf) buf"
      using le by (simp add: cut_frame_def Let_def min_def)
    then show ?thesis
      using less.hyps [OF shorter gs(1)] False le gs(2)
      by (subst rcv_stream_some [of check]) (auto simp: same cut_check split: Option.bind_splits)
  qed
qed

end

text \<open>A stream read in pieces: each read is appended to what the loop left of the earlier ones.\<close>

fun rcv_chunks :: "(u8 list \<Rightarrow> frame) \<Rightarrow> u8 list \<Rightarrow> u8 list list \<Rightarrow> (frame list \<times> u8 list) option" where
  "rcv_chunks check buf [] = Some ([], buf)"
| "rcv_chunks check buf (c # cs) =
    Option.bind (rcv_stream check (buf @ c)) (\<lambda>(fs, rest).
    Option.bind (rcv_chunks check rest cs) (\<lambda>(gs, rest'). Some (fs @ gs, rest')))"

context stable_checker begin

text \<open>The frames do not depend on how the stream was read.\<close>

lemma rcv_chunks_stream:
  assumes "fr_len (check buf) = 0"
  shows "rcv_chunks check buf cs = rcv_stream check (buf @ concat cs)"
  using assms
proof (induction cs arbitrary: buf)
  case Nil
  then show ?case by (simp add: rcv_stream_none)
next
  case (Cons c cs)
  obtain fs rest where r: "rcv_stream check (buf @ c) = Some (fs, rest)" "fr_len (check rest) = 0"
    using rcv_stream_total by blast
  then show ?case
    using Cons.IH [OF r(2)] rcv_stream_append [OF r(1), of "concat cs"] by simp
qed

end

text \<open>A checker for a code: it reports a whole code word as the frame of its message whatever follows,
  and asks for more on every proper beginning of one.\<close>

locale frame_code = frame_checker +
  fixes ok :: "'m \<Rightarrow> bool" and enc :: "'m \<Rightarrow> u8 list" and frm :: "'m \<Rightarrow> frame"
  assumes found: "ok m \<Longrightarrow> check (enc m @ extra) = frm m"
    and frm_len: "ok m \<Longrightarrow> fr_len (frm m) = length (enc m)"
    and enc_nonempty: "ok m \<Longrightarrow> enc m \<noteq> []"
    and waits: "ok m \<Longrightarrow> enc m = p @ q \<Longrightarrow> q \<noteq> [] \<Longrightarrow> fr_len (check p) = 0"
begin

lemma rcv_stream_word:
  assumes "ok m" "rcv_stream check extra = Some (fs, rest)"
  shows "rcv_stream check (enc m @ extra) = Some ((frm m)\<lparr>fr_buf := enc m\<rparr> # fs, rest)"
proof -
  have "cut_frame (frm m) (enc m @ extra) = (frm m)\<lparr>fr_buf := enc m\<rparr>"
    using frm_len [OF assms(1)] by (simp add: cut_frame_def Let_def)
  then show ?thesis
    using assms found [OF assms(1)] frm_len [OF assms(1)] enc_nonempty [OF assms(1)]
    by (subst rcv_stream_some) simp_all
qed

lemma rcv_stream_prefix:
  assumes "\<forall>m \<in> set ms. ok m" "xs @ ys = concat (map enc ms)"
  shows "\<exists>k rest. rcv_stream check xs = Some (map (\<lambda>m. (frm m)\<lparr>fr_buf := enc m\<rparr>) (take k ms), rest)
    \<and> rest @ ys = concat (map enc (drop k ms))"
  using assms
proof (induction ms arbitrary: xs)
  case Nil
  then show ?case by (simp add: rcv_stream_none check_Nil)
next
  case (Cons m ms)
  from Cons.prems(2) consider us where "xs = enc m @ us" "us @ ys = concat (map enc ms)"
    | us where "enc m = xs @ us" "us \<noteq> []"
    by (auto simp: append_eq_append_conv2) (metis append.right_neutral append_Nil)
  then show ?case
  proof cases
    case 1
    then obtain k rest where "rcv_stream check us = Some (map (\<lambda>m. (frm m)\<lparr>fr_buf := enc m\<rparr>) (take k ms), rest)"
      "rest @ ys = concat (map enc (drop k ms))"
      using Cons.IH [of us] Cons.prems(1) by auto
    then show ?thesis using 1 rcv_stream_word Cons.prems(1) by (intro exI [of _ "Suc k"]) auto
  next
    case 2
    then have "fr_len (check xs) = 0" using waits Cons.prems(1) by auto
    then show ?thesis using Cons.prems(2) by (intro exI [of _ 0]) (simp add: rcv_stream_none)
  qed
qed

lemma rcv_chunks_code:
  assumes "\<forall>m \<in> set ms. ok m" "buf @ concat chunks = concat (map enc ms)" "fr_len (check buf) = 0"
  shows "rcv_chunks check buf chunks = Some (map (\<lambda>m. (frm m)\<lparr>fr_buf := enc m\<rparr>) ms, [])"
  using assms
proof (induction chunks arbitrary: buf ms)
  case Nil
  show ?case
  proof (cases ms)
    case (Cons m ms')
    then have "ok m" "buf = enc m @ concat (map enc ms')" using Nil.prems by simp_all
    then have "fr_len (check buf) = length (enc m)" "enc m \<noteq> []"
      using found frm_len enc_nonempty by simp_all
    then show ?thesis using Nil.prems(3) by simp
  qed (use Nil.prems in simp)
next
  case (Cons c chunks)
  obtain k rest where r: "rcv_stream check (buf @ c) = Some (map (\<lambda>m. (frm m)\<lparr>fr_buf := enc m\<rparr>) (take k ms), rest)"
    "rest @ concat chunks = concat (map enc (drop k ms))"
    using rcv_stream_prefix [OF Cons.prems(1), of "buf @ c" "concat chunks"] Cons.prems(2) by auto
  have "fr_len (check rest) = 0" using rcv_stream_total [of "buf @ c"] r(1) by auto
  then have "rcv_chunks check rest chunks = Some (map (\<lambda>m. (frm m)\<lparr>fr_buf := enc m\<rparr>) (drop k ms), [])"
    using Cons.IH [of "drop k ms"] r(2) Cons.prems(1) by (meson in_set_dropD)
  then show ?case using r(1) by (simp flip: map_append)
qed

end

interpretation null: frame_checker null_check
  by unfold_locales (simp add: null_check_def)

end
