(* ===== verification/Crc.thy ===== *)
theory Crc
  imports Prelude
begin

text \<open>
  The two checksums of ProtoConv: the CRC-CCITT of \<open>src/src/ProtoConv/FrameChecker.h\<close>, used with
  stream delimiters, and the DNP3 checksum, which \<open>src/src/ProtoConv/DNP3FrameChecker.cpp\<close> computes
  with a table and the example bytecode \<open>src/Examples/SwitchBytecode/SwitchDNP3_CRC.c\<close> bit by bit.
\<close>

section \<open>CRC-CCITT\<close>

definition ccitt_bit :: "u16 \<Rightarrow> u16 \<Rightarrow> u16" where
  "ccitt_bit poly crc = (if crc AND 0x8000 \<noteq> 0 then push_bit 1 crc XOR poly else push_bit 1 crc)"

definition ccitt_byte :: "u16 \<Rightarrow> u16 \<Rightarrow> u8 \<Rightarrow> u16" where
  "ccitt_byte poly crc b = (ccitt_bit poly ^^ 8) (crc XOR push_bit 8 (ucast b))"

definition crc_ccitt :: "u8 list \<Rightarrow> u16" where
  "crc_ccitt data = foldl (ccitt_byte 0x1021) 0xFFFF data"

section \<open>The DNP3 checksum bit by bit\<close>

text \<open>\<open>computeCRC\<close>: the octet and the accumulator are shifted together, eight times.\<close>

definition compute_crc_bit :: "u8 \<times> u16 \<Rightarrow> u8 \<times> u16" where
  "compute_crc_bit p =
    (let (data_octet, crc) = p;
         temp = (crc XOR ucast data_octet) AND 1;
         crc' = drop_bit 1 crc
     in (drop_bit 1 data_octet, if temp \<noteq> 0 then crc' XOR 0xA6BC else crc'))"

definition compute_crc :: "u16 \<Rightarrow> u8 \<Rightarrow> u16" where
  "compute_crc crc b = snd ((compute_crc_bit ^^ 8) (b, crc))"

section \<open>The DNP3 checksum by table\<close>

definition crc_table :: "u16 list" where
  "crc_table =
    [0x0000, 0x365E, 0x6CBC, 0x5AE2, 0xD978, 0xEF26, 0xB5C4, 0x839A, 0xFF89, 0xC9D7, 0x9335, 0xA56B,
     0x26F1, 0x10AF, 0x4A4D, 0x7C13, 0xB26B, 0x8435, 0xDED7, 0xE889, 0x6B13, 0x5D4D, 0x07AF, 0x31F1,
     0x4DE2, 0x7BBC, 0x215E, 0x1700, 0x949A, 0xA2C4, 0xF826, 0xCE78, 0x29AF, 0x1FF1, 0x4513, 0x734D,
     0xF0D7, 0xC689, 0x9C6B, 0xAA35, 0xD626, 0xE078, 0xBA9A, 0x8CC4, 0x0F5E, 0x3900, 0x63E2, 0x55BC,
     0x9BC4, 0xAD9A, 0xF778, 0xC126, 0x42BC, 0x74E2, 0x2E00, 0x185E, 0x644D, 0x5213, 0x08F1, 0x3EAF,
     0xBD35, 0x8B6B, 0xD189, 0xE7D7, 0x535E, 0x6500, 0x3FE2, 0x09BC, 0x8A26, 0xBC78, 0xE69A, 0xD0C4,
     0xACD7, 0x9A89, 0xC06B, 0xF635, 0x75AF, 0x43F1, 0x1913, 0x2F4D, 0xE135, 0xD76B, 0x8D89, 0xBBD7,
     0x384D, 0x0E13, 0x54F1, 0x62AF, 0x1EBC, 0x28E2, 0x7200, 0x445E, 0xC7C4, 0xF19A, 0xAB78, 0x9D26,
     0x7AF1, 0x4CAF, 0x164D, 0x2013, 0xA389, 0x95D7, 0xCF35, 0xF96B, 0x8578, 0xB326, 0xE9C4, 0xDF9A,
     0x5C00, 0x6A5E, 0x30BC, 0x06E2, 0xC89A, 0xFEC4, 0xA426, 0x9278, 0x11E2, 0x27BC, 0x7D5E, 0x4B00,
     0x3713, 0x014D, 0x5BAF, 0x6DF1, 0xEE6B, 0xD835, 0x82D7, 0xB489, 0xA6BC, 0x90E2, 0xCA00, 0xFC5E,
     0x7FC4, 0x499A, 0x1378, 0x2526, 0x5935, 0x6F6B, 0x3589, 0x03D7, 0x804D, 0xB613, 0xECF1, 0xDAAF,
     0x14D7, 0x2289, 0x786B, 0x4E35, 0xCDAF, 0xFBF1, 0xA113, 0x974D, 0xEB5E, 0xDD00, 0x87E2, 0xB1BC,
     0x3226, 0x0478, 0x5E9A, 0x68C4, 0x8F13, 0xB94D, 0xE3AF, 0xD5F1, 0x566B, 0x6035, 0x3AD7, 0x0C89,
     0x709A, 0x46C4, 0x1C26, 0x2A78, 0xA9E2, 0x9FBC, 0xC55E, 0xF300, 0x3D78, 0x0B26, 0x51C4, 0x679A,
     0xE400, 0xD25E, 0x88BC, 0xBEE2, 0xC2F1, 0xF4AF, 0xAE4D, 0x9813, 0x1B89, 0x2DD7, 0x7735, 0x416B,
     0xF5E2, 0xC3BC, 0x995E, 0xAF00, 0x2C9A, 0x1AC4, 0x4026, 0x7678, 0x0A6B, 0x3C35, 0x66D7, 0x5089,
     0xD313, 0xE54D, 0xBFAF, 0x89F1, 0x4789, 0x71D7, 0x2B35, 0x1D6B, 0x9EF1, 0xA8AF, 0xF24D, 0xC413,
     0xB800, 0x8E5E, 0xD4BC, 0xE2E2, 0x6178, 0x5726, 0x0DC4, 0x3B9A, 0xDC4D, 0xEA13, 0xB0F1, 0x86AF,
     0x0535, 0x336B, 0x6989, 0x5FD7, 0x23C4, 0x159A, 0x4F78, 0x7926, 0xFABC, 0xCCE2, 0x9600, 0xA05E,
     0x6E26, 0x5878, 0x029A, 0x34C4, 0xB75E, 0x8100, 0xDBE2, 0xEDBC, 0x91AF, 0xA7F1, 0xFD13, 0xCB4D,
     0x48D7, 0x7E89, 0x246B, 0x1235]"

definition table_update :: "u16 \<Rightarrow> u8 \<Rightarrow> u16" where
  "table_update crc b = crc_table ! unat ((crc XOR ucast b) AND 0xFF) XOR drop_bit 8 crc"

definition dnp3_crc :: "u8 list \<Rightarrow> u16" where
  "dnp3_crc data = NOT (foldl table_update 0 data)"

section \<open>The shift register\<close>

text \<open>Both versions step one linear, invertible shift register.\<close>

definition lfsr :: "u16 \<Rightarrow> u16" where
  "lfsr x = (if bit x 0 then drop_bit 1 x XOR 0xA6BC else drop_bit 1 x)"

lemma lfsr_xor: "lfsr (x XOR y) = lfsr x XOR lfsr y"
  by (rule bit_word_eqI) (auto simp: lfsr_def bit_simps)

lemma lfsr_pow_xor: "(lfsr ^^ n) (x XOR y) = (lfsr ^^ n) x XOR (lfsr ^^ n) y"
  by (induction n) (simp_all add: lfsr_xor)

lemma lfsr_zero: "lfsr x = 0 \<Longrightarrow> x = 0"
proof (rule ccontr)
  assume z: "lfsr x = 0" and "x \<noteq> 0"
  show False
  proof (cases "bit x 0")
    case True
    then have "bit (lfsr x) 15" by (simp add: lfsr_def bit_simps) (auto dest: bit_imp_le_length)
    then show False using z by simp
  next
    case False
    have "bit x k \<longleftrightarrow> False" if "k < 16" for k
    proof (cases k)
      case (Suc j)
      have "bit (lfsr x) j \<longleftrightarrow> bit x (Suc j)" using False by (simp add: lfsr_def bit_simps)
      then show ?thesis using z Suc by simp
    qed (use False in simp)
    then have "x = 0" by (intro bit_word_eqI) simp
    then show False using \<open>x \<noteq> 0\<close> by simp
  qed
qed

lemma xor_eq_0: "x XOR y = 0 \<longleftrightarrow> x = (y :: 'a::len word)"
  by (metis xor.assoc xor.left_neutral xor.right_neutral xor_self_eq)

lemma lfsr_pow_inj: "(lfsr ^^ n) x = (lfsr ^^ n) y \<longleftrightarrow> x = y"
proof -
  have zero: "(lfsr ^^ n) z = 0 \<Longrightarrow> z = 0" for z
    by (induction n) (auto dest: lfsr_zero)
  have "(lfsr ^^ n) x = (lfsr ^^ n) y \<longleftrightarrow> (lfsr ^^ n) (x XOR y) = 0"
    by (simp add: lfsr_pow_xor xor_eq_0)
  then show ?thesis using zero [of "x XOR y"] xor_eq_0 by auto
qed

lemma lfsr_pow_low_zero: "(\<And>i. i < n \<Longrightarrow> \<not> bit x i) \<Longrightarrow> (lfsr ^^ n) x = drop_bit n x"
proof (induction n)
  case (Suc n)
  then have "(lfsr ^^ n) x = drop_bit n x" by simp
  moreover have "\<not> bit (drop_bit n x) 0" using Suc.prems [of n] by (simp add: bit_simps)
  ultimately show ?case by (simp add: lfsr_def [of "drop_bit n x"] drop_bit_drop_bit)
qed simp

lemma compute_crc_bit_lfsr:
  "fst (compute_crc_bit p) = drop_bit 1 (fst p)"
  "snd (compute_crc_bit p) XOR ucast (fst (compute_crc_bit p)) = lfsr (snd p XOR ucast (fst p))"
proof -
  obtain d c where p: "p = (d, c)" by (cases p)
  show "fst (compute_crc_bit p) = drop_bit 1 (fst p)" by (simp add: p compute_crc_bit_def Let_def)
  have "(c XOR ucast d) AND 1 \<noteq> 0 \<longleftrightarrow> bit (c XOR ucast d) 0"
    by (simp add: and_one_eq bit_0 odd_iff_mod_2_eq_one)
  moreover have "drop_bit 1 c XOR ucast (drop_bit 1 d) = drop_bit 1 (c XOR ucast d)"
    by (rule bit_word_eqI) (auto simp: bit_simps dest: bit_imp_le_length)
  ultimately show "snd (compute_crc_bit p) XOR ucast (fst (compute_crc_bit p)) = lfsr (snd p XOR ucast (fst p))"
    by (simp add: p compute_crc_bit_def Let_def lfsr_def ac_simps flip: xor.assoc)
qed

lemma compute_crc_lfsr: "compute_crc crc b = (lfsr ^^ 8) (crc XOR ucast b)"
proof -
  have "fst ((compute_crc_bit ^^ n) (b, crc)) = drop_bit n b
    \<and> snd ((compute_crc_bit ^^ n) (b, crc)) XOR ucast (fst ((compute_crc_bit ^^ n) (b, crc))) =
      (lfsr ^^ n) (crc XOR ucast b)" for n
  proof (induction n)
    case (Suc n)
    let ?p = "(compute_crc_bit ^^ n) (b, crc)"
    have "snd (compute_crc_bit ?p) XOR ucast (fst (compute_crc_bit ?p)) = lfsr ((lfsr ^^ n) (crc XOR ucast b))"
      unfolding compute_crc_bit_lfsr(2) by (rule arg_cong [OF conjunct2 [OF Suc.IH]])
    then show ?case using Suc.IH by (simp add: compute_crc_bit_lfsr(1) drop_bit_drop_bit)
  qed simp
  note steps = this [of 8]
  have "drop_bit 8 b = 0" by (rule bit_word_eqI) (auto simp: bit_simps dest: bit_imp_le_length)
  then show ?thesis
    using conjunct1 [OF steps] conjunct2 [OF steps] by (simp add: compute_crc_def)
qed

text \<open>The table spans the images of the eight single-bit bytes, as linearity demands.\<close>

definition xor_span :: "u16 list \<Rightarrow> u16 list" where
  "xor_span ps = foldl (\<lambda>ts p. ts @ map (\<lambda>t. t XOR p) ts) [0] ps"

lemma of_nat_power_add:
  assumes "j < 2 ^ k"
  shows "(of_nat (2 ^ k + j) :: u16) = of_nat j XOR of_nat (2 ^ k)"
proof -
  have j: "take_bit k j = j" using assms by (rule take_bit_nat_eq_self)
  have "take_bit k j AND 2 ^ k = 0"
    by (rule bit_eqI) (auto simp: bit_simps)
  then have "j + 2 ^ k = j XOR 2 ^ k" unfolding j by (rule disjunctive_add_eq_xor)
  then have "2 ^ k + j = j XOR 2 ^ k" by (simp add: add.commute)
  then show ?thesis by (simp only:) (rule bit_word_eqI, simp add: bit_simps)
qed

lemma lfsr_pow_0: "(lfsr ^^ n) 0 = 0"
  by (induction n) (simp_all add: lfsr_def)

lemma xor_span_lfsr:
  "xor_span (map (\<lambda>i. (lfsr ^^ 8) (of_nat (2 ^ i))) [0..<k]) = map (\<lambda>i. (lfsr ^^ 8) (of_nat i)) [0..<2 ^ k]"
proof (induction k)
  case (Suc k)
  let ?f = "\<lambda>i. (lfsr ^^ 8) (of_nat i :: u16)"
  have upt: "[0..<2 ^ Suc k] = [0..<2 ^ k] @ map (\<lambda>j. 2 ^ k + j) [0..<2 ^ k]"
    using map_add_upt [of "2 ^ k" "2 ^ k"] upt_add_eq_append [of 0 "2 ^ k" "2 ^ k"]
    by (simp add: mult_2 add.commute)
  have "map (\<lambda>t. t XOR ?f (2 ^ k)) (map ?f [0..<2 ^ k]) = map ?f (map (\<lambda>j. 2 ^ k + j) [0..<2 ^ k])"
    using lfsr_pow_xor of_nat_power_add by (simp add: del: of_nat_add of_nat_power)
  then show ?case
    using Suc by (simp only: upt upt_Suc le0 if_True map_append xor_span_def foldl_append list.map foldl_Cons foldl_Nil)
qed (simp add: xor_span_def lfsr_pow_0)

lemma lfsr8: "(lfsr ^^ 8) x = lfsr (lfsr (lfsr (lfsr (lfsr (lfsr (lfsr (lfsr x)))))))"
  by (simp add: numeral_eq_Suc)

lemma lfsr8_single_bits:
  "map (\<lambda>i. (lfsr ^^ 8) (of_nat (2 ^ i))) [0..<8] =
    [0x365E, 0x6CBC, 0xD978, 0xFF89, 0xB26B, 0x29AF, 0x535E, 0xA6BC]"
  by (simp add: lfsr8 upt_rec lfsr_def)

lemma crc_table_lfsr: "crc_table = map (\<lambda>i. (lfsr ^^ 8) (of_nat i)) [0..<256]"
proof -
  have "crc_table = xor_span [0x365E, 0x6CBC, 0xD978, 0xFF89, 0xB26B, 0x29AF, 0x535E, 0xA6BC]"
    by (simp add: xor_span_def crc_table_def)
  also have "\<dots> = map (\<lambda>i. (lfsr ^^ 8) (of_nat i)) [0..<2 ^ 8]"
    unfolding lfsr8_single_bits [symmetric] by (rule xor_span_lfsr)
  finally show ?thesis by simp
qed

lemma crc_table_nth: "i < 256 \<Longrightarrow> crc_table ! i = (lfsr ^^ 8) (of_nat i)"
  unfolding crc_table_lfsr using nth_map_upt [of i 256 0 "\<lambda>i. (lfsr ^^ 8) (of_nat i)"] by simp

text \<open>One table step is eight turns of the register.\<close>

lemma table_update_lfsr: "table_update crc b = (lfsr ^^ 8) (crc XOR ucast b)"
proof -
  define x where "x = crc XOR ucast b"
  have ff: "(0xFF :: u16) = mask 8" by (simp add: mask_eq_exp_minus_1)
  have small: "unat (x AND 0xFF) < 256"
  proof -
    have "x AND 0xFF \<le> 0xFF" by (rule word_and_le1)
    then have "unat (x AND 0xFF) \<le> unat (0xFF :: u16)" by (simp only: word_le_nat_alt)
    then show ?thesis by simp
  qed
  have "crc_table ! unat (x AND 0xFF) = (lfsr ^^ 8) (x AND 0xFF)"
    by (simp add: crc_table_nth [OF small])
  moreover have "(lfsr ^^ 8) (x AND NOT 0xFF) = drop_bit 8 (x AND NOT 0xFF)"
  proof (rule lfsr_pow_low_zero)
    fix i :: nat assume "i < 8"
    then show "\<not> bit (x AND NOT 0xFF) i" unfolding ff by (simp add: bit_simps)
  qed
  moreover have "drop_bit 8 (x AND NOT 0xFF) = drop_bit 8 crc"
  proof (rule bit_word_eqI)
    fix n assume "n < LENGTH(16)"
    then show "bit (drop_bit 8 (x AND NOT 0xFF)) n \<longleftrightarrow> bit (drop_bit 8 crc) n"
      unfolding ff by (auto simp: x_def bit_simps dest: bit_imp_le_length)
  qed
  moreover have "x = (x AND 0xFF) XOR (x AND NOT 0xFF)"
    by (rule bit_word_eqI) (auto simp: bit_simps)
  then have "(lfsr ^^ 8) x = (lfsr ^^ 8) (x AND 0xFF) XOR (lfsr ^^ 8) (x AND NOT 0xFF)"
    using lfsr_pow_xor by metis
  ultimately show ?thesis by (simp add: table_update_def x_def)
qed

lemma crc_table_high: "i < 256 \<Longrightarrow> i \<noteq> 0 \<Longrightarrow> 256 \<le> crc_table ! i"
proof -
  assume i: "i < 256" "i \<noteq> 0"
  have "list_all (\<lambda>w. 256 \<le> w) (tl crc_table)" by (simp add: crc_table_def)
  moreover have "length crc_table = 256" by (simp add: crc_table_def)
  then have "tl crc_table ! (i - 1) = crc_table ! i" "i - 1 < length (tl crc_table)"
    using i by (simp_all add: nth_tl)
  ultimately show ?thesis unfolding list_all_length by metis
qed

lemma xor_self_left: "x XOR (x XOR y) = (y :: 'a::len word)"
  by (simp flip: xor.assoc)

lemma xor_cancel_left: "x XOR y = x XOR z \<longleftrightarrow> y = (z :: 'a::len word)"
proof
  assume "x XOR y = x XOR z"
  then have "x XOR (x XOR y) = x XOR (x XOR z)" by (rule arg_cong)
  then show "y = z" by (simp only: xor_self_left)
qed simp

lemma xor_cancel_right: "y XOR x = z XOR x \<longleftrightarrow> y = (z :: 'a::len word)"
  by (simp only: xor.commute [of _ x] xor_cancel_left)

lemma xor_move:
  assumes "x XOR b = y XOR (d :: 'a::len word)"
  shows "x XOR y = b XOR d"
proof -
  have "b XOR d = (x XOR (x XOR b)) XOR d" by (simp only: xor_self_left)
  also have "\<dots> = x XOR ((y XOR d) XOR d)" by (simp only: assms xor.assoc)
  also have "\<dots> = x XOR y" by (simp add: xor.assoc)
  finally show ?thesis by (rule sym)
qed

lemma lfsr8_byte:
  fixes d e :: u8
  assumes "(lfsr ^^ 8) (ucast d) = ucast e"
  shows "d = 0"
proof (rule ccontr)
  assume "d \<noteq> 0"
  have d: "unat d < 256" by (rule unat_byte_less)
  have "crc_table ! unat d = (lfsr ^^ 8) (of_nat (unat d))" by (rule crc_table_nth [OF d])
  moreover have "(of_nat (unat d) :: u16) = ucast d" by (rule of_nat_unat)
  ultimately have "crc_table ! unat d = ucast e" using assms by (simp only:)
  moreover have "unat d \<noteq> 0" using \<open>d \<noteq> 0\<close> by (simp add: unat_eq_0)
  then have "256 \<le> crc_table ! unat d" using crc_table_high d by blast
  ultimately have "(256 :: u16) \<le> ucast e" by simp
  moreover have "uint e < 256" using uint_lt2p [of e] by simp
  then have "take_bit 16 (uint e) = uint e" by (intro take_bit_int_eq_self) simp_all
  then have "uint (ucast e :: u16) < 256" using \<open>uint e < 256\<close> by (simp add: unsigned_ucast_eq)
  ultimately show False by (simp add: word_le_def)
qed

section \<open>Error detection\<close>

lemma foldl_update_inj: "foldl table_update s xs = foldl table_update t xs \<longleftrightarrow> s = t"
proof (induction xs arbitrary: s t)
  case (Cons x xs)
  have "table_update s x = table_update t x \<longleftrightarrow> s = t"
    by (simp only: table_update_lfsr lfsr_pow_inj xor_cancel_right)
  then show ?case using Cons.IH by simp
qed simp

lemma ucast_byte_inj: "(ucast a :: u16) = ucast b \<longleftrightarrow> a = (b :: u8)"
proof -
  have "ucast (ucast c :: u16) = c" for c :: u8
    by (rule bit_word_eqI) (simp add: bit_simps)
  then show ?thesis by metis
qed

lemma two_bytes_detected:
  assumes "table_update (table_update s a) b = table_update (table_update s c) d"
  shows "a = c \<and> b = d"
proof -
  define x y where "x = (lfsr ^^ 8) (s XOR ucast a)" and "y = (lfsr ^^ 8) (s XOR ucast c)"
  have eq: "x XOR ucast b = y XOR ucast d"
    using assms unfolding table_update_lfsr lfsr_pow_inj x_def y_def .
  have split: "ucast (a XOR c) = (s XOR ucast a) XOR (s XOR ucast c)"
    "ucast (b XOR d) = (ucast b XOR ucast d :: u16)"
    by (rule bit_word_eqI; auto simp: bit_simps)+
  have "x XOR y = ucast b XOR ucast d" using eq by (rule xor_move)
  moreover have "(lfsr ^^ 8) (ucast (a XOR c)) = x XOR y"
    by (simp only: split(1) x_def y_def lfsr_pow_xor)
  ultimately have "(lfsr ^^ 8) (ucast (a XOR c)) = (ucast (b XOR d) :: u16)"
    by (simp only: split(2))
  then have "a = c" using lfsr8_byte xor_eq_0 by blast
  then have "b = d" using eq by (simp add: x_def y_def xor_cancel_left ucast_byte_inj)
  then show ?thesis using \<open>a = c\<close> by simp
qed

section \<open>Properties\<close>

text \<open>
  C38. The table in the frame checker and the bit loop of the example bytecode compute the same
  checksum: one table step is eight rounds of the shift register for every accumulator and every
  byte, so the two agree on every message.
\<close>

theorem crc_table_bitwise:
  "table_update crc b = compute_crc crc b \<and> dnp3_crc data = NOT (foldl compute_crc 0 data)"
proof -
  have eq: "table_update = compute_crc"
    by (intro ext) (simp add: table_update_lfsr compute_crc_lfsr)
  show ?thesis by (simp add: dnp3_crc_def eq)
qed

text \<open>
  The DNP3 checksum detects every corruption confined to two adjacent bytes, in particular
  every single-byte error and every burst of up to 9 bits, wherever it is in a message of any
  length.
\<close>

theorem dnp3_crc_detects:
  assumes "(a, b) \<noteq> (c, d)"
  shows "dnp3_crc (pre @ [a, b] @ post) \<noteq> dnp3_crc (pre @ [c, d] @ post)"
  using assms two_bytes_detected [of "foldl table_update 0 pre" a b c d]
  by (auto simp: dnp3_crc_def foldl_update_inj)

theorem dnp3_crc_detects_witness: "dnp3_crc ([1] @ [2, 3] @ [4]) \<noteq> dnp3_crc ([1] @ [2, 7] @ [4])"
  by (rule dnp3_crc_detects) simp

end
