(* ===== verification/DNP3Frame.thy ===== *)
theory DNP3Frame
  imports Framing Crc
begin

text \<open>
  The DNP3 link-layer checker of \<open>src/src/ProtoConv/DNP3FrameChecker.cpp\<close>: finding the start bytes,
  checking the header and the data blocks against their checksums, and the frame it reports. Lengths
  are \<open>size_t\<close>: the subtractions that can wrap are written with \<open>size_sub\<close>. A reference encoder of
  link frames (IEEE 1815, not part of the program) states what the checker has to accept.
\<close>

section \<open>Start bytes\<close>

text \<open>The loop of \<open>StartBytesOffset\<close>: the count of unframed bytes and the last byte seen.\<close>

fun start_scan :: "u8 list \<Rightarrow> nat \<Rightarrow> u8 \<Rightarrow> nat \<times> u8" where
  "start_scan [] num prev = (num, prev)"
| "start_scan (b # bs) num prev =
    (if prev = 0x05 \<and> b = 0x64 then (num, prev) else start_scan bs (num + 1) b)"

definition start_bytes_offset :: "u8 list \<Rightarrow> nat" where
  "start_bytes_offset buf =
    (case start_scan buf 0 0 of (num, prev) \<Rightarrow> if prev = 0x05 then num - 1 else num)"

section \<open>Checksums\<close>

fun crc_loop :: "nat \<Rightarrow> nat \<Rightarrow> u8 list \<Rightarrow> nat \<Rightarrow> u16 \<Rightarrow> u8 \<Rightarrow> bool \<times> u8" where
  "crc_loop n ret [] i crc return_byte = (True, return_byte)"
| "crc_loop n ret (b # bs) i crc return_byte =
    (if i > size_add n 1 then (True, return_byte)
     else if i < n then
       (let crc1 = table_update crc b;
            return_byte1 = (if i = ret then b else return_byte);
            crc2 = (if i = size_sub n 1 then NOT crc1 else crc1)
        in crc_loop n ret bs (i + 1) crc2 return_byte1)
     else if i = n \<and> b \<noteq> ucast (crc AND 0xFF) then (False, 0)
     else if i = size_add n 1 \<and> b \<noteq> ucast (drop_bit 8 crc) then (False, 0)
     else crc_loop n ret bs (i + 1) crc return_byte)"

definition crc_check :: "u8 list \<Rightarrow> nat \<Rightarrow> nat \<Rightarrow> nat \<Rightarrow> bool \<times> u8" where
  "crc_check readbuf start_offset n return_offset =
    (if length readbuf < size_add (size_add start_offset n) 2 then (False, 0)
     else crc_loop n (size_sub return_offset start_offset) (drop start_offset readbuf) 0 0 0)"

definition crc_checked_length :: "u8 list \<Rightarrow> nat" where
  "crc_checked_length readbuf =
    (case crc_check readbuf 0 8 2 of
       (good, b) \<Rightarrow>
         if \<not> good then 0
         else
           let len = unat b; user_data = size_sub len 5
           in (len + (5 + 2 * (user_data div 16) + (if user_data mod 16 \<noteq> 0 then 2 else 0))) mod 2 ^ 64)"

section \<open>Frames\<close>

text \<open>The loop over the data blocks: whether the last block checked was good, and where it ends.\<close>

function check_blocks :: "u8 list \<Rightarrow> nat \<Rightarrow> nat \<Rightarrow> bool \<times> nat" where
  "check_blocks readbuf len start_offset =
    (let left = size_sub len start_offset;
         n = (if left \<ge> 18 then 16 else size_sub left 2);
         good = fst (crc_check readbuf start_offset n 0);
         next_offset = start_offset + 18
     in if good \<and> next_offset < len then check_blocks readbuf len next_offset else (good, next_offset))"
  by auto
termination by (relation "measure (\<lambda>(buf, len, start). len - start)") auto

declare check_blocks.simps [simp del]

definition src_dst_flow :: "u8 \<Rightarrow> u8 \<Rightarrow> u8 \<Rightarrow> u8 \<Rightarrow> u32" where
  "src_dst_flow dst_lsb dst_msb src_lsb src_msb =
    push_bit 24 (ucast src_msb) + push_bit 16 (ucast src_lsb) + push_bit 8 (ucast dst_msb) + ucast dst_lsb"

definition dnp3_check :: "u8 list \<Rightarrow> frame" where
  "dnp3_check readbuf =
    (if length readbuf < 1 then raw_frame 0
     else if start_bytes_offset readbuf \<noteq> 0 then raw_frame (start_bytes_offset readbuf)
     else if length readbuf \<ge> 10 then
       (let len = crc_checked_length readbuf in
        if len = 0 then raw_frame 2
        else if length readbuf < len then raw_frame 0
        else
          let src_dst = src_dst_flow (readbuf ! 4) (readbuf ! 5) (readbuf ! 6) (readbuf ! 7) in
          if len = 10 then mk_frame len True True (ucast src_dst) 0
          else
            let tx_ctl_byte = readbuf ! 10;
                tx_fin = bit tx_ctl_byte 7; tx_fir = bit tx_ctl_byte 6;
                tx_seq = unat (tx_ctl_byte AND 0x3F)
            in case check_blocks readbuf len 10 of
                 (good, start_offset) \<Rightarrow>
                   if good then mk_frame len tx_fir tx_fin (ucast src_dst) tx_seq
                   else raw_frame (start_offset - 18))
     else raw_frame 0)"

section \<open>Bounds\<close>

lemma start_scan_le: "start_scan bs num prev = (m, p) \<Longrightarrow> num \<le> m \<and> m \<le> num + length bs"
  by (induction bs num prev rule: start_scan.induct) (auto split: if_splits)

lemma start_bytes_offset_le: "start_bytes_offset buf \<le> length buf"
  using start_scan_le [of buf 0 0] by (auto simp: start_bytes_offset_def split: prod.split)

definition block_size :: "nat \<Rightarrow> nat \<Rightarrow> nat" where
  "block_size len start = (if size_sub len start \<ge> 18 then 16 else size_sub (size_sub len start) 2)"

lemma check_blocks_unfold:
  "check_blocks buf len start =
    (if fst (crc_check buf start (block_size len start) 0) \<and> start + 18 < len
     then check_blocks buf len (start + 18)
     else (fst (crc_check buf start (block_size len start) 0), start + 18))"
  by (subst check_blocks.simps) (simp only: Let_def block_size_def)

lemma check_blocks_le:
  "start < len \<Longrightarrow> start + 18 \<le> snd (check_blocks buf len start)
    \<and> snd (check_blocks buf len start) < len + 18"
proof (induction "len - start" arbitrary: start rule: less_induct)
  case less
  show ?case
  proof (cases "fst (crc_check buf start (block_size len start) 0) \<and> start + 18 < len")
    case True
    then have next_le: "start + 18 < len" by (rule conjunct2)
    then have "len - (start + 18) < len - start" by linarith
    then show ?thesis using less.hyps [OF _ next_le] check_blocks_unfold [of buf len start] True by auto
  next
    case False
    then have "check_blocks buf len start = (fst (crc_check buf start (block_size len start) 0), start + 18)"
      using check_blocks_unfold [of buf len start] by (simp only: if_False)
    then show ?thesis using less.prems by simp
  qed
qed

text \<open>The frame length of a header whose length byte is \<open>n\<close>.\<close>

definition full_length :: "nat \<Rightarrow> nat" where
  "full_length n = 10 + (n - 5) + 2 * ((n - 5 + 15) div 16)"

lemma round_up_16: "((u :: nat) + 15) div 16 = u div 16 + (if u mod 16 \<noteq> 0 then 1 else 0)"
proof -
  have "(u + 15) div 16 = (16 * (u div 16) + (u mod 16 + 15)) div 16" by simp
  also have "\<dots> = u div 16 + (u mod 16 + 15) div 16"
    by (simp only: div_mult_self4 zero_neq_numeral not_False_eq_True)
  also have "(u mod 16 + 15) div 16 = (if u mod 16 \<noteq> 0 then 1 else 0)"
    using mod_less_divisor [of 16 u] by (auto intro: div_nat_eqI)
  finally show ?thesis .
qed

lemma length_formula:
  assumes "5 \<le> n" "n < 256"
  shows "(n + (5 + 2 * (size_sub n 5 div 16) + (if size_sub n 5 mod 16 \<noteq> 0 then 2 else 0))) mod 2 ^ 64
    = full_length n"
proof -
  have sub: "size_sub n 5 = n - 5" using assms by (intro size_sub_le) simp_all
  define u where "u = n - 5"
  then have u: "n = u + 5" "u < 251" using assms by simp_all
  have eq: "n + (5 + 2 * (u div 16) + (if u mod 16 \<noteq> 0 then 2 else 0)) = full_length n"
    by (simp add: full_length_def u(1) round_up_16)
  have "full_length n < 10 + 251 + 2 * 266" using u(2) div_le_dividend [of "u + 15" 16]
    by (simp add: full_length_def u(1))
  then have "full_length n < 2 ^ 64" by (rule less_trans) simp
  then show ?thesis using eq sub u(1) by (simp only: diff_add_inverse2 mod_less)
qed

lemma length_underflow:
  assumes "n < 5"
  shows "2 ^ 60 < (n + (5 + 2 * (size_sub n 5 div 16) + (if size_sub n 5 mod 16 \<noteq> 0 then 2 else 0))) mod 2 ^ 64"
proof -
  from assms consider "n = 0" | "n = 1" | "n = 2" | "n = 3" | "n = 4" by linarith
  then show ?thesis by cases (simp_all add: size_sub_def)
qed

lemma crc_checked_length_good:
  assumes "crc_check buf 0 8 2 = (True, b)"
  shows "if unat b < 5 then 2 ^ 60 < crc_checked_length buf else crc_checked_length buf = full_length (unat b)"
  using length_formula [of "unat b"] length_underflow [of "unat b"] unat_byte_less [of b]
  by (simp add: crc_checked_length_def assms Let_def)

lemma crc_checked_length_ge: "crc_checked_length buf = 0 \<or> 10 \<le> crc_checked_length buf"
proof (cases "crc_check buf 0 8 2")
  case (Pair good b)
  show ?thesis
  proof (cases good)
    case True
    then show ?thesis using crc_checked_length_good [of buf b] Pair
      by (simp add: full_length_def split: if_splits)
  next
    case False
    then show ?thesis by (simp add: crc_checked_length_def Pair)
  qed
qed

interpretation dnp3: frame_checker dnp3_check
proof
  show "fr_len (dnp3_check buf) \<le> length buf" for buf
  proof (cases "10 < crc_checked_length buf")
    case True
    then show ?thesis
      using start_bytes_offset_le [of buf] check_blocks_le [of 10 "crc_checked_length buf" buf]
      by (auto simp: dnp3_check_def Let_def split: prod.split)
  next
    case False
    then have "crc_checked_length buf = 0 \<or> crc_checked_length buf = 10"
      using crc_checked_length_ge [of buf] by auto
    then show ?thesis using start_bytes_offset_le [of buf] by (auto simp: dnp3_check_def Let_def)
  qed
qed

section \<open>What the checksum check decides\<close>

definition crc_bytes :: "u8 list \<Rightarrow> u8 list" where
  "crc_bytes bs = (let c = dnp3_crc bs in [ucast (c AND 0xFF), ucast (drop_bit 8 c)])"

lemma length_crc_bytes [simp]: "length (crc_bytes bs) = 2"
  by (simp add: crc_bytes_def Let_def)

lemma crc_loop_block:
  assumes "bs \<noteq> []" "i + length bs = n" "n + 2 < 2 ^ 64"
  shows "crc_loop n ret (bs @ rest) i crc rb =
    crc_loop n ret rest n (NOT (foldl table_update crc bs))
      (if i \<le> ret \<and> ret < n then bs ! (ret - i) else rb)"
  using assms
proof (induction bs arbitrary: i crc rb)
  case (Cons b bs)
  have sizes: "size_sub n 1 = n - 1" "i < n"
    using Cons.prems by (auto intro!: size_sub_le)
  have "size_add n 1 = n + 1" using Cons.prems(3) by (intro size_add_small) linarith
  note sizes = this sizes
  show ?case
  proof (cases "bs = []")
    case True
    then show ?thesis using Cons.prems sizes by (auto simp: Let_def)
  next
    case False
    then have "i \<noteq> n - 1" using Cons.prems by (cases bs) auto
    then have "crc_loop n ret ((b # bs) @ rest) i crc rb =
        crc_loop n ret (bs @ rest) (i + 1) (table_update crc b) (if i = ret then b else rb)"
      using sizes by (simp add: Let_def)
    also have "\<dots> = crc_loop n ret rest n (NOT (foldl table_update (table_update crc b) bs))
        (if i + 1 \<le> ret \<and> ret < n then bs ! (ret - (i + 1)) else if i = ret then b else rb)"
      using Cons.IH [of "i + 1"] Cons.prems False by simp
    also have "(if i + 1 \<le> ret \<and> ret < n then bs ! (ret - (i + 1)) else if i = ret then b else rb) =
        (if i \<le> ret \<and> ret < n then (b # bs) ! (ret - i) else rb)"
      using sizes(3) by (auto simp: nth_Cons')
    finally show ?thesis by simp
  qed
qed simp

lemma crc_loop_tail:
  assumes "n + 2 < 2 ^ 64"
  shows "crc_loop n ret (lo # hi # rest) n crc rb =
    (if [lo, hi] = [ucast (crc AND 0xFF), ucast (drop_bit 8 crc)] then (True, rb) else (False, 0))"
proof -
  have "size_add n 1 = n + 1" using assms by (intro size_add_small) simp
  then show ?thesis by (cases rest) auto
qed

text \<open>The check of \<open>n\<close> bytes from \<open>start\<close> compares the next two bytes with their checksum.\<close>

lemma crc_check_eq:
  assumes "1 \<le> n" "start + n + 2 \<le> length buf" "start + n + 2 < 2 ^ 64"
  shows "crc_check buf start n ret =
    (if take 2 (drop (start + n) buf) = crc_bytes (take n (drop start buf))
     then (True, if size_sub ret start < n then buf ! (start + size_sub ret start) else 0)
     else (False, 0))"
proof -
  let ?bs = "take n (drop start buf)"
  have len: "length ?bs = n" using assms(2) by simp
  have "2 \<le> length (drop (start + n) buf)" using assms(2) by simp
  then obtain lo hi rest where tail: "drop (start + n) buf = lo # hi # rest"
    by (metis One_nat_def Suc_1 Suc_le_length_iff)
  have buf: "drop start buf = ?bs @ lo # hi # rest"
    using tail append_take_drop_id [of n "drop start buf"] by (simp add: add.commute)
  have sizes: "size_add (size_add start n) 2 = start + n + 2"
    using assms(3) by (simp add: size_add_small)
  have "crc_check buf start n ret = crc_loop n (size_sub ret start) (?bs @ lo # hi # rest) 0 0 0"
    using assms(2) sizes buf by (simp add: crc_check_def del: append_take_drop_id)
  also have "\<dots> = crc_loop n (size_sub ret start) (lo # hi # rest) n (dnp3_crc ?bs)
      (if size_sub ret start < n then ?bs ! size_sub ret start else 0)"
    using crc_loop_block [of ?bs 0 n] len assms(1,3) by (auto simp: dnp3_crc_def)
  also have "\<dots> = (if [lo, hi] = crc_bytes ?bs
      then (True, if size_sub ret start < n then ?bs ! size_sub ret start else 0) else (False, 0))"
    using assms(3) by (subst crc_loop_tail) (simp_all add: crc_bytes_def Let_def)
  also have "(if size_sub ret start < n then ?bs ! size_sub ret start else 0) =
      (if size_sub ret start < n then buf ! (start + size_sub ret start) else 0)"
    using assms(2) by simp
  finally show ?thesis using tail by simp
qed

section \<open>Link frames\<close>

text \<open>The reference encoder: a header of eight bytes and blocks of up to 16, each with its checksum.\<close>

definition dnp3_block :: "u8 list \<Rightarrow> u8 list" where
  "dnp3_block bs = bs @ crc_bytes bs"

fun dnp3_body :: "u8 list \<Rightarrow> u8 list" where
  "dnp3_body data =
    (if data = [] then [] else dnp3_block (take 16 data) @ dnp3_body (drop 16 data))"

declare dnp3_body.simps [simp del]

record link_msg =
  lm_ctl :: u8
  lm_dst :: u16
  lm_src :: u16
  lm_data :: "u8 list"

definition dnp3_header :: "link_msg \<Rightarrow> u8 list" where
  "dnp3_header m =
    [0x05, 0x64, of_nat (length (lm_data m) + 5), lm_ctl m] @ le_bytes 2 (ucast (lm_dst m))
      @ le_bytes 2 (ucast (lm_src m))"

definition dnp3_encode :: "link_msg \<Rightarrow> u8 list" where
  "dnp3_encode m = dnp3_block (dnp3_header m) @ dnp3_body (lm_data m)"

text \<open>The frame the checker should report.\<close>

definition link_flow :: "link_msg \<Rightarrow> u64" where
  "link_flow m = push_bit 16 (ucast (lm_src m)) + ucast (lm_dst m)"

definition link_frame :: "link_msg \<Rightarrow> frame" where
  "link_frame m =
    (let n = length (dnp3_encode m) in
     if lm_data m = [] then mk_frame n True True (link_flow m) 0
     else let tx = hd (lm_data m)
       in mk_frame n (bit tx 6) (bit tx 7) (link_flow m) (unat (tx AND 0x3F)))"

lemma length_dnp3_block [simp]: "length (dnp3_block bs) = length bs + 2"
  by (simp add: dnp3_block_def)

lemma length_dnp3_header [simp]: "length (dnp3_header m) = 8"
  by (simp add: dnp3_header_def)

lemma length_dnp3_body: "length (dnp3_body data) = length data + 2 * ((length data + 15) div 16)"
proof (induction data rule: dnp3_body.induct)
  case (1 data)
  show ?case
  proof (cases "length data \<le> 16")
    case True
    then show ?thesis
      by (subst dnp3_body.simps) (auto simp: dnp3_body.simps [of "[]"] div_nat_eqI Suc_le_eq)
  next
    case False
    then have "(length data + 15) div 16 = Suc ((length data - 16 + 15) div 16)"
      by (subst le_div_geq) simp_all
    then show ?thesis using 1 False by (subst dnp3_body.simps) auto
  qed
qed

lemma length_dnp3_encode: "length (dnp3_encode m) = full_length (length (lm_data m) + 5)"
  by (simp add: dnp3_encode_def length_dnp3_body full_length_def)

text \<open>The block loop accepts exactly the bodies of the encoder.\<close>

lemma block_size_eq:
  assumes "start + u + 2 * ((u + 15) div 16) = len" "len < 2 ^ 64" "1 \<le> u"
  shows "block_size len start = min 16 u" "start + 18 < len \<longleftrightarrow> 16 < u"
proof -
  have left: "size_sub len start = u + 2 * ((u + 15) div 16)"
    using assms(1,2) by (subst size_sub_le) simp_all
  have "block_size len start = min 16 u \<and> (start + 18 < len \<longleftrightarrow> 16 < u)"
  proof (cases "u \<le> 16")
    case True
    then have "(u + 15) div 16 = 1" using assms(3) by (intro div_nat_eqI) simp_all
    then show ?thesis using True left assms(1,3)
      by (auto simp: block_size_def size_sub_le)
  next
    case False
    then have "2 \<le> (u + 15) div 16" by (simp add: less_eq_div_iff_mult_less_eq)
    then show ?thesis using False left assms(1) by (auto simp: block_size_def)
  qed
  then show "block_size len start = min 16 u" "start + 18 < len \<longleftrightarrow> 16 < u" by simp_all
qed

lemma dnp3_body_append: "length bs = 16 \<Longrightarrow> dnp3_body (bs @ data) = dnp3_block bs @ dnp3_body data"
  by (subst dnp3_body.simps) auto

lemma take_block:
  assumes "length bs = n" "n + 2 \<le> length xs"
  shows "take (n + 2) xs = dnp3_block bs \<longleftrightarrow> bs = take n xs \<and> take 2 (drop n xs) = crc_bytes bs"
proof -
  have "length (take n xs) = length bs" using assms by simp
  then show ?thesis unfolding take_add [of n 2 xs] dnp3_block_def by (auto simp: append_eq_append_conv)
qed

lemma body_last:
  assumes "1 \<le> u" "u \<le> 16" "u + 2 \<le> length xs"
  shows "(\<exists>data. length data = u \<and> take (u + 2) xs = dnp3_body data) \<longleftrightarrow>
    take 2 (drop u xs) = crc_bytes (take u xs)"
proof -
  have "dnp3_body data = dnp3_block data" if "length data = u" for data
    using that assms by (subst dnp3_body.simps) (auto simp: dnp3_body.simps [of "[]"])
  then have "(\<exists>data. length data = u \<and> take (u + 2) xs = dnp3_body data) \<longleftrightarrow>
      (\<exists>data. length data = u \<and> take (u + 2) xs = dnp3_block data)" by metis
  also have "\<dots> \<longleftrightarrow> (\<exists>data. length data = u \<and> data = take u xs \<and> take 2 (drop u xs) = crc_bytes data)"
    using take_block [OF _ assms(3)] by blast
  finally show ?thesis using assms by auto
qed

lemma body_more:
  assumes "16 < u" "18 \<le> length xs"
  shows "(\<exists>data. length data = u \<and> take (18 + k) xs = dnp3_body data) \<longleftrightarrow>
    take 2 (drop 16 xs) = crc_bytes (take 16 xs)
      \<and> (\<exists>data. length data = u - 16 \<and> take k (drop 18 xs) = dnp3_body data)" (is "?l \<longleftrightarrow> ?r")
proof
  assume ?l
  then obtain data where d: "length data = u" "take (18 + k) xs = dnp3_body data" by blast
  have "dnp3_body data = dnp3_block (take 16 data) @ dnp3_body (drop 16 data)"
    using d(1) assms(1) dnp3_body_append [of "take 16 data" "drop 16 data"] by simp
  then have "take 18 xs = dnp3_block (take 16 data) \<and> take k (drop 18 xs) = dnp3_body (drop 16 data)"
    using d assms unfolding take_add by (simp add: append_eq_append_conv)
  then show ?r
    using take_block [of "take 16 data" 16 xs] d(1) assms by (auto intro!: exI [of _ "drop 16 data"])
next
  assume r: ?r
  then obtain data where d: "length data = u - 16" "take k (drop 18 xs) = dnp3_body data" by blast
  have "take 18 xs = dnp3_block (take 16 xs)"
    using r take_block [of "take 16 xs" 16 xs] assms(2) by simp
  then have "take (18 + k) xs = dnp3_body (take 16 xs @ data)"
    using d(2) assms(2) unfolding take_add by (simp add: dnp3_body_append)
  then show ?l using d(1) assms by (intro exI [of _ "take 16 xs @ data"]) simp
qed

lemma check_blocks_iff:
  assumes "1 \<le> u" "start + u + 2 * ((u + 15) div 16) = len" "len \<le> length buf" "len < 2 ^ 64"
  shows "fst (check_blocks buf len start) \<longleftrightarrow>
    (\<exists>data. length data = u \<and> take (len - start) (drop start buf) = dnp3_body data)"
  using assms
proof (induction u arbitrary: start rule: less_induct)
  case (less u)
  let ?n = "min 16 u" and ?xs = "drop start buf"
  have size: "block_size len start = ?n" "start + 18 < len \<longleftrightarrow> 16 < u"
    using block_size_eq less.prems by blast+
  have "1 \<le> (u + 15) div 16" using less.prems(1) by (simp add: less_eq_div_iff_mult_less_eq)
  then have "?n + 2 \<le> u + 2 * ((u + 15) div 16)" by auto
  then have bounds: "start + ?n + 2 \<le> length buf" "start + ?n + 2 < 2 ^ 64"
    using less.prems by linarith+
  have good: "fst (crc_check buf start ?n 0) \<longleftrightarrow> take 2 (drop ?n ?xs) = crc_bytes (take ?n ?xs)"
    using less.prems(1) bounds by (subst crc_check_eq) (simp_all add: add.commute)
  show ?case
  proof (cases "16 < u")
    case False
    then have "(u + 15) div 16 = 1" using less.prems(1) by (intro div_nat_eqI) simp_all
    then have "len - start = u + 2" using less.prems(2) by simp
    then show ?thesis
      using good size False body_last [of u ?xs] less.prems(1) bounds(1)
      by (simp add: check_blocks_unfold min_def)
  next
    case True
    have next_u: "start + 18 + (u - 16) + 2 * ((u - 16 + 15) div 16) = len"
      using less.prems(2) True by (subst (asm) le_div_geq) simp_all
    then have len: "len - start = 18 + (len - (start + 18))" by linarith
    have "fst (check_blocks buf len (start + 18)) \<longleftrightarrow>
        (\<exists>data. length data = u - 16 \<and> take (len - (start + 18)) (drop (start + 18) buf) = dnp3_body data)"
      using less.IH [OF _ _ next_u] less.prems True by simp
    then show ?thesis
      unfolding len using good size True body_more [of u ?xs "len - (start + 18)"] bounds(1)
      by (simp add: check_blocks_unfold [of _ _ start] min_def add.commute)
  qed
qed

section \<open>Headers\<close>

lemma start_bytes_offset_start: "start_bytes_offset (0x05 # 0x64 # rest) = 0"
  by (simp add: start_bytes_offset_def)

lemma start_bytes_offset_0:
  assumes "start_bytes_offset buf = 0" "2 \<le> length buf"
  obtains rest where "buf = 0x05 # 0x64 # rest"
proof -
  obtain a b rest where buf: "buf = a # b # rest" using assms(2) by (cases buf; cases "tl buf") auto
  show ?thesis
  proof (cases "a = 0x05 \<and> b = 0x64")
    case True
    then show ?thesis using that buf by blast
  next
    case False
    then have "start_scan buf 0 0 = start_scan rest (Suc (Suc 0)) b" by (auto simp: buf)
    then have "1 \<le> start_bytes_offset buf"
      using start_scan_le [of rest "Suc (Suc 0)" b] by (auto simp: start_bytes_offset_def split: prod.split)
    then show ?thesis using assms(1) by simp
  qed
qed

definition word_of :: "u8 \<Rightarrow> u8 \<Rightarrow> u16" where
  "word_of lo hi = push_bit 8 (ucast hi) OR ucast lo"

lemma bytes_word_of: "le_bytes 2 (ucast (word_of lo hi)) = [lo, hi]"
  by (auto simp: word_of_def numeral_2_eq_2 intro!: bit_word_eqI)
    (auto simp: bit_simps dest: bit_imp_le_length)

lemma word_of_bytes: "word_of (ucast w) (ucast (drop_bit 8 w)) = (w :: u16)"
  by (rule bit_word_eqI) (auto simp: word_of_def bit_simps)

lemma flow_word_of:
  "ucast (src_dst_flow d0 d1 s0 s1) = push_bit 16 (ucast (word_of s0 s1)) + (ucast (word_of d0 d1) :: u64)"
proof -
  have "src_dst_flow d0 d1 s0 s1 =
      push_bit 24 (ucast s1) OR push_bit 16 (ucast s0) OR push_bit 8 (ucast d1) OR ucast d0"
    unfolding src_dst_flow_def
    by (subst disjunctive_add; (subst disjunctive_add)?; (subst disjunctive_add)?)
      (auto simp: bit_simps or.assoc dest: bit_imp_le_length)
  moreover have "push_bit 16 (ucast (word_of s0 s1)) + (ucast (word_of d0 d1) :: u64) =
      push_bit 16 (ucast (word_of s0 s1)) OR ucast (word_of d0 d1)"
    by (rule disjunctive_add) (auto simp: word_of_def bit_simps dest: bit_imp_le_length)
  moreover have "ucast (push_bit 24 (ucast s1) OR push_bit 16 (ucast s0) OR push_bit 8 (ucast d1) OR ucast d0 :: u32)
      = (push_bit 16 (ucast (word_of s0 s1)) OR ucast (word_of d0 d1) :: u64)" (is "?x = ?y")
  proof (rule bit_word_eqI)
    fix n :: nat
    consider "n < 8" | "8 \<le> n \<and> n < 16" | "16 \<le> n \<and> n < 24" | "24 \<le> n \<and> n < 32" | "32 \<le> n" by linarith
    then show "bit ?x n \<longleftrightarrow> bit ?y n"
      by cases (auto simp: word_of_def bit_simps dest: bit_imp_le_length)
  qed
  ultimately show ?thesis by simp
qed

text \<open>The length a good header announces.\<close>

lemma header_checked:
  assumes "buf = dnp3_block h @ rest" "length h = 8"
  shows "crc_check buf 0 8 2 = (True, h ! 2)"
proof -
  have "take 8 buf = h" "take 2 (drop 8 buf) = crc_bytes h" "buf ! 2 = h ! 2" "10 \<le> length buf"
    using assms by (simp_all add: dnp3_block_def nth_append)
  moreover have "size_sub 2 0 = 2" by (simp add: size_sub_def)
  moreover have "h ! 2 = buf ! Suc (Suc 0)" using \<open>buf ! 2 = h ! 2\<close> by (simp add: numeral_2_eq_2)
  ultimately show ?thesis using crc_check_eq [of 8 0 buf 2] by simp
qed

lemma header_iff:
  assumes "10 \<le> length buf"
  shows "fst (crc_check buf 0 8 2) \<longleftrightarrow> (\<exists>h rest. length h = 8 \<and> buf = dnp3_block h @ rest)"
proof
  assume "fst (crc_check buf 0 8 2)"
  then have "take 2 (drop 8 buf) = crc_bytes (take 8 buf)"
    using crc_check_eq [of 8 0 buf 2] assms by (auto split: if_splits)
  then have "take (8 + 2) buf = dnp3_block (take 8 buf)"
    using take_block [of "take 8 buf" 8 buf] assms by simp
  then have "buf = dnp3_block (take 8 buf) @ drop (8 + 2) buf" by (metis append_take_drop_id)
  moreover have "length (take 8 buf) = 8" using assms by simp
  ultimately show "\<exists>h rest. length h = 8 \<and> buf = dnp3_block h @ rest" by blast
next
  show "\<exists>h rest. length h = 8 \<and> buf = dnp3_block h @ rest \<Longrightarrow> fst (crc_check buf 0 8 2)"
    using header_checked by fastforce
qed

section \<open>The checker on a good header\<close>

abbreviation header_of :: "u8 \<Rightarrow> u8 \<Rightarrow> u8 \<Rightarrow> u8 \<Rightarrow> u8 \<Rightarrow> u8 \<Rightarrow> u8 list" where
  "header_of l c d0 d1 s0 s1 \<equiv> [0x05, 0x64, l, c, d0, d1, s0, s1]"

definition head_flow :: "u8 \<Rightarrow> u8 \<Rightarrow> u8 \<Rightarrow> u8 \<Rightarrow> u64" where
  "head_flow d0 d1 s0 s1 = push_bit 16 (ucast (word_of s0 s1)) + ucast (word_of d0 d1)"

lemma header_length:
  assumes "buf = dnp3_block (header_of l c d0 d1 s0 s1) @ rest"
  shows "if unat l < 5 then 2 ^ 60 < crc_checked_length buf else crc_checked_length buf = full_length (unat l)"
  using header_checked [OF assms] by (intro crc_checked_length_good) simp

lemma dnp3_check_waits:
  assumes "buf = dnp3_block (header_of l c d0 d1 s0 s1) @ rest" "length buf < crc_checked_length buf"
  shows "dnp3_check buf = raw_frame 0"
proof -
  have "start_bytes_offset buf = 0" "10 \<le> length buf"
    using assms(1) by (simp_all add: dnp3_block_def start_bytes_offset_start)
  then show ?thesis using assms(2) by (auto simp: dnp3_check_def Let_def)
qed

lemma dnp3_check_full:
  assumes buf: "buf = dnp3_block (header_of l c d0 d1 s0 s1) @ rest"
    and len: "5 \<le> unat l" "full_length (unat l) \<le> length buf"
  shows "dnp3_check buf =
    (if unat l = 5 then mk_frame 10 True True (head_flow d0 d1 s0 s1) 0
     else if fst (check_blocks buf (full_length (unat l)) 10)
       then mk_frame (full_length (unat l)) (bit (hd rest) 6) (bit (hd rest) 7) (head_flow d0 d1 s0 s1)
         (unat (hd rest AND 0x3F))
     else raw_frame (snd (check_blocks buf (full_length (unat l)) 10) - 18))"
proof -
  have start: "start_bytes_offset buf = 0" "10 \<le> length buf"
    using buf by (simp_all add: dnp3_block_def start_bytes_offset_start)
  have l: "crc_checked_length buf = full_length (unat l)"
    using header_length [OF buf] len(1) by simp
  have bytes: "buf ! 4 = d0" "buf ! 5 = d1" "buf ! 6 = s0" "buf ! 7 = s1" "drop 10 buf = rest"
    by (simp_all add: buf dnp3_block_def)
  have flow: "ucast (src_dst_flow d0 d1 s0 s1) = head_flow d0 d1 s0 s1"
    by (simp add: flow_word_of head_flow_def)
  show ?thesis
  proof (cases "unat l = 5")
    case True
    then have "crc_checked_length buf = 10" using l by (simp add: full_length_def)
    then show ?thesis using start True flow by (auto simp: dnp3_check_def Let_def bytes)
  next
    case False
    then have long: "10 < full_length (unat l)" using len(1) by (simp add: full_length_def)
    then have "buf ! 10 = hd rest" using len(2) bytes(5) by (metis hd_drop_conv_nth less_le_trans)
    then show ?thesis using start l len(2) long flow False
      by (auto simp: dnp3_check_def Let_def bytes split: prod.split)
  qed
qed

section \<open>The checker on the frames of the encoder\<close>

definition link_ok :: "link_msg \<Rightarrow> bool" where
  "link_ok m \<longleftrightarrow> length (lm_data m) \<le> 250"

lemma header_bytes:
  obtains d0 d1 s0 s1 where
    "dnp3_header m = header_of (of_nat (length (lm_data m) + 5)) (lm_ctl m) d0 d1 s0 s1"
    "link_flow m = head_flow d0 d1 s0 s1"
proof -
  let ?b = "\<lambda>w. (ucast w, ucast (drop_bit 8 w)) :: u8 \<times> u8"
  have bytes: "le_bytes 2 (ucast w) = [fst (?b w), snd (?b w)]" "word_of (fst (?b w)) (snd (?b w)) = w" for w :: u16
    using bytes_word_of [of "fst (?b w)" "snd (?b w)"] by (simp_all add: word_of_bytes)
  show ?thesis
    by (rule that [of "fst (?b (lm_dst m))" "snd (?b (lm_dst m))" "fst (?b (lm_src m))" "snd (?b (lm_src m))"])
      (simp_all only: dnp3_header_def link_flow_def head_flow_def bytes append.simps)
qed

lemma unat_length_byte: "n < 256 \<Longrightarrow> unat (of_nat n :: u8) = n"
  by (simp add: unat_of_nat)

lemma full_length_less: "n < 256 \<Longrightarrow> full_length n < 2 ^ 64"
proof -
  assume "n < 256"
  then have "full_length n < 10 + 256 + 2 * 271"
    using div_le_dividend [of "n - 5 + 15" 16] by (simp add: full_length_def)
  then show ?thesis by (rule less_trans) simp
qed

lemma dnp3_check_found:
  assumes "link_ok m"
  shows "dnp3_check (dnp3_encode m @ extra) = link_frame m"
proof -
  let ?buf = "dnp3_encode m @ extra" and ?u = "length (lm_data m)"
  obtain d0 d1 s0 s1 where h: "dnp3_header m = header_of (of_nat (?u + 5)) (lm_ctl m) d0 d1 s0 s1"
    "link_flow m = head_flow d0 d1 s0 s1" by (rule header_bytes)
  have l: "unat (of_nat (?u + 5) :: u8) = ?u + 5"
    using assms by (intro unat_length_byte) (simp add: link_ok_def)
  have len: "full_length (?u + 5) = length (dnp3_encode m)" "full_length (?u + 5) < 2 ^ 64"
    using assms full_length_less [of "?u + 5"] by (simp_all add: length_dnp3_encode link_ok_def)
  have buf: "?buf = dnp3_block (header_of (of_nat (?u + 5)) (lm_ctl m) d0 d1 s0 s1) @ dnp3_body (lm_data m) @ extra"
    by (simp add: dnp3_encode_def h(1))
  have full: "dnp3_check ?buf =
    (if ?u = 0 then mk_frame 10 True True (link_flow m) 0
     else if fst (check_blocks ?buf (full_length (?u + 5)) 10)
       then mk_frame (full_length (?u + 5)) (bit (hd (dnp3_body (lm_data m) @ extra)) 6)
         (bit (hd (dnp3_body (lm_data m) @ extra)) 7) (link_flow m)
         (unat (hd (dnp3_body (lm_data m) @ extra) AND 0x3F))
     else raw_frame (snd (check_blocks ?buf (full_length (?u + 5)) 10) - 18))"
    using dnp3_check_full [OF buf] l h(2) len(1) by simp
  show ?thesis
  proof (cases "?u = 0")
    case True
    then show ?thesis using full length_dnp3_encode [of m] by (simp add: link_frame_def full_length_def)
  next
    case False
    have "take (full_length (?u + 5) - 10) (drop 10 ?buf) = dnp3_body (lm_data m)"
      using len(1) by (simp add: dnp3_encode_def)
    then have "fst (check_blocks ?buf (full_length (?u + 5)) 10)"
      using check_blocks_iff [of ?u 10 "full_length (?u + 5)" ?buf] False len by (auto simp: full_length_def)
    moreover have "hd (dnp3_body (lm_data m) @ extra) = hd (lm_data m)"
      using False by (subst dnp3_body.simps) (cases "lm_data m", auto simp: dnp3_block_def)
    ultimately show ?thesis using full False len by (simp add: link_frame_def Let_def)
  qed
qed

lemma dnp3_check_prefix:
  assumes "link_ok m" "dnp3_encode m = p @ q" "q \<noteq> []"
  shows "fr_len (dnp3_check p) = 0"
proof (cases "length p < 10")
  case True
  obtain rest where "p @ q = 0x05 # 0x64 # rest"
    using assms(2) by (metis dnp3_encode_def dnp3_block_def dnp3_header_def append_Cons append_assoc)
  then have "p = [] \<or> p = [0x05] \<or> (\<exists>r. p = 0x05 # 0x64 # r)"
    by (cases p; cases "tl p") auto
  then have "start_bytes_offset p = 0"
    by (auto simp: start_bytes_offset_start) (simp_all add: start_bytes_offset_def)
  then show ?thesis using True by (simp add: dnp3_check_def)
next
  case False
  obtain d0 d1 s0 s1 where h: "dnp3_header m = header_of (of_nat (length (lm_data m) + 5)) (lm_ctl m) d0 d1 s0 s1"
    by (rule header_bytes)
  have l: "unat (of_nat (length (lm_data m) + 5) :: u8) = length (lm_data m) + 5"
    using assms by (intro unat_length_byte) (simp add: link_ok_def)
  have "take 10 (dnp3_encode m) = dnp3_block (dnp3_header m)" by (simp add: dnp3_encode_def)
  then have "take 10 p = dnp3_block (dnp3_header m)" using assms(2) False by simp
  then have p: "p = dnp3_block (header_of (of_nat (length (lm_data m) + 5)) (lm_ctl m) d0 d1 s0 s1) @ drop 10 p"
    using append_take_drop_id [of 10 p] h by simp
  have "length p < length (dnp3_encode m)" using assms(2,3) by simp
  then have "length p < crc_checked_length p"
    using header_length [OF p] l by (simp add: length_dnp3_encode)
  then show ?thesis using dnp3_check_waits [OF p] by simp
qed

interpretation dnp3_code: frame_code dnp3_check link_ok dnp3_encode link_frame
proof
  show "fr_len (link_frame m) = length (dnp3_encode m)" for m
    by (simp add: link_frame_def Let_def)
  show "dnp3_encode m \<noteq> []" for m by (simp add: dnp3_encode_def dnp3_block_def dnp3_header_def)
qed (rule dnp3_check_found dnp3_check_prefix; assumption)+

section \<open>Nothing else is accepted\<close>

lemma raw_flow: "fr_flow (dnp3_check buf) \<noteq> 0 \<Longrightarrow>
    start_bytes_offset buf = 0 \<and> 10 \<le> length buf \<and> fst (crc_check buf 0 8 2)
      \<and> crc_checked_length buf \<le> length buf"
  by (auto simp: dnp3_check_def Let_def crc_checked_length_def split: if_splits prod.splits)

lemma header_cases:
  assumes "length h = 8" "dnp3_block h @ rest = 0x05 # 0x64 # tail"
  obtains l c d0 d1 s0 s1 where "h = header_of l c d0 d1 s0 s1"
proof -
  obtain a b l c d0 d1 s0 s1 where "h = [a, b, l, c, d0, d1, s0, s1]"
    using assms(1) by (auto simp: numeral_eq_Suc length_Suc_conv)
  then show ?thesis using that assms(2) by (simp add: dnp3_block_def)
qed

text \<open>The message whose header is given.\<close>

definition msg_of :: "u8 \<Rightarrow> u8 \<Rightarrow> u8 \<Rightarrow> u8 \<Rightarrow> u8 \<Rightarrow> u8 list \<Rightarrow> link_msg" where
  "msg_of c d0 d1 s0 s1 data =
    \<lparr>lm_ctl = c, lm_dst = word_of d0 d1, lm_src = word_of s0 s1, lm_data = data\<rparr>"

lemma encode_msg_of:
  assumes "length data + 5 = unat l"
  shows "dnp3_encode (msg_of c d0 d1 s0 s1 data) = dnp3_block (header_of l c d0 d1 s0 s1) @ dnp3_body data"
  using assms by (simp add: dnp3_encode_def dnp3_header_def msg_of_def bytes_word_of flip: of_nat_add)

lemma dnp3_check_sound:
  assumes "fr_flow (dnp3_check buf) \<noteq> 0" "length buf < 2 ^ 60"
  shows "\<exists>m extra. link_ok m \<and> buf = dnp3_encode m @ extra"
proof -
  note raw = raw_flow [OF assms(1)]
  obtain h rest where h: "length h = 8" "buf = dnp3_block h @ rest" using raw header_iff by blast
  obtain tail where "buf = 0x05 # 0x64 # tail" using raw start_bytes_offset_0 [of buf] by auto
  then obtain l c d0 d1 s0 s1 where hd: "h = header_of l c d0 d1 s0 s1" using header_cases h by metis
  note buf = h(2) [unfolded hd]
  have l: "5 \<le> unat l" "full_length (unat l) \<le> length buf"
    using header_length [OF buf] raw assms(2) by (auto split: if_splits)
  have "\<exists>data. length data = unat l - 5
      \<and> take (full_length (unat l) - 10) (drop 10 buf) = dnp3_body data"
  proof (cases "unat l = 5")
    case True
    then show ?thesis by (simp add: full_length_def dnp3_body.simps [of "[]"])
  next
    case False
    then have "fst (check_blocks buf (full_length (unat l)) 10)"
      using dnp3_check_full [OF buf l] assms(1) by (auto split: if_splits)
    then show ?thesis
      using check_blocks_iff [of "unat l - 5" 10 "full_length (unat l)" buf] False l
        full_length_less [OF unat_byte_less [of l]] by (simp add: full_length_def)
  qed
  then obtain data where data: "length data = unat l - 5"
    "take (full_length (unat l) - 10) (drop 10 buf) = dnp3_body data" by blast
  have "drop 10 buf = rest" by (simp add: buf)
  then have "rest = dnp3_body data @ drop (full_length (unat l) - 10) rest"
    using data(2) by (metis append_take_drop_id)
  then have "buf = dnp3_encode (msg_of c d0 d1 s0 s1 data) @ drop (full_length (unat l) - 10) rest"
    using buf encode_msg_of [of data l] data(1) l(1) by simp
  moreover have "link_ok (msg_of c d0 d1 s0 s1 data)"
    using data(1) unat_byte_less [of l] by (simp add: link_ok_def msg_of_def)
  ultimately show ?thesis by blast
qed

section \<open>Properties\<close>

text \<open>A read request and a header-only reply, for the witnesses.\<close>

definition demo_request :: link_msg where
  "demo_request = \<lparr>lm_ctl = 0xC4, lm_dst = 4, lm_src = 3, lm_data = [0xC0, 0xC1, 0x01]\<rparr>"

definition demo_ack :: link_msg where
  "demo_ack = \<lparr>lm_ctl = 0x00, lm_dst = 3, lm_src = 4, lm_data = []\<rparr>"

lemma demo_ok: "link_ok demo_request" "link_ok demo_ack" "link_flow demo_request \<noteq> 0"
  by (simp_all add: link_ok_def demo_request_def demo_ack_def link_flow_def)

lemma fr_flow_link_frame: "fr_flow (link_frame m) = link_flow m"
  by (simp add: link_frame_def Let_def)

text \<open>
  C10. A stream of DNP3 link frames is cut back into exactly these frames: for every sequence of
  messages of up to 250 bytes of user data and every way of cutting the encoded bytes into reads, the
  stream loop hands over one frame per message, with the bytes, the addresses as flow, the transport
  FIR, FIN and sequence number of that message, and leaves nothing in the buffer.
\<close>

theorem dnp3_stream_roundtrip:
  assumes "\<forall>m \<in> set ms. link_ok m" "concat chunks = concat (map dnp3_encode ms)"
  shows "rcv_chunks dnp3_check [] chunks =
    Some (map (\<lambda>m. (link_frame m)\<lparr>fr_buf := dnp3_encode m\<rparr>) ms, [])"
  using assms by (intro dnp3_code.rcv_chunks_code) (simp_all add: dnp3.check_Nil)

theorem dnp3_stream_roundtrip_witness:
  "rcv_chunks dnp3_check []
      [take 5 (dnp3_encode demo_request), drop 5 (dnp3_encode demo_request) @ dnp3_encode demo_ack] =
    Some (map (\<lambda>m. (link_frame m)\<lparr>fr_buf := dnp3_encode m\<rparr>) [demo_request, demo_ack], [])"
  by (rule dnp3_stream_roundtrip) (simp_all add: demo_ok)

text \<open>
  C19. The DNP3 checker reports nothing else as framed: a frame with a flow (the mark the fragment
  handler tells frames from noise by) starts with the encoding of a message, start bytes, length and
  every checksum included, and is the frame of that message.
\<close>

theorem dnp3_accepts_only_frames:
  assumes "fr_flow (dnp3_check buf) \<noteq> 0" "length buf < 2 ^ 60"
  shows "\<exists>m extra. link_ok m \<and> buf = dnp3_encode m @ extra \<and> dnp3_check buf = link_frame m"
  using dnp3_check_sound [OF assms] dnp3_check_found by blast

theorem dnp3_accepts_only_frames_witness:
  "\<exists>m extra. link_ok m \<and> dnp3_encode demo_request = dnp3_encode m @ extra
    \<and> dnp3_check (dnp3_encode demo_request) = link_frame m"
proof (rule dnp3_accepts_only_frames)
  show "fr_flow (dnp3_check (dnp3_encode demo_request)) \<noteq> 0"
    using dnp3_check_found [of demo_request "[]"] by (simp add: demo_ok fr_flow_link_frame)
  show "length (dnp3_encode demo_request) < 2 ^ 60"
    by (simp add: length_dnp3_encode full_length_def demo_request_def)
qed

text \<open>
  A header with a good checksum whose length byte is below 5 stops the connection: the number of
  user bytes wraps to almost \<open>2 ^ 64\<close>, the checker waits for a frame longer than any buffer, and
  nothing that arrives later is ever handed over.
\<close>

theorem dnp3_short_length_stalls:
  assumes "unat l < 5" "length rest + length (concat chunks) < 2 ^ 59"
  shows "rcv_chunks dnp3_check (dnp3_block (header_of l c d0 d1 s0 s1) @ rest) chunks =
    Some ([], dnp3_block (header_of l c d0 d1 s0 s1) @ rest @ concat chunks)"
  using assms(2)
proof (induction chunks arbitrary: rest)
  case (Cons ch chunks)
  let ?buf = "dnp3_block (header_of l c d0 d1 s0 s1) @ rest @ ch"
  have "length ?buf < 2 ^ 60" using Cons.prems by simp
  then have "length ?buf < crc_checked_length ?buf"
    using header_length [of ?buf l c d0 d1 s0 s1 "rest @ ch"] assms(1) by (auto split: if_splits)
  then have "dnp3_check ?buf = raw_frame 0" by (intro dnp3_check_waits) auto
  then have "rcv_stream dnp3_check ?buf = Some ([], ?buf)" by (simp add: rcv_stream_none)
  then show ?case using Cons.IH [of "rest @ ch"] Cons.prems by simp
qed simp

theorem dnp3_short_length_stalls_witness:
  "rcv_chunks dnp3_check (dnp3_block (header_of 4 0xC4 4 0 3 0) @ []) [dnp3_encode demo_request] =
    Some ([], dnp3_block (header_of 4 0xC4 4 0 3 0) @ [] @ concat [dnp3_encode demo_request])"
  by (rule dnp3_short_length_stalls) (simp_all add: length_dnp3_encode full_length_def demo_request_def)


end
