(* ===== verification/SwitchCrc.thy ===== *)
theory SwitchCrc
  imports DNP3Frame
begin

text \<open>
  The C sources of the switch-mode examples, \<open>getAddrs\<close> of
  \<open>src/Examples/SwitchBytecode/SwitchDNP3_CRC.c\<close> and \<open>SwitchDNP3_CRC_FLOW.c\<close>: the addresses of a DNP3
  datagram whose header checksum is good. \<open>None\<close> is the result -1; otherwise the pair is what is
  stored to \<open>src\<close> and \<open>dst\<close>. The length \<open>n\<close> is the length of the buffer.
\<close>

section \<open>The programs\<close>

definition header_crc :: "u8 list \<Rightarrow> u16" where
  "header_crc buf = NOT (foldl compute_crc 0 (map (\<lambda>idx. buf ! idx) [0..<8]))"

definition header_good :: "u8 list \<Rightarrow> bool" where
  "header_good buf \<longleftrightarrow> buf ! 8 = ucast (header_crc buf) \<and> buf ! 9 = ucast (drop_bit 8 (header_crc buf))"

definition get_addrs :: "u8 list \<Rightarrow> (u64 \<times> u64) option" where
  "get_addrs buf =
    (if length buf < 10 then None
     else if unat (buf ! 2) > length buf then None
     else if header_good buf then
       Some (push_bit 8 (ucast (buf ! 7)) OR ucast (buf ! 6), push_bit 8 (ucast (buf ! 5)) OR ucast (buf ! 4))
     else None)"

definition get_addrs_flow :: "u8 list \<Rightarrow> (u64 \<times> u64) option" where
  "get_addrs_flow buf =
    (if length buf < 10 then None
     else if unat (buf ! 2) > length buf then None
     else if header_good buf then
       Some (push_bit 24 (ucast (buf ! 5)) OR push_bit 16 (ucast (buf ! 4)) OR push_bit 8 (ucast (buf ! 7)) OR ucast (buf ! 6),
             push_bit 24 (ucast (buf ! 7)) OR push_bit 16 (ucast (buf ! 6)) OR push_bit 8 (ucast (buf ! 5)) OR ucast (buf ! 4))
     else None)"

section \<open>The header check is the checker's\<close>

lemma foldl_table_compute: "foldl table_update s xs = foldl compute_crc s xs"
proof -
  have "table_update = compute_crc" by (intro ext) (simp add: table_update_lfsr compute_crc_lfsr)
  then show ?thesis by simp
qed

lemma take_nth_upt: "n \<le> length xs \<Longrightarrow> map (\<lambda>i. xs ! i) [0..<n] = take n xs"
  by (intro nth_equalityI) simp_all

lemma header_crc_eq: "10 \<le> length buf \<Longrightarrow> header_crc buf = dnp3_crc (take 8 buf)"
  by (simp add: header_crc_def dnp3_crc_def foldl_table_compute take_nth_upt)

lemma header_good_iff:
  assumes "10 \<le> length buf"
  shows "header_good buf \<longleftrightarrow> fst (crc_check buf 0 8 2)"
proof -
  have "take 2 (drop 8 buf) = [buf ! 8, buf ! 9]"
    using assms by (intro nth_equalityI) (auto simp: less_Suc_eq numeral_2_eq_2)
  moreover have "ucast (w AND 0xFF) = (ucast w :: u8)" for w :: u16
  proof -
    have ff: "(0xFF :: u16) = mask 8" by (simp add: mask_eq_exp_minus_1)
    show ?thesis unfolding ff by (rule bit_word_eqI) (simp add: bit_simps)
  qed
  ultimately show ?thesis
    using crc_check_eq [of 8 0 buf 2] assms header_crc_eq [OF assms]
    by (simp add: header_good_def crc_bytes_def Let_def)
qed

lemma word_of_u64: "(ucast (word_of lo hi) :: u64) = push_bit 8 (ucast hi) OR ucast lo"
  by (rule bit_word_eqI) (auto simp: word_of_def bit_simps dest: bit_imp_le_length)

lemma flow_u64:
  "(ucast (src_dst_flow d0 d1 s0 s1) :: u64) =
    push_bit 24 (ucast s1) OR push_bit 16 (ucast s0) OR push_bit 8 (ucast d1) OR ucast d0"
proof -
  have "ucast (src_dst_flow d0 d1 s0 s1) =
      push_bit 16 (ucast (word_of s0 s1)) OR (ucast (word_of d0 d1) :: u64)"
    unfolding flow_word_of
    by (rule disjunctive_add) (auto simp: word_of_def bit_simps dest: bit_imp_le_length)
  also have "\<dots> = push_bit 24 (ucast s1) OR push_bit 16 (ucast s0) OR push_bit 8 (ucast d1) OR ucast d0" (is "?x = ?y")
  proof (rule bit_word_eqI)
    fix n :: nat
    consider "n < 8" | "8 \<le> n \<and> n < 16" | "16 \<le> n \<and> n < 24" | "24 \<le> n \<and> n < 32" | "32 \<le> n" by linarith
    then show "bit ?x n \<longleftrightarrow> bit ?y n"
      by cases (auto simp: word_of_def bit_simps dest: bit_imp_le_length)
  qed
  finally show ?thesis .
qed

section \<open>Properties\<close>

text \<open>
  The checksum example for switch mode agrees with the link checker of ProtoConv: it accepts a
  datagram exactly when the checker's own check of the first ten bytes accepts it and the length byte is
  within the datagram, the addresses it stores are the little-endian source and destination of the
  header, and the destination value of its flow variant is the flow the checker gives the frame.
\<close>

theorem get_addrs_agrees:
  "get_addrs buf =
      (if 10 \<le> length buf \<and> unat (buf ! 2) \<le> length buf \<and> fst (crc_check buf 0 8 2)
       then Some (ucast (word_of (buf ! 6) (buf ! 7)), ucast (word_of (buf ! 4) (buf ! 5))) else None)
    \<and> map_option snd (get_addrs_flow buf) =
      map_option (\<lambda>_. ucast (src_dst_flow (buf ! 4) (buf ! 5) (buf ! 6) (buf ! 7))) (get_addrs buf)"
proof (cases "10 \<le> length buf")
  case True
  then show ?thesis
    using header_good_iff [OF True] by (simp add: get_addrs_def get_addrs_flow_def word_of_u64 flow_u64 not_less)
next
  case False
  then show ?thesis by (simp add: get_addrs_def get_addrs_flow_def)
qed

end
