(* ===== verification/PlexRuns.thy ===== *)
theory PlexRuns
  imports SwitchBytecode
begin

text \<open>
  The multiplexer over several events: what switch mode learns, what becomes of the fixed branches
  in any run, and the command line values with which it can be built.
\<close>

section \<open>Datagrams never go back\<close>

lemma forward_no_echo: "sender \<notin> set (dests (forward buf sender brs))"
  by simp

lemma flood_no_echo: "sender \<notin> set (dests (flood buf sender brs s))"
  by (simp add: flood_def)

lemma rcv_no_echo:
  assumes "rcv_handler t1 t2 err buf sender s = (Some out, s')"
  shows "sender \<notin> set (dests out)"
proof -
  obtain brs s1 where b: "branches t1 sender s = (brs, s1)" by fastforce
  show ?thesis
    using assms flood_no_echo forward_no_echo
    by (auto simp: rcv_handler_def b hub_handler_def trunk_handler_def prune_handler_eq
        switch_handler_def front_hd Let_def split: if_splits plex_mode.splits prod.splits option.splits)
qed

text \<open>
  C24. No echo: whatever the mode and the state, no datagram is sent back to the endpoint it came
  from, and a receive error sends nothing and changes nothing.
\<close>

theorem no_echo:
  "(case fst (rcv_handler t1 t2 err buf sender s) of
      None \<Rightarrow> True | Some out \<Rightarrow> sender \<notin> set (dests out))
   \<and> rcv_handler t1 t2 True buf sender s = (Some [], s)"
  using rcv_no_echo [of t1 t2 err buf sender s]
  by (cases "rcv_handler t1 t2 err buf sender s") (auto simp: rcv_handler_def split: option.split)

section \<open>No undefined behaviour but one\<close>

lemma get_src_dst_undefined:
  assumes "vm_ok v" "length buf \<le> 64 * 1024" "get_src_dst buf v = (None, v')"
  shows "rem_overflow (vm_inst v') v'"
proof (cases "execute_program p_beg 100000 (entry_vm buf v)")
  case (Pair r w)
  show ?thesis
  proof (cases r)
    case (Inl e)
    then have "get_src_dst buf v = (if e = UndefinedRem then None else Some (False, 0, 0), w)"
      using get_src_dst_throws [OF assms(1,2)] Pair by simp
    then have "e = UndefinedRem" "w = v'" using assms(3) by (auto split: if_splits)
    then show ?thesis
      using execute_program_safe [of "entry_vm buf v" p_beg 100000] Pair Inl
        entry_vm_sandbox(2) [OF assms(1,2)] by (simp add: vm_ok_def)
  next
    case (Inr u)
    have "sandbox (entry_vm buf v) w"
      using execute_program_safe [of "entry_vm buf v" p_beg 100000] entry_vm_sandbox(2) [OF assms(1,2)] Pair
      by (simp add: vm_ok_def)
    then have wf: "vm_wf w" by (simp add: sandbox_def)
    define w2 where "w2 = set_sp (sp w + 8) w"
    have wf2: "vm_wf w2" using wf by (simp add: w2_def set_sp_def)
    obtain r1 where p1: "stack_pop 8 w = (r1, w2)" "\<not> ub r1"
      using stack_pop_eq [OF wf, of 8] mem_access_no_ub(1) [OF wf, of 8 "sp w"] by (auto simp: w2_def)
    obtain r2 w3 where p2: "stack_pop 8 w2 = (r2, w3)" "\<not> ub r2"
      using stack_pop_eq [OF wf2, of 8] mem_access_no_ub(1) [OF wf2, of 8 "sp w2"] by auto
    show ?thesis
      using assms(3) Pair Inr p1 p2
      by (auto simp: get_src_dst_def run_src_dst_eq [OF assms(1,2)] bindE_def register_get_def retE_def
          split: prod.splits sum.splits if_splits)
  qed
qed

text \<open>
  C25. The receive handler has no undefined behaviour of its own: in a reachable state (one of the invariant every
  run keeps), and for datagrams up to the 64 KiB of a receive buffer, it never dereferences the
  first branch of an empty list, in prune mode (the first active branch) or in switch mode (the owner of an
  address), and the machine it calls copies no byte from outside a buffer; only a bytecode that executes a REMW whose
  operands overflow can take it out of what C++ defines, and only in switch mode.
\<close>

theorem rcv_handler_defined:
  assumes "plex_inv (s, posted)" "length buf \<le> 64 * 1024"
  shows "fst (rcv_handler t1 t2 err buf sender s) = None \<longleftrightarrow>
    \<not> err \<and> px_mode s = SwitchMode
    \<and> (\<exists>v'. get_src_dst buf (px_vm s) = (None, v') \<and> rem_overflow (vm_inst v') v')"
proof (cases "err \<or> px_mode s \<noteq> SwitchMode")
  case True
  then show ?thesis
    by (cases err; cases "px_mode s") (simp_all add: rcv_handler_pure_modes prune_handler_eq, simp_all add: rcv_handler_def)
next
  case False
  define s1 where "s1 = snd (branches t1 sender s)"
  have err: "err = False" using False by simp
  have rcv: "rcv_handler t1 t2 False buf sender s = switch_handler t2 (fst (branches t1 sender s)) sender buf s1"
    using False by (simp add: rcv_handler_switch s1_def)
  have s1: "px_vm s1 = px_vm s" "addr_ok (px_addr s1)"
    using plex_invD(8) [OF assms(1)] by (simp_all add: s1_def)
  obtain r v' where rv: "get_src_dst buf (px_vm s) = (r, v')" by fastforce
  show ?thesis
  proof (cases r)
    case None
    then show ?thesis
      using get_src_dst_undefined [OF plex_invD(9) [OF assms(1)] assms(2)] rv False
      by (simp add: err rcv switch_handler_def s1)
  next
    case (Some a)
    obtain ok src dst where a: "a = (ok, src, dst)" by (cases a)
    show ?thesis
      using switch_handler_eq [OF s1(2), of buf src dst v' t2 "fst (branches t1 sender s)" sender] rv Some a
      by (cases ok) (auto simp: err rcv s1(1) switch_handler_def)
  qed
qed

theorem rcv_handler_defined_witness:
  "fst (rcv_handler (0, 0) (0, 0) False [9] 5 (demo_plex PruneMode)) \<noteq> None"
  using rcv_handler_defined [OF demo_plex_inv, of "[9]" "(0, 0)" "(0, 0)" False 5 PruneMode]
  by (simp add: demo_plex_def)

section \<open>Learning\<close>

definition switch_plex :: "nat plex" where
  "switch_plex = demo_plex SwitchMode\<lparr>px_vm := fast_vm\<rparr>"

lemma switch_plex_inv: "plex_inv (switch_plex, [])" "px_mode switch_plex = SwitchMode"
  using px_vm_inv [OF demo_plex_inv fast_vm(1)] by (simp_all add: switch_plex_def) (simp add: demo_plex_def)

lemma accepted_packet:
  assumes "plex_inv (s, posted)" "px_mode s = SwitchMode"
    "get_src_dst buf (px_vm s) = (Some (True, src, dst), v)"
  shows "\<exists>s'. rcv_handler t1 t2 False buf b s =
      (Some (switch_out (fst (branches t1 b s)) b (vm_data v) src dst (snd (branches t1 b s))), s')
    \<and> tc_keys (address_cache src s') \<noteq> [] \<and> hd (tc_keys (address_cache src s')) = owner src b s
    \<and> (\<forall>a. a \<noteq> src \<longrightarrow> address_cache a s' = address_cache a s) \<and> px_mode s' = SwitchMode \<and> px_vm s' = v"
proof -
  define s1 where "s1 = snd (branches t1 b s)"
  have ok: "addr_ok (px_addr s1)" using plex_invD(8) [OF assms(1)] by (simp add: s1_def)
  have "get_src_dst buf (px_vm s1) = (Some (True, src, dst), v)" using assms(3) by (simp add: s1_def)
  from switch_handler_eq [OF ok this, of t2 "fst (branches t1 b s)" b] show ?thesis
    using owner_after [OF ok, of t2 b src] assms(2)
    by (auto simp: rcv_handler_switch simp flip: s1_def) (simp_all add: s1_def)
qed

text \<open>
  C26. Switch mode learns: after a packet from branch \<open>b\<close> with source address \<open>a\<close>, accepted because
  nobody else owns \<open>a\<close>, the next packet for \<open>a\<close> that is accepted from another branch \<open>c\<close> goes to
  \<open>b\<close> and to nobody else.
\<close>

theorem switch_learns:
  assumes "plex_inv (s, posted)" "px_mode s = SwitchMode" "length buf \<le> 64 * 1024"
    and "get_src_dst buf (px_vm s) = (Some (True, a, d), v)" "owner a b s = b"
    and "rcv_handler t1 t2 False buf b s = (Some out, s')"
    and "get_src_dst buf2 (px_vm s') = (Some (True, a2, a), v2)" "a2 \<noteq> a" "c \<noteq> b" "owner a2 c s' = c"
  shows "fst (rcv_handler t3 t4 False buf2 c s') = Some [(b, vm_data v2)]"
proof -
  obtain s0 where "rcv_handler t1 t2 False buf b s = (Some
      (switch_out (fst (branches t1 b s)) b (vm_data v) a d (snd (branches t1 b s))), s0)"
    "tc_keys (address_cache a s0) \<noteq> []" "hd (tc_keys (address_cache a s0)) = b" "px_mode s0 = SwitchMode"
    using accepted_packet [OF assms(1,2,4), of t1 t2 b] assms(5) by auto
  then have s': "tc_keys (address_cache a s') \<noteq> []" "hd (tc_keys (address_cache a s')) = b"
    "px_mode s' = SwitchMode"
    using assms(6) by simp_all
  have inv: "plex_inv (s', posted)"
    using rcv_handler_inv [OF assms(1,3), of t1 t2 False b] assms(6) by simp
  show ?thesis
    using accepted_packet [OF inv s'(3) assms(7), of t3 t4 c] assms(8-10) s'(1,2)
    by (auto simp: switch_out_def forward_single)
qed

theorem switch_learns_witness:
  "\<exists>out s' (v2 :: vm). rcv_handler (0, 0) (0, 0) False (dnp3_datagram 10 1) 5 switch_plex = (Some out, s')
    \<and> fst (rcv_handler (1, 1) (1, 1) False (dnp3_datagram 1 10) 6 s') = Some [(5, vm_data v2)]"
proof -
  have len: "length (dnp3_datagram x y) \<le> 64 * 1024" for x y by (simp add: dnp3_datagram_def)
  have vm: "px_vm switch_plex = fast_vm" by (simp add: switch_plex_def)
  obtain v where v: "get_src_dst (dnp3_datagram 10 1) fast_vm = (Some (True, 10, 1), v)"
    "vm_ok v" "vm_prog v = dnp3_fast"
    using fast_program [OF fast_vm len, of 10 1] get_src_dst_vm_ok [OF fast_vm(1) len, of 10 1]
    by (auto simp: dnp3_datagram_addrs)
  obtain v2 where v2: "get_src_dst (dnp3_datagram 1 10) v = (Some (True, 1, 10), v2)"
    using fast_program [OF v(2,3) len, of 1 10] by (auto simp: dnp3_datagram_addrs)
  have empty: "tc_keys (address_cache a switch_plex) = []" for a
    by (simp add: switch_plex_def demo_plex_def address_cache_def tc_new_def tc_keys_def)
  obtain s' out where s': "rcv_handler (0, 0) (0, 0) False (dnp3_datagram 10 1) 5 switch_plex = (Some out, s')"
    "\<forall>a. a \<noteq> 10 \<longrightarrow> address_cache a s' = address_cache a switch_plex" "px_vm s' = v"
    using accepted_packet [OF switch_plex_inv, of "dnp3_datagram 10 1" 10 1 v "(0, 0)" "(0, 0)" 5] v(1) vm
    by auto
  have "owner 1 6 s' = 6" "owner 10 5 switch_plex = 5"
    using s'(2) empty by (simp_all add: owner_def)
  then have "fst (rcv_handler (1, 1) (1, 1) False (dnp3_datagram 1 10) 6 s') = Some [(5, vm_data v2)]"
    using v(1) v2 vm s'
    by (intro switch_learns [OF switch_plex_inv len, of 10 1 10 1 v 5 "(0, 0)" "(0, 0)" out s' _ 1]) simp_all
  then show ?thesis
    using s'(1) by (intro exI [of _ out] exI [of _ s'] exI [of _ v2] conjI)
qed

section \<open>The fixed branches in any run\<close>

text \<open>
  C27. Fixed branches are never forgotten: in every state a run of a newly built multiplexer can
  reach, whatever the datagrams, timer firings and the moments the posted timeout handlers run, a
  fixed branch is inactive, active, or about to be put back by a posted handler, only fixed
  branches are ever inactive, the trunk is never an active branch, and the active branches are
  distinct and within the limit of the cache.
\<close>

theorem fixed_branches_accounted:
  assumes "new_plex from_string endpoint no_ep args file = Inr s0" "plex_reach s0 (s, posted)"
  shows "px_perma s \<subseteq> px_inactive s \<union> set (tc_keys (px_active s)) \<union> set posted
    \<and> px_inactive s \<subseteq> px_perma s \<and> px_trunk s \<notin> set (tc_keys (px_active s))
    \<and> distinct (tc_keys (px_active s)) \<and> length (tc_keys (px_active s)) \<le> tc_max (px_active s)"
proof -
  have inv: "plex_inv (s, posted)" using plex_reach_inv [OF assms(2) new_plex_inv [OF assms(1)]] .
  note d = plex_invD [OF inv]
  show ?thesis
    using d(3,5,7) tcache.keys_distinct [OF d(1)] tcache.keys_bounded [OF d(1)] by blast
qed

text \<open>A command line for witnesses: hub mode with the fixed branch \<open>b:2\<close>. Addresses are read as
  their length, and an endpoint is a number made of address and port.\<close>

definition demo_args :: plex_args where
  "demo_args = \<lparr>arg_hub = True, arg_trunk = False, arg_prune = False, arg_switch = False,
     arg_local_addr = ''a'', arg_local_port = 1, arg_max_process_q = 4, arg_cache_timeout = 10,
     arg_max_branch_cache = 0, arg_max_switch_cache = 0, arg_trunk_addr = '''', arg_trunk_port = 0,
     arg_branch_addrs = [''b''], arg_branch_ports = [2]\<rparr>"

definition demo_from_string :: "string \<Rightarrow> nat option" where
  "demo_from_string s = (if s = '''' then None else Some (length s))"

definition demo_endpoint :: "nat \<Rightarrow> u16 \<Rightarrow> nat" where
  "demo_endpoint a p = unat p + 65536 * (a - 1)"

definition hub2 :: "nat plex" where
  "hub2 = \<lparr>px_mode = HubMode, px_trunk = 0, px_perma = {2}, px_inactive = {2},
     px_active = tc_new 10, px_addr = Map.empty, px_vm = new_VM 4096 1048576,
     px_timeout = 10, px_max_switch = 0\<rparr>"

lemma new_hub2: "new_plex demo_from_string demo_endpoint 0 demo_args None = Inr hub2"
  by (simp add: new_plex_def demo_args_def demo_from_string_def select_mode_def Let_def
      demo_endpoint_def hub2_def)

theorem fixed_branches_accounted_witness:
  "plex_reach hub2 (hub2, []) \<and> px_perma hub2 \<subseteq> px_inactive hub2 \<union> set (tc_keys (px_active hub2))"
  using fixed_branches_accounted [OF new_hub2 plex_reach.start] by (simp add: plex_reach.start)

section \<open>A branch both active and inactive\<close>

text \<open>Four events on \<open>hub2\<close>: a datagram from the fixed branch, its idle timeout, another datagram
  from it, and only then the posted timeout handler.\<close>

definition hub2_a :: "nat plex" where "hub2_a = snd (rcv_handler (0, 0) (0, 0) False [9] 2 hub2)"
definition hub2_b :: "nat plex" where "hub2_b = snd (active_timer (10, 10) 2 False hub2_a)"
definition hub2_c :: "nat plex" where "hub2_c = snd (rcv_handler (11, 11) (11, 11) False [9] 2 hub2_b)"
definition hub2_d :: "nat plex" where "hub2_d = timeout_handler 2 hub2_c"

lemmas hub2_defs = hub2_d_def hub2_c_def hub2_b_def hub2_a_def hub2_def rcv_handler_def branches_def
  tc_add_def tc_new_def size_max_def active_timer_def tc_timer_handler_def tc_keys_def
  timeout_handler_def

lemma hub2_d_reach: "plex_reach hub2 (hub2_d, [])"
proof -
  have "rcv_handler (0, 0) (0, 0) False [9] 2 hub2 = (Some [], hub2_a)"
    by (simp add: hub2_defs hub_handler_def flood_def forward_def)
  then have a: "plex_reach hub2 (hub2_a, [])"
    by (rule plex_reach.step [OF plex_reach.start plex_step.rcv]) simp
  have "plex_step (hub2_a, []) (hub2_b, [] @ (case Some 2 of None \<Rightarrow> [] | Some ep \<Rightarrow> [ep]))"
    by (rule plex_step.active [where e = "\<lparr>ce_timer = 10, ce_access = 0\<rparr>" and t = "(10, 10)" and k = 2])
      (simp_all add: hub2_defs)
  then have b: "plex_reach hub2 (hub2_b, [2])" using plex_reach.step [OF a] by simp
  have "rcv_handler (11, 11) (11, 11) False [9] 2 hub2_b = (Some [], hub2_c)"
    by (simp add: hub2_defs hub_handler_def flood_def forward_def)
  then have c: "plex_reach hub2 (hub2_c, [2])"
    by (rule plex_reach.step [OF b plex_step.rcv]) simp
  show ?thesis
    using plex_reach.step [OF c plex_step.timeout [of hub2_c "[]" 2 "[]", simplified]] by (simp add: hub2_d_def)
qed

text \<open>
  The timeout handler of a branch is posted to the \<open>io_context\<close> instead of running in the
  step that drops the branch from the cache, and a datagram from the branch can come in between.
  Then the branch ends up active and inactive at once: a reachable state of hub mode has it in both
  sets, no handler is left to repair it, and a datagram from another endpoint is sent to it twice.
\<close>

theorem duplicate_forwarding_reachable:
  "plex_reach hub2 (hub2_d, []) \<and> 2 \<in> px_inactive hub2_d \<and> 2 \<in> set (tc_keys (px_active hub2_d))
   \<and> fst (rcv_handler (12, 12) (12, 12) False [7] 5 hub2_d) = Some [(2, [7]), (2, [7])]"
  using hub2_d_reach by (simp add: hub2_defs hub_handler_def flood_def forward_def)

section \<open>From the command line to a running multiplexer\<close>

lemma add_branches_ok:
  assumes "\<forall>b \<in> set bs. from_string b \<noteq> None" "length bs \<le> length ps"
  shows "\<exists>s'. add_branches from_string endpoint bs ps s = Inr s' \<and> px_mode s' = px_mode s
    \<and> px_trunk s' = px_trunk s \<and> px_active s' = px_active s \<and> px_vm s' = px_vm s
    \<and> px_perma s' = px_perma s \<union> (\<lambda>(b, p). endpoint (the (from_string b)) p) ` set (zip bs ps)
    \<and> px_inactive s' = px_inactive s \<union> (\<lambda>(b, p). endpoint (the (from_string b)) p) ` set (zip bs ps)"
  using assms
proof (induction from_string endpoint bs ps s rule: add_branches.induct)
  case (3 from_string endpoint b bs p ps s)
  then obtain a where "from_string b = Some a" by auto
  with 3 show ?case by (fastforce simp: Let_def)
qed simp_all

text \<open>
  A command line that passes the checks builds the multiplexer it describes. With exactly one
  mode switch, the constructor neither throws nor indexes past the list of branch ports, except
  that switch mode fails if the bytecode cannot be loaded; the fixed branches are the endpoints
  paired from the two lists, they are all inactive at first, and nothing is active.
\<close>

theorem checked_args_construct:
  assumes "check_plex_args from_string a = Inr ()" "one_mode a"
    "arg_switch a \<longrightarrow> file = Some code \<and> length code \<le> 1024 * 1024"
  shows "\<exists>s. new_plex from_string endpoint no_ep a file = Inr s
    \<and> px_perma s = (\<lambda>(b, p). endpoint (the (from_string b)) p) ` set (zip (arg_branch_addrs a) (arg_branch_ports a))
    \<and> px_inactive s = px_perma s \<and> tc_keys (px_active s) = []
    \<and> (arg_trunk a \<or> arg_prune a \<longrightarrow>
        px_trunk s = endpoint (the (from_string (arg_trunk_addr a))) (arg_trunk_port a))
    \<and> px_mode s = (if arg_hub a then HubMode else if arg_trunk a then TrunkMode
        else if arg_prune a then PruneMode else SwitchMode)
    \<and> (arg_switch a \<longrightarrow> vm_prog (px_vm s) = code)"
proof -
  note ok = assms(1) [unfolded check_plex_args_ok]
  have "\<exists>v. select_mode a file (new_VM 4096 (1024 * 1024)) = Inr
      (if arg_hub a then HubMode else if arg_trunk a then TrunkMode
       else if arg_prune a then PruneMode else SwitchMode, v) \<and> (arg_switch a \<longrightarrow> vm_prog v = code)"
    using assms(2,3)
    by (auto simp: select_mode_def one_mode_def program_load_file_def load_program_def new_VM_def
        split: if_splits)
  then obtain v where v: "select_mode a file (new_VM 4096 (1024 * 1024)) = Inr
      (if arg_hub a then HubMode else if arg_trunk a then TrunkMode
       else if arg_prune a then PruneMode else SwitchMode, v)" "arg_switch a \<longrightarrow> vm_prog v = code"
    by blast
  have trunk: "(if arg_trunk a \<or> arg_prune a
      then map_option (\<lambda>t. endpoint t (arg_trunk_port a)) (from_string (arg_trunk_addr a)) else Some no_ep) =
    Some (if arg_trunk a \<or> arg_prune a
      then endpoint (the (from_string (arg_trunk_addr a))) (arg_trunk_port a) else no_ep)"
    using ok by auto
  have br: "\<forall>b \<in> set (arg_branch_addrs a). from_string b \<noteq> None"
    "length (arg_branch_addrs a) \<le> length (arg_branch_ports a)" using ok by auto
  have l: "from_string (arg_local_addr a) \<noteq> None" using ok by blast
  let ?s = "\<lparr>px_mode = (if arg_hub a then HubMode else if arg_trunk a then TrunkMode
       else if arg_prune a then PruneMode else SwitchMode), px_trunk = (if arg_trunk a \<or> arg_prune a
      then endpoint (the (from_string (arg_trunk_addr a))) (arg_trunk_port a) else no_ep), px_perma = {}, px_inactive = {},
    px_active = (if arg_max_branch_cache a \<noteq> 0 then tc_set_max (arg_max_branch_cache a) (tc_new (arg_cache_timeout a))
      else tc_new (arg_cache_timeout a)),
    px_addr = Map.empty, px_vm = v, px_timeout = arg_cache_timeout a, px_max_switch = arg_max_switch_cache a\<rparr>"
  have "tc_keys (px_active ?s) = []" by (simp add: new_cache_ok)
  moreover obtain s where s: "add_branches from_string endpoint (arg_branch_addrs a) (arg_branch_ports a) ?s = Inr s"
    "px_mode s = px_mode ?s" "px_trunk s = px_trunk ?s" "px_active s = px_active ?s" "px_vm s = v"
    "px_perma s = {} \<union> (\<lambda>(b, p). endpoint (the (from_string b)) p) ` set (zip (arg_branch_addrs a) (arg_branch_ports a))"
    "px_inactive s = {} \<union> (\<lambda>(b, p). endpoint (the (from_string b)) p) ` set (zip (arg_branch_addrs a) (arg_branch_ports a))"
    using add_branches_ok [OF br, of endpoint ?s] by auto
  moreover have "new_plex from_string endpoint no_ep a file = Inr s"
    unfolding new_plex_def v(1) trunk using l by (simp only: s(1) Let_def prod.case sum.case option.case if_False)
  ultimately show ?thesis using v(2) by (intro exI [of _ s]) simp
qed

lemma demo_args_checked: "check_plex_args demo_from_string demo_args = Inr ()" "one_mode demo_args"
  by (simp_all add: check_plex_args_def demo_args_def demo_from_string_def one_mode_def)

theorem checked_args_construct_witness:
  "\<exists>s. new_plex demo_from_string demo_endpoint 0 demo_args None = Inr s \<and> px_perma s = {2}"
  using checked_args_construct [OF demo_args_checked, of None "[]" demo_endpoint 0]
  by (auto simp: demo_args_def demo_from_string_def demo_endpoint_def)

end
