(* ===== verification/RcvPool.thy ===== *)
theory RcvPool
  imports Prelude
begin

text \<open>
  The receive loop of the multiplexer and its pool of datagram buffers: \<open>Rcv\<close> and the recycling
  deleter of \<open>MakeSharedBuf\<close> in \<open>src/src/MiniPlex.cpp\<close>. A buffer is a value of any type that
  identifies it; a buffer in flight is one that has been received into and is still referenced by
  a handler or a send.
\<close>

section \<open>State and operations\<close>

record 'b pool =
  rcv_buf_q :: "'b list"
  rcv_buf_count :: nat
  pl_stopping :: bool

text \<open>What \<open>Rcv\<close> leaves outstanding on the socket: a receive into a buffer, or a wait for the
  socket to become writable, after which \<open>Rcv\<close> is tried again.\<close>

datatype 'b outstanding = Receiving 'b | Delayed

definition rcv_start :: "nat \<Rightarrow> 'b \<Rightarrow> 'b pool \<Rightarrow> 'b outstanding \<times> 'b pool" where
  "rcv_start max_process_q fresh p =
    (if rcv_buf_q p = [] then
       if rcv_buf_count p < max_process_q
       then (Receiving fresh, p\<lparr>rcv_buf_q := [], rcv_buf_count := rcv_buf_count p + 1\<rparr>)
       else (Delayed, p)
     else (Receiving (hd (rcv_buf_q p)), p\<lparr>rcv_buf_q := tl (rcv_buf_q p)\<rparr>))"

text \<open>The deleter runs on the socket strand when the last reference to a buffer goes.\<close>

definition recycle :: "'b \<Rightarrow> 'b pool \<Rightarrow> 'b pool" where
  "recycle b p = (if \<not> pl_stopping p then p\<lparr>rcv_buf_q := rcv_buf_q p @ [b]\<rparr> else p)"

section \<open>The receive loop\<close>

record 'b rcv_sys =
  rs_pool :: "'b pool"
  rs_out :: "'b outstanding"
  rs_flight :: "'b list"

text \<open>Every buffer the allocator hands out is new.\<close>

definition all_bufs :: "'b rcv_sys \<Rightarrow> 'b list" where
  "all_bufs s = rcv_buf_q (rs_pool s) @ (case rs_out s of Receiving b \<Rightarrow> [b] | Delayed \<Rightarrow> []) @ rs_flight s"

definition do_rcv :: "nat \<Rightarrow> 'b \<Rightarrow> 'b rcv_sys \<Rightarrow> 'b rcv_sys" where
  "do_rcv m fresh s = (case rcv_start m fresh (rs_pool s) of (out, p) \<Rightarrow> s\<lparr>rs_out := out, rs_pool := p\<rparr>)"

inductive rcv_step :: "nat \<Rightarrow> 'b rcv_sys \<Rightarrow> 'b rcv_sys \<Rightarrow> bool" for m where
  received: "rs_out s = Receiving b \<Longrightarrow> fresh \<notin> set (all_bufs s) \<Longrightarrow>
    rcv_step m s (do_rcv m fresh (s\<lparr>rs_flight := rs_flight s @ [b]\<rparr>))"
| writable: "rs_out s = Delayed \<Longrightarrow> fresh \<notin> set (all_bufs s) \<Longrightarrow> rcv_step m s (do_rcv m fresh s)"
| release: "b \<in> set (rs_flight s) \<Longrightarrow>
    rcv_step m s (s\<lparr>rs_flight := remove1 b (rs_flight s), rs_pool := recycle b (rs_pool s)\<rparr>)"

inductive rcv_reach :: "nat \<Rightarrow> 'b \<Rightarrow> 'b rcv_sys \<Rightarrow> bool" for m b0 where
  start: "rcv_reach m b0 (do_rcv m b0 \<lparr>rs_pool = \<lparr>rcv_buf_q = [], rcv_buf_count = 0, pl_stopping = False\<rparr>,
    rs_out = Delayed, rs_flight = []\<rparr>)"
| step: "rcv_reach m b0 s \<Longrightarrow> rcv_step m s s' \<Longrightarrow> rcv_reach m b0 s'"

section \<open>The invariant\<close>

definition pool_inv :: "nat \<Rightarrow> 'b rcv_sys \<Rightarrow> bool" where
  "pool_inv m s \<longleftrightarrow> distinct (all_bufs s) \<and> rcv_buf_count (rs_pool s) = length (all_bufs s)
    \<and> length (all_bufs s) \<le> m \<and> \<not> pl_stopping (rs_pool s)
    \<and> (rs_out s = Delayed \<longrightarrow> rcv_buf_count (rs_pool s) = m)"

lemma do_rcv_inv:
  assumes "distinct (rcv_buf_q (rs_pool s) @ rs_flight s)" "fresh \<notin> set (rcv_buf_q (rs_pool s) @ rs_flight s)"
    "rcv_buf_count (rs_pool s) = length (rcv_buf_q (rs_pool s) @ rs_flight s)"
    "rcv_buf_count (rs_pool s) \<le> m" "\<not> pl_stopping (rs_pool s)"
  shows "pool_inv m (do_rcv m fresh s)"
  using assms
  by (cases "rcv_buf_q (rs_pool s)") (auto simp: pool_inv_def all_bufs_def do_rcv_def rcv_start_def)

lemma rcv_step_inv: "rcv_step m s s' \<Longrightarrow> pool_inv m s \<Longrightarrow> pool_inv m s'"
proof (induction rule: rcv_step.induct)
  case (received s b fresh)
  then show ?case by (intro do_rcv_inv) (auto simp: pool_inv_def all_bufs_def)
next
  case (writable s fresh)
  then show ?case by (intro do_rcv_inv) (auto simp: pool_inv_def all_bufs_def)
next
  case (release b s)
  have "length (rs_flight s) = Suc (length (remove1 b (rs_flight s)))"
    using release(1) by (simp add: length_remove1) (metis Suc_pred length_pos_if_in_set)
  with release show ?case
    by (auto simp: pool_inv_def all_bufs_def recycle_def distinct_remove1
        dest: notin_set_remove1 split: outstanding.splits)
qed

lemma rcv_reach_inv: "rcv_reach m b0 s \<Longrightarrow> pool_inv m s"
proof (induction rule: rcv_reach.induct)
  case start
  show ?case by (intro do_rcv_inv) simp_all
qed (rule rcv_step_inv)

section \<open>Properties\<close>

text \<open>
  The receive loop never starves and never shares: in every reachable state exactly one receive
  or one delay is outstanding, no buffer is in two places at once, never more than
  \<open>MaxProcessQ\<close> buffers exist, and reading is delayed only while all of them exist; when one of
  them has come back the next try receives.
\<close>

theorem rcv_pool_safe:
  assumes "rcv_reach m b0 s"
  shows "distinct (all_bufs s) \<and> length (all_bufs s) \<le> m \<and> rcv_buf_count (rs_pool s) = length (all_bufs s)
    \<and> (rs_out s = Delayed \<longrightarrow> length (all_bufs s) = m
        \<and> (rcv_buf_q (rs_pool s) \<noteq> [] \<longrightarrow> (\<forall>fresh. rs_out (do_rcv m fresh s) \<noteq> Delayed)))"
  using rcv_reach_inv [OF assms]
  by (auto simp: pool_inv_def do_rcv_def rcv_start_def)

theorem rcv_pool_safe_witness:
  "distinct (all_bufs (do_rcv 2 (0::nat) \<lparr>rs_pool = \<lparr>rcv_buf_q = [], rcv_buf_count = 0, pl_stopping = False\<rparr>,
    rs_out = Delayed, rs_flight = []\<rparr>))"
  by (rule conjunct1 [OF rcv_pool_safe [OF rcv_reach.start]])

end
