(* ===== verification/PlexPipeline.thy ===== *)
theory PlexPipeline
  imports PlexRuns RcvPool
begin

text \<open>
  The whole of \<open>src/src/MiniPlex.cpp\<close> at work: the receive loop on the socket strand, \<open>RcvHandler\<close> on the
  process strand, the sends posted by \<open>Forward\<close>, and the deleters that recycle buffers, in any interleaving.
  Buffers are shared, not copied: a handler and the sends read them when they run. The runs refine a
  multiplexer that serves one datagram after the other.
\<close>

section \<open>State\<close>

text \<open>The queues of the two strands and the sends in flight hold references to buffers, whose bytes are in a
  store. The histories are the datagrams received and those handed to the network.\<close>

type_synonym 'ep arrival = "'ep \<times> bool \<times> u8 list"

record 'ep pipe =
  pp_rcv :: "nat rcv_sys"
  pp_store :: "nat \<Rightarrow> u8 list"
  pp_handlers :: "(nat \<times> 'ep \<times> bool) list"
  pp_sends :: "(nat \<times> 'ep) list"
  pp_sending :: "(nat \<times> 'ep) list"
  pp_deleters :: "nat list"
  pp_plex :: "'ep plex"
  pp_timeouts :: "'ep list"
  pp_rx_count :: u64
  pp_tx_count :: u64
  pp_arrived :: "'ep arrival list"
  pp_sent :: "'ep send list"

definition new_pipe :: "nat \<Rightarrow> 'ep plex \<Rightarrow> 'ep pipe" where
  "new_pipe m s = \<lparr>pp_rcv = do_rcv m 0 \<lparr>rs_pool = \<lparr>rcv_buf_q = [], rcv_buf_count = 0, pl_stopping = False\<rparr>,
      rs_out = Delayed, rs_flight = []\<rparr>, pp_store = (\<lambda>_. []), pp_handlers = [], pp_sends = [], pp_sending = [],
    pp_deleters = [], pp_plex = s, pp_timeouts = [], pp_rx_count = 0, pp_tx_count = 0, pp_arrived = [], pp_sent = []\<rparr>"

text \<open>The references to buffers; the deleter is posted when the last one to a buffer goes.\<close>

definition held :: "'ep pipe \<Rightarrow> nat list" where
  "held p = map fst (pp_handlers p) @ map fst (pp_sends p) @ map fst (pp_sending p)"

definition drop_ref :: "nat \<Rightarrow> 'ep pipe \<Rightarrow> 'ep pipe" where
  "drop_ref b p = (if b \<in> set (held p) then p else p\<lparr>pp_deleters := pp_deleters p @ [b]\<rparr>)"

section \<open>Steps\<close>

text \<open>The completion of a receive: count, post \<open>RcvHandler\<close>, receive again.\<close>

definition receive_done :: "nat \<Rightarrow> nat \<Rightarrow> nat \<Rightarrow> 'ep \<Rightarrow> bool \<Rightarrow> u8 list \<Rightarrow> 'ep pipe \<Rightarrow> 'ep pipe" where
  "receive_done m fresh b sender err data p =
    p\<lparr>pp_rcv := do_rcv m fresh ((pp_rcv p)\<lparr>rs_flight := rs_flight (pp_rcv p) @ [b]\<rparr>),
      pp_store := (pp_store p)(b := data), pp_handlers := pp_handlers p @ [(b, sender, err)],
      pp_rx_count := pp_rx_count p + 1, pp_arrived := pp_arrived p @ [(sender, err, data)]\<rparr>"

text \<open>What a handler leaves in the buffer: in switch mode the program works on the buffer itself.\<close>

definition handled_buf :: "bool \<Rightarrow> u8 list \<Rightarrow> 'ep plex \<Rightarrow> u8 list" where
  "handled_buf err buf s =
    (if \<not> err \<and> px_mode s = SwitchMode then vm_data (snd (get_src_dst buf (px_vm s))) else buf)"

text \<open>\<open>RcvHandler\<close>: its sends are posted to the socket strand, with the buffer and not with the bytes.\<close>

definition handle_next :: "instants \<Rightarrow> instants \<Rightarrow> 'ep::linorder pipe \<Rightarrow> 'ep pipe option" where
  "handle_next t1 t2 p =
    (case pp_handlers p of
       [] \<Rightarrow> None
     | (b, sender, err) # hs \<Rightarrow>
         (case rcv_handler t1 t2 err (pp_store p b) sender (pp_plex p) of
            (None, _) \<Rightarrow> None
          | (Some out, s) \<Rightarrow> Some (drop_ref b (p\<lparr>pp_plex := s, pp_handlers := hs,
              pp_store := (pp_store p)(b := handled_buf err (pp_store p b) (pp_plex p)),
              pp_sends := pp_sends p @ map (\<lambda>x. (b, fst x)) out\<rparr>))))"

definition start_send :: "'ep pipe \<Rightarrow> 'ep pipe" where
  "start_send p = p\<lparr>pp_sending := pp_sending p @ [hd (pp_sends p)], pp_sends := tl (pp_sends p),
    pp_tx_count := pp_tx_count p + 1\<rparr>"

text \<open>The network takes the bytes at the end of the send, whose handler held the buffer until then.\<close>

definition send_done :: "'ep pipe \<Rightarrow> 'ep pipe" where
  "send_done p =
    (let (b, ep) = hd (pp_sending p)
     in drop_ref b (p\<lparr>pp_sending := tl (pp_sending p), pp_sent := pp_sent p @ [(ep, pp_store p b)]\<rparr>))"

definition delete_next :: "'ep pipe \<Rightarrow> 'ep pipe" where
  "delete_next p =
    (let b = hd (pp_deleters p)
     in p\<lparr>pp_deleters := tl (pp_deleters p),
          pp_rcv := (pp_rcv p)\<lparr>rs_flight := remove1 b (rs_flight (pp_rcv p)), rs_pool := recycle b (rs_pool (pp_rcv p))\<rparr>\<rparr>)"

text \<open>The handlers of timers, and the timeout handlers they post.\<close>

inductive plex_timer :: "'ep::linorder plex \<times> 'ep list \<Rightarrow> 'ep plex \<times> 'ep list \<Rightarrow> bool" where
  active: "tc_cache (px_active s) k = Some e \<Longrightarrow> ce_timer e \<le> fst t \<Longrightarrow>
    active_timer t k False s = (Inr r, s') \<Longrightarrow>
    plex_timer (s, posted) (s', posted @ (case r of None \<Rightarrow> [] | Some ep \<Rightarrow> [ep]))"
| address: "plex_timer (s, posted) (address_timer t a k False s, posted)"
| timeout: "plex_timer (s, ps @ ep # qs) (timeout_handler ep s, ps @ qs)"

lemma plex_timer_step: "plex_timer c c' \<Longrightarrow> plex_step c c'"
  by (induction rule: plex_timer.induct) (rule plex_step.intros; assumption)+

inductive pipe_reach :: "nat \<Rightarrow> 'ep::linorder plex \<Rightarrow> 'ep pipe \<Rightarrow> bool" for m s0 where
  start: "pipe_reach m s0 (new_pipe m s0)"
| received: "pipe_reach m s0 p \<Longrightarrow> rs_out (pp_rcv p) = Receiving b \<Longrightarrow> fresh \<notin> set (all_bufs (pp_rcv p)) \<Longrightarrow>
    length data \<le> 64 * 1024 \<Longrightarrow> pipe_reach m s0 (receive_done m fresh b sender err data p)"
| writable: "pipe_reach m s0 p \<Longrightarrow> rs_out (pp_rcv p) = Delayed \<Longrightarrow> fresh \<notin> set (all_bufs (pp_rcv p)) \<Longrightarrow>
    pipe_reach m s0 (p\<lparr>pp_rcv := do_rcv m fresh (pp_rcv p)\<rparr>)"
| handled: "pipe_reach m s0 p \<Longrightarrow> handle_next t1 t2 p = Some p' \<Longrightarrow> pipe_reach m s0 p'"
| timer: "pipe_reach m s0 p \<Longrightarrow> plex_timer (pp_plex p, pp_timeouts p) (s, ts) \<Longrightarrow>
    pipe_reach m s0 (p\<lparr>pp_plex := s, pp_timeouts := ts\<rparr>)"
| sending: "pipe_reach m s0 p \<Longrightarrow> pp_sends p \<noteq> [] \<Longrightarrow> pipe_reach m s0 (start_send p)"
| sent: "pipe_reach m s0 p \<Longrightarrow> pp_sending p \<noteq> [] \<Longrightarrow> pipe_reach m s0 (send_done p)"
| deleted: "pipe_reach m s0 p \<Longrightarrow> pp_deleters p \<noteq> [] \<Longrightarrow> pipe_reach m s0 (delete_next p)"

section \<open>The specification: one datagram after the other\<close>

inductive plex_serves :: "'ep::linorder plex \<Rightarrow> 'ep arrival list \<Rightarrow> 'ep send list \<Rightarrow> 'ep plex \<times> 'ep list \<Rightarrow> bool"
  for s0 where
  start: "plex_serves s0 [] [] (s0, [])"
| serve: "plex_serves s0 ds outs (s, ts) \<Longrightarrow> length buf \<le> 64 * 1024 \<Longrightarrow>
    rcv_handler t1 t2 err buf sender s = (Some out, s') \<Longrightarrow>
    plex_serves s0 (ds @ [(sender, err, buf)]) (outs @ out) (s', ts)"
| timer: "plex_serves s0 ds outs c \<Longrightarrow> plex_timer c c' \<Longrightarrow> plex_serves s0 ds outs c'"

lemma plex_serves_reach: "plex_serves s0 ds outs c \<Longrightarrow> plex_reach s0 c"
  by (induction rule: plex_serves.induct) (blast intro: plex_reach.intros plex_step.rcv plex_timer_step)+

text \<open>All datagrams of a handler carry the bytes it leaves in the buffer.\<close>

lemma rcv_handler_bufs:
  assumes "rcv_handler t1 t2 err buf sender s = (Some out, s')"
  shows "out = map (\<lambda>ep. (ep, handled_buf err buf s)) (map fst out)"
proof -
  have fwd: "forward b x brs = map (\<lambda>ep. (ep, b)) (map fst (forward b x brs))" for b and x :: 'a and brs
    by (simp add: forward_def comp_def)
  have fl: "flood b x brs s1 = map (\<lambda>ep. (ep, b)) (map fst (flood b x brs s1))" for b and x :: 'a and brs s1
    by (simp add: flood_def forward_def comp_def)
  obtain brs s1 where b: "branches t1 sender s = (brs, s1)" by fastforce
  have s1: "px_mode s1 = px_mode s" "px_vm s1 = px_vm s"
    using b by (auto simp: branches_def split: if_splits prod.splits add_result.splits)
  show ?thesis
  proof (cases "\<not> err \<and> px_mode s = SwitchMode")
    case False
    then show ?thesis using assms fwd fl
      by (auto simp: rcv_handler_def b s1 handled_buf_def hub_handler_def trunk_handler_def prune_handler_eq
          split: if_splits plex_mode.splits list.splits)
  next
    case True
    then show ?thesis using assms fwd fl
      by (auto simp: rcv_handler_def b s1 handled_buf_def switch_handler_def front_hd Let_def
          split: if_splits prod.splits option.splits)
  qed
qed

section \<open>Ownership of buffers\<close>

text \<open>The receive loop runs as in \<open>RcvPool\<close>, where the buffers in flight are those with a reference or a posted
  deleter; a buffer waits for one handler, or for sends, or for its deleter.\<close>

definition owned :: "nat \<Rightarrow> 'ep pipe \<Rightarrow> bool" where
  "owned m p \<longleftrightarrow> rcv_reach m 0 (pp_rcv p) \<and> set (held p) \<union> set (pp_deleters p) = set (rs_flight (pp_rcv p))
    \<and> distinct (map fst (pp_handlers p)) \<and> distinct (pp_deleters p) \<and> set (held p) \<inter> set (pp_deleters p) = {}
    \<and> fst ` set (pp_handlers p) \<inter> (fst ` set (pp_sends p) \<union> fst ` set (pp_sending p)) = {}"

lemma owned_flight:
  assumes "owned m p"
  shows "distinct (rs_flight (pp_rcv p))" "rs_out (pp_rcv p) = Receiving b \<Longrightarrow> b \<notin> set (rs_flight (pp_rcv p))"
    "length (rs_flight (pp_rcv p)) \<le> m"
  using rcv_reach_inv [of m 0 "pp_rcv p"] assms by (auto simp: owned_def pool_inv_def all_bufs_def)

lemma drop_ref_simps [simp]:
  "pp_rcv (drop_ref b p) = pp_rcv p" "pp_store (drop_ref b p) = pp_store p" "pp_handlers (drop_ref b p) = pp_handlers p"
  "pp_sends (drop_ref b p) = pp_sends p" "pp_sending (drop_ref b p) = pp_sending p" "pp_plex (drop_ref b p) = pp_plex p"
  "pp_timeouts (drop_ref b p) = pp_timeouts p" "pp_rx_count (drop_ref b p) = pp_rx_count p"
  "pp_tx_count (drop_ref b p) = pp_tx_count p" "pp_arrived (drop_ref b p) = pp_arrived p" "pp_sent (drop_ref b p) = pp_sent p"
  "held (drop_ref b p) = held p"
  by (simp_all add: drop_ref_def held_def)

text \<open>Dropping a reference keeps a buffer owned by the deleter at least.\<close>

lemma owned_drop_ref:
  assumes "rcv_reach m 0 (pp_rcv p)" "insert b (set (held p)) \<union> set (pp_deleters p) = set (rs_flight (pp_rcv p))"
    "distinct (map fst (pp_handlers p))" "distinct (pp_deleters p)"
    "insert b (set (held p)) \<inter> set (pp_deleters p) = {}"
    "fst ` set (pp_handlers p) \<inter> (fst ` set (pp_sends p) \<union> fst ` set (pp_sending p)) = {}"
  shows "owned m (drop_ref b p)"
proof (cases "b \<in> set (held p)")
  case True
  then show ?thesis using assms by (simp add: owned_def drop_ref_def insert_absorb)
next
  case False
  then have "pp_deleters (drop_ref b p) = pp_deleters p @ [b]" by (simp add: drop_ref_def)
  then show ?thesis using assms False by (auto simp: owned_def)
qed

lemma do_rcv_flight [simp]: "rs_flight (do_rcv m fresh r) = rs_flight r"
  by (simp add: do_rcv_def split: prod.split)

lemma owned_received:
  assumes "owned m p" "rs_out (pp_rcv p) = Receiving b" "fresh \<notin> set (all_bufs (pp_rcv p))"
  shows "owned m (receive_done m fresh b sender err data p)"
proof -
  have b: "b \<notin> set (rs_flight (pp_rcv p))" using owned_flight(2) [OF assms(1,2)] .
  have "rcv_reach m 0 (pp_rcv (receive_done m fresh b sender err data p))"
    using rcv_reach.step [OF _ rcv_step.received [OF assms(2,3)], of m 0] assms(1)
    by (simp add: owned_def receive_done_def)
  then show ?thesis using assms(1) b by (auto simp: owned_def receive_done_def held_def)
qed

lemma owned_writable:
  assumes "owned m p" "rs_out (pp_rcv p) = Delayed" "fresh \<notin> set (all_bufs (pp_rcv p))"
  shows "owned m (p\<lparr>pp_rcv := do_rcv m fresh (pp_rcv p)\<rparr>)"
  using rcv_reach.step [OF _ rcv_step.writable [OF assms(2,3)], of m 0] assms(1) by (simp add: owned_def held_def)

lemma owned_handled:
  assumes "owned m p" "handle_next t1 t2 p = Some p'"
  shows "owned m p'"
proof -
  obtain b sender err hs where h: "pp_handlers p = (b, sender, err) # hs"
    using assms(2) by (auto simp: handle_next_def split: list.splits)
  obtain out s where r: "rcv_handler t1 t2 err (pp_store p b) sender (pp_plex p) = (Some out, s)"
    using assms(2) h by (auto simp: handle_next_def split: prod.splits option.splits)
  have "p' = drop_ref b (p\<lparr>pp_plex := s, pp_handlers := hs,
      pp_store := (pp_store p)(b := handled_buf err (pp_store p b) (pp_plex p)),
      pp_sends := pp_sends p @ map (\<lambda>x. (b, fst x)) out\<rparr>)"
    using assms(2) h r by (simp add: handle_next_def)
  moreover have "fst ` (\<lambda>x. (b, fst x)) ` set out = (if out = [] then {} else {b})"
    by (simp add: image_image image_constant_conv)
  ultimately show ?thesis using assms(1) h
    by (simp only:, intro owned_drop_ref) (auto simp: owned_def held_def image_Un)
qed

lemma owned_send_done:
  assumes "owned m p" "pp_sending p \<noteq> []"
  shows "owned m (send_done p)"
proof -
  obtain b ep xs where x: "pp_sending p = (b, ep) # xs" using assms(2) by (cases "pp_sending p") auto
  then have "send_done p = drop_ref b (p\<lparr>pp_sending := xs, pp_sent := pp_sent p @ [(ep, pp_store p b)]\<rparr>)"
    by (simp add: send_done_def)
  then show ?thesis using assms(1) x
    by (simp only:, intro owned_drop_ref) (auto simp: owned_def held_def)
qed

lemma owned_deleted:
  assumes "owned m p" "pp_deleters p \<noteq> []"
  shows "owned m (delete_next p)"
proof -
  obtain b bs where b: "pp_deleters p = b # bs" using assms(2) by (cases "pp_deleters p") auto
  then have "b \<in> set (rs_flight (pp_rcv p))" using assms(1) by (auto simp: owned_def)
  then have "rcv_reach m 0 (pp_rcv (delete_next p))"
    using rcv_reach.step [OF _ rcv_step.release, of m 0 "pp_rcv p" b] assms(1) b by (simp add: owned_def delete_next_def)
  then show ?thesis using assms(1) b owned_flight(1) [OF assms(1)]
    by (auto simp: owned_def delete_next_def held_def)
qed

lemma owned_start_send:
  assumes "owned m p" "pp_sends p \<noteq> []"
  shows "owned m (start_send p)"
proof -
  obtain x xs where "pp_sends p = x # xs" using assms(2) by (cases "pp_sends p") auto
  then show ?thesis using assms(1) by (auto simp: owned_def start_send_def held_def)
qed

lemma pipe_owned: "pipe_reach m s0 p \<Longrightarrow> owned m p"
proof (induction rule: pipe_reach.induct)
  case start
  show ?case using rcv_reach.start [of m 0] by (simp add: owned_def new_pipe_def held_def do_rcv_flight)
next
  case (timer p s ts)
  then show ?case by (simp add: owned_def held_def)
qed (simp_all add: owned_received owned_writable owned_handled owned_start_send owned_send_done owned_deleted)

section \<open>The refinement\<close>

text \<open>What waits to be handled and what waits to be sent, with the bytes now in the buffers.\<close>

definition waiting :: "'ep pipe \<Rightarrow> 'ep arrival list" where
  "waiting p = map (\<lambda>(b, sender, err). (sender, err, pp_store p b)) (pp_handlers p)"

definition unsent_datagrams :: "'ep pipe \<Rightarrow> 'ep send list" where
  "unsent_datagrams p = map (\<lambda>(b, ep). (ep, pp_store p b)) (pp_sending p @ pp_sends p)"

definition served :: "'ep::linorder plex \<Rightarrow> 'ep pipe \<Rightarrow> bool" where
  "served s0 p \<longleftrightarrow> (\<exists>ds. pp_arrived p = ds @ waiting p
      \<and> plex_serves s0 ds (pp_sent p @ unsent_datagrams p) (pp_plex p, pp_timeouts p))
    \<and> list_all (\<lambda>(sender, err, data). length data \<le> 64 * 1024) (pp_arrived p)
    \<and> pp_rx_count p = of_nat (length (pp_arrived p))
    \<and> pp_tx_count p = of_nat (length (pp_sent p) + length (pp_sending p))"

lemma waiting_drop_ref [simp]: "waiting (drop_ref b p) = waiting p"
  and unsent_drop_ref [simp]: "unsent_datagrams (drop_ref b p) = unsent_datagrams p"
  by (simp_all add: waiting_def unsent_datagrams_def)

text \<open>Bytes put into a buffer that nobody else holds.\<close>

lemma waiting_store:
  "b \<notin> fst ` set (pp_handlers p) \<Longrightarrow> waiting (p\<lparr>pp_store := (pp_store p)(b := data)\<rparr>) = waiting p"
  by (force simp: waiting_def)

lemma unsent_store:
  "b \<notin> fst ` set (pp_sends p) \<union> fst ` set (pp_sending p) \<Longrightarrow>
    unsent_datagrams (p\<lparr>pp_store := (pp_store p)(b := data)\<rparr>) = unsent_datagrams p"
  by (force simp: unsent_datagrams_def)

lemma served_received:
  assumes "served s0 p" "owned m p" "rs_out (pp_rcv p) = Receiving b" "length data \<le> 64 * 1024"
  shows "served s0 (receive_done m fresh b sender err data p)"
proof -
  have b: "b \<notin> fst ` set (pp_handlers p)" "b \<notin> fst ` set (pp_sends p) \<union> fst ` set (pp_sending p)"
    using owned_flight(2) [OF assms(2,3)] assms(2) by (auto simp: owned_def held_def)
  have "waiting (receive_done m fresh b sender err data p) = waiting p @ [(sender, err, data)]"
    using waiting_store [OF b(1), of data] by (simp add: receive_done_def waiting_def)
  moreover have "unsent_datagrams (receive_done m fresh b sender err data p) = unsent_datagrams p"
    using unsent_store [OF b(2), of data] by (simp add: receive_done_def unsent_datagrams_def)
  ultimately show ?thesis using assms(1,4) by (auto simp: served_def receive_done_def)
qed

lemma served_handled:
  assumes "served s0 p" "owned m p" "handle_next t1 t2 p = Some p'"
  shows "served s0 p'"
proof -
  obtain b sender err hs where h: "pp_handlers p = (b, sender, err) # hs"
    using assms(3) by (auto simp: handle_next_def split: list.splits)
  let ?buf = "pp_store p b"
  obtain out s where r: "rcv_handler t1 t2 err ?buf sender (pp_plex p) = (Some out, s)"
    using assms(3) h by (auto simp: handle_next_def split: prod.splits option.splits)
  let ?data = "handled_buf err ?buf (pp_plex p)"
  have b: "b \<notin> fst ` set hs" "b \<notin> fst ` set (pp_sends p) \<union> fst ` set (pp_sending p)"
    using assms(2) h by (auto simp: owned_def)
  have p': "p' = drop_ref b (p\<lparr>pp_plex := s, pp_handlers := hs, pp_store := (pp_store p)(b := ?data),
      pp_sends := pp_sends p @ map (\<lambda>x. (b, fst x)) out\<rparr>)"
    using assms(3) h r by (simp add: handle_next_def)
  have w: "waiting p = (sender, err, ?buf) # waiting p'"
    using h waiting_store [of b "p\<lparr>pp_handlers := hs\<rparr>" ?data] b(1) by (simp add: p' waiting_def)
  have "map (\<lambda>x. (fst x, ?data)) out = out" using rcv_handler_bufs [OF r] by (simp add: comp_def)
  then have u: "unsent_datagrams p' = unsent_datagrams p @ out"
    using unsent_store [OF b(2), of ?data] by (simp add: p' unsent_datagrams_def comp_def)
  obtain ds where ds: "pp_arrived p = ds @ waiting p"
      "plex_serves s0 ds (pp_sent p @ unsent_datagrams p) (pp_plex p, pp_timeouts p)"
    using assms(1) by (auto simp: served_def)
  have "length ?buf \<le> 64 * 1024" using assms(1) ds(1) w by (simp add: served_def)
  from plex_serves.serve [OF ds(2) this r]
  have "plex_serves s0 (ds @ [(sender, err, ?buf)]) (pp_sent p' @ unsent_datagrams p') (pp_plex p', pp_timeouts p')"
    using u by (simp add: p')
  moreover have "pp_arrived p' = (ds @ [(sender, err, ?buf)]) @ waiting p'" using ds(1) w by (simp add: p')
  ultimately show ?thesis using assms(1) by (auto simp: served_def p')
qed

lemma pipe_served: "pipe_reach m s0 p \<Longrightarrow> served s0 p"
proof (induction rule: pipe_reach.induct)
  case start
  show ?case using plex_serves.start [of s0] by (simp add: served_def new_pipe_def waiting_def unsent_datagrams_def)
next
  case (received p b fresh data sender err)
  then show ?case using served_received pipe_owned by blast
next
  case (writable p fresh)
  then show ?case by (simp add: served_def waiting_def unsent_datagrams_def)
next
  case (handled p t1 t2 p')
  then show ?case using served_handled pipe_owned by blast
next
  case (timer p s ts)
  then show ?case using plex_serves.timer by (fastforce simp: served_def waiting_def unsent_datagrams_def)
next
  case (sending p)
  then obtain x xs where "pp_sends p = x # xs" by (cases "pp_sends p") auto
  then show ?case using sending.IH by (simp add: served_def start_send_def waiting_def unsent_datagrams_def)
next
  case (sent p)
  then obtain b ep xs where "pp_sending p = (b, ep) # xs" by (cases "pp_sending p") auto
  then show ?case using sent.IH by (simp add: served_def send_done_def waiting_def unsent_datagrams_def)
next
  case (deleted p)
  then show ?case by (simp add: served_def delete_next_def waiting_def unsent_datagrams_def Let_def)
qed

section \<open>Properties\<close>

text \<open>
  C1. The multiplexer serves datagrams one by one, however its strands interleave: in every run, what was
  handed to the network, then the sends in flight and those posted, is exactly what a multiplexer sends that
  handles the datagrams in the order they arrived, up to those still waiting, each with the bytes received (or
  left by the switch program), though buffers are shared and used again. At most \<open>MaxProcessQ\<close> datagrams
  wait, and the two counters count what arrived and what was sent.
\<close>

theorem plex_pipeline:
  assumes "pipe_reach m s0 p"
  shows "(\<exists>ds. pp_arrived p = ds @ waiting p
      \<and> plex_serves s0 ds (pp_sent p @ unsent_datagrams p) (pp_plex p, pp_timeouts p))
    \<and> length (pp_handlers p) \<le> m
    \<and> pp_rx_count p = of_nat (length (pp_arrived p))
    \<and> pp_tx_count p = of_nat (length (pp_sent p) + length (pp_sending p))"
proof -
  have o: "owned m p" using assms by (rule pipe_owned)
  have "length (pp_handlers p) = card (fst ` set (pp_handlers p))"
    using o by (metis distinct_card length_map owned_def set_map)
  also have "\<dots> \<le> card (set (rs_flight (pp_rcv p)))"
    using o by (intro card_mono) (auto simp: owned_def held_def)
  also have "\<dots> \<le> m" using owned_flight(3) [OF o] card_length le_trans by blast
  finally show ?thesis using pipe_served [OF assms] by (simp add: served_def)
qed

text \<open>A datagram through the multiplexer of \<open>hub2\<close>, to its fixed branch.\<close>

theorem plex_pipeline_witness:
  "\<exists>p ds. pipe_reach 2 hub2 p \<and> pp_sent p = [(2, [7])] \<and> pp_deleters p = [0] \<and> pp_tx_count p = 1
    \<and> plex_serves hub2 ds [(2, [7])] (pp_plex p, [])"
proof -
  let ?p0 = "new_pipe 2 hub2"
  let ?p1 = "receive_done 2 1 0 5 False [7] ?p0"
  note defs = receive_done_def new_pipe_def do_rcv_def rcv_start_def handle_next_def
  have 1: "pipe_reach 2 hub2 ?p1"
    by (rule pipe_reach.received [OF pipe_reach.start]) (simp_all add: defs all_bufs_def)
  obtain s where r: "rcv_handler (0, 0) (0, 0) False [7] 5 hub2 = (Some [(2, [7])], s)"
    by (simp add: hub2_defs hub_handler_def flood_def forward_def)
  then obtain p2 where p2: "handle_next (0, 0) (0, 0) ?p1 = Some p2" "pp_sends p2 = [(0, 2)]" "pp_sending p2 = []"
    "pp_handlers p2 = []" "pp_deleters p2 = []" "pp_sent p2 = []" "pp_store p2 0 = [7]" "pp_timeouts p2 = []"
    "pp_tx_count p2 = 0"
    by (simp add: defs drop_ref_def held_def handled_buf_def hub2_def)
  have 2: "pipe_reach 2 hub2 p2" by (rule pipe_reach.handled [OF 1 p2(1)])
  have 3: "pipe_reach 2 hub2 (start_send p2)" by (rule pipe_reach.sending [OF 2]) (simp add: p2)
  let ?p = "send_done (start_send p2)"
  have 4: "pipe_reach 2 hub2 ?p" by (rule pipe_reach.sent [OF 3]) (simp add: start_send_def)
  have p: "pp_sent ?p = [(2, [7])]" "pp_deleters ?p = [0]" "pp_tx_count ?p = 1" "unsent_datagrams ?p = []"
    "pp_timeouts ?p = []"
    by (simp_all add: send_done_def start_send_def drop_ref_def held_def unsent_datagrams_def p2)
  show ?thesis using plex_pipeline [OF 4] 4 p by auto
qed

text \<open>
  The exception to the strands: the timeout handler of a fixed branch is posted to the \<open>io_context\<close>, so it may run in
  one thread while a handler of the process strand runs in another, and both use the inactive fixed branches. A run
  gets to such a state.
\<close>

theorem timeout_beside_handler:
  "\<exists>p. pipe_reach 2 hub2 p \<and> pp_timeouts p = [2] \<and> 2 \<in> px_perma (pp_plex p) \<and> map fst (pp_handlers p) = [1]"
proof -
  let ?p0 = "new_pipe 2 hub2"
  let ?p1 = "receive_done 2 1 0 2 False [9] ?p0"
  note defs = receive_done_def new_pipe_def do_rcv_def rcv_start_def handle_next_def
  have 1: "pipe_reach 2 hub2 ?p1"
    by (rule pipe_reach.received [OF pipe_reach.start]) (simp_all add: defs all_bufs_def)
  have r: "rcv_handler (0, 0) (0, 0) False [9] 2 hub2 = (Some [], hub2_a)"
    by (simp add: hub2_defs hub_handler_def flood_def forward_def)
  then obtain p2 where p2: "handle_next (0, 0) (0, 0) ?p1 = Some p2" "pp_plex p2 = hub2_a" "pp_timeouts p2 = []"
    "pp_rcv p2 = pp_rcv ?p1" "pp_handlers p2 = []"
    by (simp add: defs drop_ref_def held_def handled_buf_def hub2_def)
  have 2: "pipe_reach 2 hub2 p2" by (rule pipe_reach.handled [OF 1 p2(1)])
  have "plex_timer (hub2_a, []) (hub2_b, [] @ (case Some 2 of None \<Rightarrow> [] | Some ep \<Rightarrow> [ep]))"
    by (rule plex_timer.active [where e = "\<lparr>ce_timer = 10, ce_access = 0\<rparr>" and t = "(10, 10)" and k = 2])
      (simp_all add: hub2_defs)
  then have 3: "pipe_reach 2 hub2 (p2\<lparr>pp_plex := hub2_b, pp_timeouts := [2]\<rparr>)"
    by (intro pipe_reach.timer [OF 2]) (simp add: p2)
  let ?p3 = "p2\<lparr>pp_plex := hub2_b, pp_timeouts := [2]\<rparr>"
  let ?p4 = "receive_done 2 2 1 5 False [7] ?p3"
  have "pipe_reach 2 hub2 ?p4"
    by (rule pipe_reach.received [OF 3]) (simp_all add: p2(4) defs all_bufs_def)
  moreover have "pp_timeouts ?p4 = [2]" "pp_plex ?p4 = hub2_b" "map fst (pp_handlers ?p4) = [1]"
    by (simp_all add: receive_done_def p2(5))
  moreover have "2 \<in> px_perma hub2_b" by (simp add: hub2_defs)
  ultimately show ?thesis by (metis (no_types))
qed

end
