(* ===== verification/CacheTimers.thy ===== *)
theory CacheTimers
  imports TimeoutCache
begin

text \<open>
  The cache of \<open>src/src/TimeoutCache.h\<close> in the event loop: the timer waits in flight, the clock, and what the
  entries promise. A wait ends at its instant or up to \<open>late\<close> ticks afterwards, and two clock readings of one
  handler are at most \<open>slack\<close> ticks apart; both bounds are parameters.
\<close>

section \<open>Steps\<close>

text \<open>The cache, the pending waits with the instant each timer was set to, the clock, the posted timeout
  handlers, and a history: the last time each key was taken or refreshed.\<close>

record 'k cache_sys =
  cs_cache :: "'k tcache"
  cs_waits :: "('k \<times> nat) list"
  cs_now :: nat
  cs_posted :: "'k list"
  cs_last :: "'k \<rightharpoonup> nat"

definition cs_new :: "nat \<Rightarrow> nat \<Rightarrow> nat \<Rightarrow> 'k cache_sys" where
  "cs_new timeout maximum now = \<lparr>cs_cache = tc_set_max maximum (tc_new timeout), cs_waits = [], cs_now = now,
    cs_posted = [], cs_last = Map.empty\<rparr>"

text \<open>\<open>Add\<close> starts a wait for a new entry.\<close>

definition cs_add :: "nat \<times> nat \<Rightarrow> 'k \<Rightarrow> 'k cache_sys \<Rightarrow> 'k cache_sys" where
  "cs_add t key y =
    (case tc_add t key (cs_cache y) of
       (REFRESHED, c) \<Rightarrow> y\<lparr>cs_cache := c, cs_now := snd t, cs_last := (cs_last y)(key \<mapsto> fst t)\<rparr>
     | (ADDED, c) \<Rightarrow> y\<lparr>cs_cache := c, cs_waits := cs_waits y @ [(key, fst t + tc_timeout c)], cs_now := snd t,
         cs_last := (cs_last y)(key \<mapsto> snd t)\<rparr>
     | (DROPPED, c) \<Rightarrow> y\<lparr>cs_cache := c, cs_now := snd t\<rparr>)"

text \<open>The end of a wait runs \<open>TimerHandler\<close>: it posts the timeout handler, or waits again for the same
  entry. \<open>None\<close> is the exception of \<open>Cache.at\<close>.\<close>

definition cs_fire :: "nat \<times> nat \<Rightarrow> 'k \<times> nat \<Rightarrow> 'k cache_sys \<Rightarrow> 'k cache_sys option" where
  "cs_fire t w y =
    (let y' = y\<lparr>cs_waits := remove1 w (cs_waits y), cs_now := snd t\<rparr>
     in case tc_timer_handler t (fst w) False (cs_cache y) of
          (Inl _, _) \<Rightarrow> None
        | (Inr (Some key), c) \<Rightarrow> Some (y'\<lparr>cs_cache := c, cs_posted := cs_posted y @ [key]\<rparr>)
        | (Inr None, c) \<Rightarrow> Some (y'\<lparr>cs_cache := c,
            cs_waits := cs_waits y' @ [(fst w, ce_timer (the (tc_cache c (fst w))))]\<rparr>))"

text \<open>Two clock readings of one handler, and no wait overdue by more than \<open>late\<close>.\<close>

definition readings_ok :: "nat \<Rightarrow> nat \<times> nat \<Rightarrow> 'k cache_sys \<Rightarrow> bool" where
  "readings_ok slack t y \<longleftrightarrow> cs_now y \<le> fst t \<and> fst t \<le> snd t \<and> snd t \<le> fst t + slack"

definition on_time :: "nat \<Rightarrow> nat \<Rightarrow> 'k cache_sys \<Rightarrow> bool" where
  "on_time late n y \<longleftrightarrow> list_all (\<lambda>w. n \<le> snd w + late) (cs_waits y)"

inductive cache_run :: "nat \<Rightarrow> nat \<Rightarrow> 'k cache_sys \<Rightarrow> 'k cache_sys \<Rightarrow> bool" for slack late y0 where
  start: "cache_run slack late y0 y0"
| elapse: "cache_run slack late y0 y \<Longrightarrow> cs_now y \<le> n \<Longrightarrow> on_time late n y \<Longrightarrow> cache_run slack late y0 (y\<lparr>cs_now := n\<rparr>)"
| add: "cache_run slack late y0 y \<Longrightarrow> readings_ok slack t y \<Longrightarrow> on_time late (snd t) y \<Longrightarrow>
    cache_run slack late y0 (cs_add t key y)"
| fire: "cache_run slack late y0 y \<Longrightarrow> w \<in> set (cs_waits y) \<Longrightarrow> snd w \<le> fst t \<Longrightarrow> readings_ok slack t y \<Longrightarrow>
    on_time late (snd t) y \<Longrightarrow> cs_fire t w y = Some y' \<Longrightarrow> cache_run slack late y0 y'"
| posted: "cache_run slack late y0 y \<Longrightarrow> cs_posted y = key # ks \<Longrightarrow> cache_run slack late y0 (y\<lparr>cs_posted := ks\<rparr>)"

section \<open>The invariant\<close>

text \<open>Each entry has one wait, set to its timer; its access time is the last one, and it is not overdue. A key
  taken before and no longer present has been idle for the timeout.\<close>

definition entry_ok :: "nat \<Rightarrow> nat \<Rightarrow> 'k cache_sys \<Rightarrow> 'k \<Rightarrow> cache_entry \<Rightarrow> bool" where
  "entry_ok slack late y k e \<longleftrightarrow> (k, ce_timer e) \<in> set (cs_waits y) \<and> cs_last y k = Some (ce_access e)
    \<and> ce_access e \<le> cs_now y \<and> ce_timer e \<le> ce_access e + tc_timeout (cs_cache y) + slack
    \<and> cs_now y \<le> ce_access e + tc_timeout (cs_cache y) + slack + late"

definition timers_ok :: "nat \<Rightarrow> nat \<Rightarrow> 'k cache_sys \<Rightarrow> bool" where
  "timers_ok slack late y \<longleftrightarrow> tc_wf (cs_cache y) \<and> distinct (map fst (cs_waits y))
    \<and> set (map fst (cs_waits y)) = dom (tc_cache (cs_cache y))
    \<and> (\<forall>k e. tc_cache (cs_cache y) k = Some e \<longrightarrow> entry_ok slack late y k e)
    \<and> (\<forall>k a. tc_cache (cs_cache y) k = None \<longrightarrow> cs_last y k = Some a \<longrightarrow> a + tc_timeout (cs_cache y) \<le> cs_now y)"

lemma timers_ok_new: "timers_ok slack late (cs_new timeout maximum now)"
  by (simp add: timers_ok_def cs_new_def tc_wf_def tc_set_max_def tc_new_def)

lemma wait_of_entry:
  assumes "timers_ok slack late y" "w \<in> set (cs_waits y)"
  obtains e where "tc_cache (cs_cache y) (fst w) = Some e" "snd w = ce_timer e"
proof -
  obtain e where e: "tc_cache (cs_cache y) (fst w) = Some e"
    using assms by (force simp: timers_ok_def)
  then have "(fst w, ce_timer e) \<in> set (cs_waits y)" using assms(1) by (simp add: timers_ok_def entry_ok_def)
  then have "snd w = ce_timer e"
    using assms by (metis eq_key_imp_eq_value prod.collapse timers_ok_def)
  then show thesis using e that by blast
qed

lemma on_time_entry:
  assumes "entry_ok slack late y k e" "on_time late n y"
  shows "n \<le> ce_access e + tc_timeout (cs_cache y) + slack + late"
  using assms by (fastforce simp: entry_ok_def on_time_def list_all_iff)

lemma timers_ok_elapse:
  assumes "timers_ok slack late y" "cs_now y \<le> n" "on_time late n y"
  shows "timers_ok slack late (y\<lparr>cs_now := n\<rparr>)"
proof -
  have "entry_ok slack late (y\<lparr>cs_now := n\<rparr>) k e" if "tc_cache (cs_cache y) k = Some e" for k e
  proof -
    have "entry_ok slack late y k e" using assms(1) that by (simp add: timers_ok_def)
    then show ?thesis using on_time_entry [OF _ assms(3)] assms(2) by (auto simp: entry_ok_def)
  qed
  moreover have "a + tc_timeout (cs_cache y) \<le> n"
    if "tc_cache (cs_cache y) k = None" "cs_last y k = Some a" for k a
    using assms(1,2) that order_trans unfolding timers_ok_def by blast
  ultimately show ?thesis using assms(1) by (simp add: timers_ok_def)
qed

lemma timers_ok_add:
  assumes "timers_ok slack late y" "readings_ok slack t y" "on_time late (snd t) y"
  shows "timers_ok slack late (cs_add t key y)"
proof -
  let ?y = "y\<lparr>cs_now := snd t\<rparr>"
  have ok: "timers_ok slack late ?y"
    using timers_ok_elapse [OF assms(1) _ assms(3)] assms(2) by (simp add: readings_ok_def)
  have t: "fst t \<le> snd t" "snd t \<le> fst t + slack" "cs_now y \<le> fst t" using assms(2) by (simp_all add: readings_ok_def)
  have wf: "tc_wf (snd (tc_add t key (cs_cache y)))" using assms(1) by (simp add: timers_ok_def tc_add_wf)
  show ?thesis
  proof (cases "tc_cache (cs_cache y) key")
    case (Some e)
    then have "entry_ok slack late y key e" using assms(1) by (simp add: timers_ok_def)
    then have "entry_ok slack late (cs_add t key y) key (e\<lparr>ce_access := fst t\<rparr>)"
      using Some t by (auto simp: entry_ok_def cs_add_def tc_add_def)
    moreover have "entry_ok slack late (cs_add t key y) k e'"
      if "tc_cache (cs_cache y) k = Some e'" "k \<noteq> key" for k e'
      using that ok Some by (auto simp: timers_ok_def entry_ok_def cs_add_def tc_add_def)
    ultimately show ?thesis using ok wf Some
      by (auto simp: timers_ok_def cs_add_def tc_add_def)
  next
    case None
    show ?thesis
    proof (cases "length (tc_seq (cs_cache y)) \<ge> tc_max (cs_cache y)")
      case True
      then have "cs_add t key y = ?y" using None by (simp add: cs_add_def tc_add_def)
      then show ?thesis using ok by simp
    next
      case False
      have new: "key \<notin> set (map fst (cs_waits y))" using assms(1) None by (auto simp: timers_ok_def)
      have "entry_ok slack late (cs_add t key y) key \<lparr>ce_timer = fst t + tc_timeout (cs_cache y), ce_access = snd t\<rparr>"
        using None False t by (simp add: entry_ok_def cs_add_def tc_add_def)
      moreover have "entry_ok slack late (cs_add t key y) k e'"
        if "tc_cache (cs_cache y) k = Some e'" "k \<noteq> key" for k e'
        using that ok None False by (auto simp: timers_ok_def entry_ok_def cs_add_def tc_add_def)
      ultimately show ?thesis using ok wf None False new
        by (auto simp: timers_ok_def cs_add_def tc_add_def)
    qed
  qed
qed

lemma timers_ok_fire:
  assumes ok: "timers_ok slack late y" and w: "w \<in> set (cs_waits y)" "snd w \<le> fst t"
    and t: "readings_ok slack t y" "on_time late (snd t) y"
  shows "\<exists>y'. cs_fire t w y = Some y' \<and> timers_ok slack late y' \<and> tc_timeout (cs_cache y') = tc_timeout (cs_cache y)"
proof -
  let ?y = "y\<lparr>cs_now := snd t\<rparr>"
  obtain k at where k: "w = (k, at)" by fastforce
  obtain e where e: "tc_cache (cs_cache y) k = Some e" "at = ce_timer e" using wait_of_entry [OF ok w(1)] k by auto
  have tt: "cs_now y \<le> fst t" "fst t \<le> snd t" "snd t \<le> fst t + slack" using t(1) by (simp_all add: readings_ok_def)
  have ok': "timers_ok slack late ?y" using timers_ok_elapse [OF ok _ t(2)] tt by simp
  then have ke: "entry_ok slack late ?y k e" using e by (simp add: timers_ok_def)
  have dist: "distinct (map fst (cs_waits y))" using ok by (simp add: timers_ok_def)
  then have out: "set (remove1 w (cs_waits y)) = set (cs_waits y) - {w}"
    by (metis distinct_map set_remove1_eq)
  have away: "fst ` (set (cs_waits y) - {w}) = dom (tc_cache (cs_cache y)) - {k}"
  proof -
    have "inj_on fst (set (cs_waits y))" "fst ` set (cs_waits y) = dom (tc_cache (cs_cache y))"
      using dist ok by (simp_all add: distinct_map timers_ok_def)
    then show ?thesis using w(1) k by (simp add: inj_on_image_set_diff [of fst "set (cs_waits y)"])
  qed
  have rest: "entry_ok slack late (?y\<lparr>cs_waits := remove1 w (cs_waits y) @ ws\<rparr>) k' e'"
    if "tc_cache (cs_cache y) k' = Some e'" "k' \<noteq> k" for k' e' ws
    using ok' that k out by (auto simp: timers_ok_def entry_ok_def)
  have dist': "distinct (map fst (remove1 w (cs_waits y)))"
    using dist by (metis distinct_map distinct_remove1 inj_on_subset set_remove1_subset)
  show ?thesis
  proof (cases "fst t < ce_access e + tc_timeout (cs_cache y)")
    case True
    let ?e = "e\<lparr>ce_timer := snd t + (ce_access e + tc_timeout (cs_cache y) - fst t)\<rparr>"
    have h: "tc_timer_handler t k False (cs_cache y) =
        (Inr None, (cs_cache y)\<lparr>tc_cache := (tc_cache (cs_cache y))(k \<mapsto> ?e)\<rparr>)"
      using tc_timer_rearms [OF e(1) True] .
    let ?y' = "?y\<lparr>cs_cache := (cs_cache y)\<lparr>tc_cache := (tc_cache (cs_cache y))(k \<mapsto> ?e)\<rparr>,
      cs_waits := remove1 w (cs_waits y) @ [(k, ce_timer ?e)]\<rparr>"
    have f: "cs_fire t w y = Some ?y'" by (simp add: cs_fire_def k h Let_def)
    have "entry_ok slack late ?y' k ?e" using ke tt True by (auto simp: entry_ok_def)
    moreover have "entry_ok slack late ?y' k' e'" if "tc_cache (cs_cache y) k' = Some e'" "k' \<noteq> k" for k' e'
      using rest [OF that, of "[(k, ce_timer ?e)]"] by (simp add: entry_ok_def)
    moreover have "tc_wf (cs_cache ?y')" using ok e by (auto simp: timers_ok_def tc_wf_def)
    moreover have "distinct (map fst (cs_waits ?y'))" using dist' away out by auto
    moreover have "set (map fst (cs_waits ?y')) = dom (tc_cache (cs_cache ?y'))" using away out by auto
    ultimately have "timers_ok slack late ?y'" using ok' e by (auto simp: timers_ok_def)
    then show ?thesis using f by auto
  next
    case False
    let ?c = "(cs_cache y)\<lparr>tc_seq := remove1 k (tc_seq (cs_cache y)), tc_cache := (tc_cache (cs_cache y))(k := None)\<rparr>"
    let ?y' = "?y\<lparr>cs_cache := ?c, cs_waits := remove1 w (cs_waits y), cs_posted := cs_posted y @ [k]\<rparr>"
    have h: "tc_timer_handler t k False (cs_cache y) = (Inr (Some k), ?c)"
      using tc_timer_expires [OF e(1)] False by simp
    have f: "cs_fire t w y = Some ?y'" by (simp add: cs_fire_def k h Let_def)
    have "entry_ok slack late ?y' k' e'" if "tc_cache (cs_cache y) k' = Some e'" "k' \<noteq> k" for k' e'
      using rest [OF that, of "[]"] by (simp add: entry_ok_def)
    moreover have "tc_wf (cs_cache ?y')"
      using tc_timer_wf [of "cs_cache y" t k False] ok h by (simp add: timers_ok_def)
    moreover have "set (map fst (cs_waits ?y')) = dom (tc_cache (cs_cache ?y'))" using away out by auto
    moreover have "a + tc_timeout (cs_cache y) \<le> snd t" if "cs_last y k' = Some a" "k' = k \<or> tc_cache (cs_cache y) k' = None" for k' a
      using that ke False tt ok' by (auto simp: entry_ok_def timers_ok_def)
    ultimately have "timers_ok slack late ?y'" using dist' by (auto simp: timers_ok_def split: if_splits)
    then show ?thesis using f by auto
  qed
qed

lemma cs_add_timeout: "tc_timeout (cs_cache (cs_add t key y)) = tc_timeout (cs_cache y)"
  by (simp add: cs_add_def tc_add_def split: option.split)

lemma cache_run_ok:
  assumes "cache_run slack late y0 y" "timers_ok slack late y0"
  shows "timers_ok slack late y \<and> tc_timeout (cs_cache y) = tc_timeout (cs_cache y0)"
  using assms
proof (induction rule: cache_run.induct)
  case (elapse y n)
  then show ?case using timers_ok_elapse [OF _ elapse.hyps(2,3)] by simp
next
  case (add y t key)
  then show ?case using timers_ok_add cs_add_timeout by metis
next
  case (fire y w t y')
  then show ?case using timers_ok_fire by fastforce
next
  case (posted y key ks)
  have "timers_ok slack late (y\<lparr>cs_posted := ks\<rparr>) = timers_ok slack late y" by (simp add: timers_ok_def entry_ok_def)
  then show ?case using posted by simp
qed simp

section \<open>Properties\<close>

text \<open>
  C18. The cache holds the keys seen lately: in every run of a new cache in which timer handlers finish at most
  \<open>late\<close> ticks after their instant, a key taken or refreshed less than a timeout ago is present, whatever the
  timers did in between; a key present was taken or refreshed at most a timeout, \<open>slack\<close> and \<open>late\<close> ticks
  ago; each key has exactly one wait, so that \<open>Cache.at\<close> in its handler never throws.
\<close>

theorem cache_tracks:
  assumes "cache_run slack late (cs_new timeout maximum n0) y"
  shows "(\<forall>k a. cs_last y k = Some a \<and> cs_now y < a + timeout \<longrightarrow> k \<in> set (tc_keys (cs_cache y)))
    \<and> (\<forall>k \<in> set (tc_keys (cs_cache y)). \<exists>a. cs_last y k = Some a \<and> a \<le> cs_now y
          \<and> cs_now y \<le> a + timeout + slack + late)
    \<and> distinct (map fst (cs_waits y)) \<and> set (map fst (cs_waits y)) = set (tc_keys (cs_cache y))
    \<and> (\<forall>w \<in> set (cs_waits y). \<forall>t. cs_fire t w y \<noteq> None)"
proof -
  have ok: "timers_ok slack late y" and d: "tc_timeout (cs_cache y) = timeout"
    using cache_run_ok [OF assms timers_ok_new] by (simp_all add: cs_new_def tc_set_max_def tc_new_def)
  have keys: "set (tc_keys (cs_cache y)) = dom (tc_cache (cs_cache y))"
    using ok by (simp add: timers_ok_def tc_wf_def tc_keys_def)
  have entry: "entry_ok slack late y k e" if "tc_cache (cs_cache y) k = Some e" for k e
    using ok that by (simp add: timers_ok_def)
  have gone: "a + timeout \<le> cs_now y" if "tc_cache (cs_cache y) k = None" "cs_last y k = Some a" for k a
    using ok that d by (auto simp: timers_ok_def)
  have "cs_fire t w y \<noteq> None" if w: "w \<in> set (cs_waits y)" for w t
  proof -
    obtain e where "tc_cache (cs_cache y) (fst w) = Some e" using wait_of_entry [OF ok w] by blast
    then show ?thesis by (auto simp: cs_fire_def tc_timer_handler_def Let_def)
  qed
  moreover have "k \<in> dom (tc_cache (cs_cache y))" if "cs_last y k = Some a" "cs_now y < a + timeout" for k a
    using gone [OF _ that(1)] that(2) by (cases "tc_cache (cs_cache y) k") auto
  moreover have "\<exists>a. cs_last y k = Some a \<and> a \<le> cs_now y \<and> cs_now y \<le> a + timeout + slack + late"
    if "k \<in> dom (tc_cache (cs_cache y))" for k
    using that entry d by (fastforce simp: entry_ok_def)
  ultimately show ?thesis using ok keys by (auto simp: timers_ok_def)
qed

text \<open>A key taken at 0 and refreshed at 5, with a timeout of 10: its timer ends at 10 and is set again to 16,
  and then the key goes.\<close>

theorem cache_tracks_witness:
  "\<exists>(y :: nat cache_sys) (y' :: nat cache_sys). cache_run 1 1 (cs_new 10 2 0) y \<and> cs_now y = 11 \<and> tc_keys (cs_cache y) = [7]
    \<and> cache_run 1 1 (cs_new 10 2 0) y' \<and> cs_now y' = 16 \<and> tc_keys (cs_cache y') = [] \<and> cs_posted y' = [7]
    \<and> set (map fst (cs_waits y')) = {}"
proof -
  let ?y0 = "cs_new 10 2 0 :: nat cache_sys"
  let ?y1 = "cs_add (0, 0) 7 ?y0"
  let ?y2 = "cs_add (5, 5) 7 ?y1"
  note defs = cs_add_def tc_add_def cs_new_def tc_set_max_def tc_new_def readings_ok_def on_time_def cs_fire_def
    tc_timer_handler_def Let_def
  have 1: "cache_run 1 1 ?y0 ?y1" by (rule cache_run.add [OF cache_run.start]) (simp_all add: defs)
  have 2: "cache_run 1 1 ?y0 ?y2" by (rule cache_run.add [OF 1]) (simp_all add: defs)
  obtain y3 where y3: "cs_fire (10, 11) (7, 10) ?y2 = Some y3" "tc_keys (cs_cache y3) = [7]" "cs_now y3 = 11"
    "cs_waits y3 = [(7, 16)]" "tc_cache (cs_cache y3) 7 = Some \<lparr>ce_timer = 16, ce_access = 5\<rparr>"
    "tc_timeout (cs_cache y3) = 10" "tc_seq (cs_cache y3) = [7]" "cs_posted y3 = []"
    by (simp add: defs tc_keys_def)
  have 3: "cache_run 1 1 ?y0 y3"
    by (rule cache_run.fire [OF 2 _ _ _ _ y3(1)]) (simp_all add: defs)
  obtain y4 where y4: "cs_fire (16, 16) (7, 16) y3 = Some y4" "tc_keys (cs_cache y4) = []" "cs_now y4 = 16"
    "cs_posted y4 = [7]"
    using y3 by (simp add: cs_fire_def tc_timer_handler_def tc_keys_def Let_def)
  have 4: "cache_run 1 1 ?y0 y4"
    by (rule cache_run.fire [OF 3 _ _ _ _ y4(1)]) (simp_all add: y3 readings_ok_def on_time_def)
  have "set (map fst (cs_waits y4)) = {}" using cache_tracks [OF 4] y4(2) by simp
  then show ?thesis using 3 4 y3(2,3) y4(2-4) by (intro exI [of _ y3] exI [of _ y4]) simp
qed

text \<open>
  \<open>Clear\<close>, which nothing calls, is the exception: it destroys the timers, but the handler of one that has
  already ended is queued without an error, and then finds no entry.
\<close>

theorem clear_races_timer: "fst (tc_timer_handler t key False (tc_clear c)) = Inl CacheAtOutOfRange"
  by (simp add: tc_timer_handler_def tc_clear_def)

end
