(* ===== verification/SwitchFlow.thy ===== *)
theory SwitchFlow
  imports SwitchBytecode
begin

text \<open>
  The flow variant of the DNP3 bytecode (\<open>src/Examples/SwitchBytecode/SwitchDNP3_FAST_FLOW.s\<close>): both
  addresses of the header are combined, so that the two directions of a conversation have the same pair
  of names, swapped.
\<close>

section \<open>The program\<close>

definition dnp3_flow :: "u8 list" where
  "dnp3_flow = concat (map (\<lambda>w. le_bytes 4 w)
    [0x00a00293, 0x0455e263, 0x00055283, 0x00006337, 0x4053031b, 0x02629a63, 0x00254283, 0x0255c663,
     0x00655283, 0x00455303, 0x01029393, 0x0063ee33, 0x01031393, 0x0053eeb3, 0x01d63023, 0x01c6b023,
     0x00000513, 0x00008067, 0xfff00513, 0x00008067])"

lemma dnp3_flow_length: "length dnp3_flow = 80"
  by code_simp

lemma dnp3_flow_word: "p mod 4 = 0 \<Longrightarrow> p div 4 < 20 \<Longrightarrow> code_at dnp3_flow p = ucast ([0x00a00293, 0x0455e263, 0x00055283, 0x00006337, 0x4053031b, 0x02629a63, 0x00254283, 0x0255c663,
     0x00655283, 0x00455303, 0x01029393, 0x0063ee33, 0x01031393, 0x0053eeb3, 0x01d63023, 0x01c6b023,
     0x00000513, 0x00008067, 0xfff00513, 0x00008067] ! (p div 4) :: u64)"
  unfolding dnp3_flow_def by (rule code_words) simp_all

lemma dnp3_flow_code:
  "code_at dnp3_flow 0 = 0x00a00293" "code_at dnp3_flow 4 = 0x0455e263" "code_at dnp3_flow 8 = 0x00055283"
  "code_at dnp3_flow 12 = 0x00006337" "code_at dnp3_flow 16 = 0x4053031b" "code_at dnp3_flow 20 = 0x02629a63"
  "code_at dnp3_flow 24 = 0x00254283" "code_at dnp3_flow 28 = 0x0255c663" "code_at dnp3_flow 32 = 0x00655283"
  "code_at dnp3_flow 36 = 0x00455303" "code_at dnp3_flow 40 = 0x01029393" "code_at dnp3_flow 44 = 0x0063ee33"
  "code_at dnp3_flow 48 = 0x01031393" "code_at dnp3_flow 52 = 0x0053eeb3" "code_at dnp3_flow 56 = 0x01d63023"
  "code_at dnp3_flow 60 = 0x01c6b023" "code_at dnp3_flow 64 = 0x00000513" "code_at dnp3_flow 68 = 0x00008067"
  "code_at dnp3_flow 72 = 0xfff00513" "code_at dnp3_flow 76 = 0x00008067"
  by (simp_all add: dnp3_flow_word)

lemma dnp3_flow_dispatch:
  "dispatch 0x0455e263 = exec_branch 6 11 5 68"
  "dispatch 0x02629a63 = exec_branch 1 5 6 52"
  "dispatch 0x0255c663 = exec_branch 4 11 5 44"
  "dispatch 0x01029393 = exec_alu_imm 1 7 5 16"
  "dispatch 0x0063ee33 = exec_alu_reg 6 0 28 7 6"
  "dispatch 0x01031393 = exec_alu_imm 1 7 6 16"
  "dispatch 0x0053eeb3 = exec_alu_reg 6 0 29 7 5"
  "dispatch 0x01d63023 = exec_store 3 12 29 0"
  "dispatch 0x01c6b023 = exec_store 3 13 28 0"
  by (rule ext, simp add: dispatch_def decode_defs)+

lemmas flow_code = dnp3_flow_code dnp3_flow_dispatch dnp3_fast_dispatch dnp3_flow_length
text \<open>One turn, with the effect of the instruction computed.\<close>

lemma flow_turn:
  assumes "pok dnp3_flow v [] st xs" "p + 4 \<le> 80" "0 < k"
    and "dispatch (code_at dnp3_flow p) (pst dnp3_flow v [] st (p + 4) (code_at dnp3_flow p) xs) =
      (Inr (), pst dnp3_flow v [] st' p' i' xs')"
  shows "execute_loop k 80 80 (pst dnp3_flow v [] st p i xs) = turn (k - 1) 80 (Inr (), pst dnp3_flow v [] st' p' i' xs')"
  using loop_turn [OF assms(1) _ _ assms(3,4)] assms(2) by (simp add: dnp3_flow_length)

text \<open>The four paths through the program.\<close>

lemma flow_paths:
  assumes ok: "pok dnp3_flow v [] st xs" and xs: "length st = 4096" "length xs = 32" "xs ! 0 = 0" "xs ! Suc 0 = 80"
      "xs ! 10 = 144" "xs ! 11 = of_nat (length (vm_data v))" "xs ! 12 = of_nat (length (vm_data v)) + 4296"
      "xs ! 13 = of_nat (length (vm_data v)) + 4288"
  defines "hdr \<equiv> le_val (read_at 0 2 (vm_data v))" and "len \<equiv> le_val (read_at 2 1 (vm_data v))"
    and "s \<equiv> le_val (read_at 6 2 (vm_data v))" and "d \<equiv> le_val (read_at 4 2 (vm_data v))"
  shows
    "(of_nat (length (vm_data v)) :: u64) < 10 \<Longrightarrow>
      execute_loop 4 80 80 (pst dnp3_flow v [] st 0 i xs) =
        (Inr (), (pst dnp3_flow v [] st 80 0x8067 (xs[5 := 10, 10 := - 1, 0 := 80]))\<lparr>vm_halted := True\<rparr>)"
    "\<not> (of_nat (length (vm_data v)) :: u64) < 10 \<Longrightarrow> 8 \<le> length (vm_data v) \<Longrightarrow> hdr \<noteq> 0x6405 \<Longrightarrow>
      execute_loop 8 80 80 (pst dnp3_flow v [] st 0 i xs) =
        (Inr (), (pst dnp3_flow v [] st 80 0x8067 (xs[5 := hdr, 6 := 0x6405, 10 := - 1, 0 := 80]))\<lparr>vm_halted := True\<rparr>)"
    "\<not> (of_nat (length (vm_data v)) :: u64) < 10 \<Longrightarrow> 8 \<le> length (vm_data v) \<Longrightarrow> hdr = 0x6405 \<Longrightarrow>
      of_nat (length (vm_data v)) <s len \<Longrightarrow>
      execute_loop 10 80 80 (pst dnp3_flow v [] st 0 i xs) =
        (Inr (), (pst dnp3_flow v [] st 80 0x8067 (xs[5 := hdr, 6 := 0x6405, 5 := len, 10 := - 1, 0 := 80]))
          \<lparr>vm_halted := True\<rparr>)"
    "\<not> (of_nat (length (vm_data v)) :: u64) < 10 \<Longrightarrow> 8 \<le> length (vm_data v) \<Longrightarrow> hdr = 0x6405 \<Longrightarrow>
      \<not> of_nat (length (vm_data v)) <s len \<Longrightarrow>
      execute_loop 18 80 80 (pst dnp3_flow v [] st 0 i xs) =
        (Inr (), (pst dnp3_flow v []
            (write_at 4080 (le_bytes 8 (push_bit 16 s OR d)) (write_at 4088 (le_bytes 8 (push_bit 16 d OR s)) st))
          80 0x8067 (xs[5 := hdr, 6 := 0x6405, 5 := s, 6 := d, 7 := push_bit 16 s, 28 := push_bit 16 s OR d,
            7 := push_bit 16 d, 29 := push_bit 16 d OR s, 10 := 0, 0 := 72]))\<lparr>vm_halted := True\<rparr>)"
  using ok xs unfolding hdr_def len_def s_def d_def
  by (simp_all add: flow_turn flow_code pst_exec turn_pst)

section \<open>What it does\<close>

definition flow_addrs :: "u8 list \<Rightarrow> bool \<times> u64 \<times> u64" where
  "flow_addrs buf = (case fast_addrs buf of (ok, s, d) \<Rightarrow> 
    if ok then (True, push_bit 16 d OR s, push_bit 16 s OR d) else (False, 0, 0))"

lemma flow_run:
  assumes ok: "pok dnp3_flow w [] st xs" "args_ok 80 (length buf) xs" and w: "vm_data w = buf"
    and zero: "read_at 4080 16 st = replicate 16 0" and n: "length buf \<le> 64 * 1024"
  shows "returns dnp3_flow w 80 (xs ! 2) (pst dnp3_flow w [] st 0 i xs) [] (flow_addrs buf)"
proof -
  have len: "length st = 4096" "length xs = 32" "xs ! 0 = 0" using ok(1) by (simp_all add: pok_def)
  have args: "xs ! Suc 0 = 80" "xs ! 10 = 144" "xs ! 11 = of_nat (length buf)"
    "xs ! 12 = of_nat (length buf) + 4296" "xs ! 13 = of_nat (length buf) + 4288"
    using ok(2) by (simp_all add: args_ok_def round4_def)
  note paths = flow_paths [OF ok(1) len, unfolded w, OF args]
  note cells = zero_cells [OF zero len(1)] stored_cells [OF len(1)] round4_def len
  show ?thesis unfolding flow_addrs_def
    by (rule dnp3_decisions [OF n, where f = "\<lambda>s d. (push_bit 16 d OR s, push_bit 16 s OR d)"];
        rule returnsI, (erule (3) paths | erule (2) paths | erule paths)) (simp_all add: cells)
qed

text \<open>Answering swaps the pair of names.\<close>

lemma flow_addrs_reply:
  assumes "fast_addrs buf = (True, s, d)" "fast_addrs reply = (True, d, s)"
  shows "flow_addrs reply = (True, snd (snd (flow_addrs buf)), fst (snd (flow_addrs buf)))"
  using assms by (simp add: flow_addrs_def)

section \<open>Properties\<close>

text \<open>
  The flow variant of the DNP3 bytecode: for every datagram and every earlier history of the machine
  it accepts what the plain variant accepts and names the source \<open>dst << 16 | src\<close> and the destination
  \<open>src << 16 | dst\<close>, of the two addresses of the header. A datagram and its answer have the same two names,
  swapped, so that a branch is learned for the conversation and not for the address.
\<close>

theorem dnp3_flow_addresses:
  assumes "vm_ok v" "vm_prog v = dnp3_flow" "length buf \<le> 64 * 1024"
  shows "\<exists>v'. get_src_dst buf v = (Some (flow_addrs buf), v') \<and> vm_ok v' \<and> vm_prog v' = dnp3_flow \<and> vm_data v' = buf"
proof -
  have "\<exists>v'. get_src_dst buf v = (Some (flow_addrs buf), v') \<and> vm_ok v' \<and> vm_prog v' = dnp3_flow @ [] \<and> vm_data v' = buf"
    using flow_run [OF _ _ _ _ assms(3)] assms
    by (intro get_src_dst_pst) (simp_all add: dnp3_flow_length)
  then show ?thesis by simp
qed

theorem dnp3_flow_addresses_witness:
  "\<exists>v'. get_src_dst (dnp3_datagram 10 1) (snd (program_load dnp3_flow (new_VM 4096 1048576))) =
    (Some (True, 65546, 655361), v')"
proof -
  have ok: "length dnp3_flow \<le> 1024 * 1024" by (simp add: dnp3_flow_length)
  have "length (dnp3_datagram 10 1) \<le> 64 * 1024" by (simp add: dnp3_datagram_def)
  moreover have "flow_addrs (dnp3_datagram 10 1) = (True, 65546, 655361)"
    by (simp add: flow_addrs_def dnp3_datagram_addrs push_bit_eq_mult)
  ultimately show ?thesis using dnp3_flow_addresses [OF vm_with_program_ok [OF ok], of "dnp3_datagram 10 1"] by auto
qed

end
