(* ===== verification/SwitchWireGuard.thy ===== *)
theory SwitchWireGuard
  imports SwitchBytecode
begin

text \<open>
  The WireGuard bytecode (\<open>src/Examples/SwitchBytecode/SwitchWireGuard.s\<close>), which remembers in a table
  behind its code which two session indices belong together.
\<close>

section \<open>The program\<close>

definition wg_words :: "u64 list" where
  "wg_words =
    [0x00c00293, 0x0e55e663, 0x00054283, 0x00400313, 0x08628e63, 0x00100313, 0x00628c63, 0x00200313,
     0x02628463, 0x00300313, 0x08628263, 0x0c40006f, 0x00456283, 0x00092337, 0xa2b3031b, 0x00d31313,
     0x78930313, 0x09c0006f, 0x00456283, 0x00856303, 0x000103b7, 0xfff3839b, 0x007373b3, 0x00000e17,
     0x09ce0e13, 0x00600e93, 0x027e8f33, 0x01cf0f33, 0x01035393, 0x007f1023, 0x005f3123, 0x000103b7,
     0xfff3839b, 0x0072f3b3, 0x00000e17, 0x070e0e13, 0x00600e93, 0x027e8f33, 0x01cf0f33, 0x0102d393,
     0x007f1023, 0x006f3123, 0x0380006f, 0x00456303, 0x000103b7, 0xfff3839b, 0x007373b3, 0x00000e17,
     0x03ce0e13, 0x00600e93, 0x027e8f33, 0x01cf0f33, 0x000f5383, 0x01035e13, 0x01c39c63, 0x002f6283,
     0x00563023, 0x0066b023, 0x00000513, 0x00008067, 0xfff00513, 0x00008067]"

definition wireguard :: "u8 list" where
  "wireguard = concat (map (\<lambda>w. le_bytes 4 w) wg_words)"

lemma wireguard_length: "length wireguard = 248"
  by (simp only: wireguard_def words_length) (simp add: wg_words_def)

lemma wireguard_word: "p mod 4 = 0 \<Longrightarrow> p div 4 < 62 \<Longrightarrow> code_at wireguard p = ucast (wg_words ! (p div 4))"
  unfolding wireguard_def by (rule code_words) (simp_all add: wg_words_def)

lemma wireguard_code:
  "code_at wireguard 0 = 0x00c00293" "code_at wireguard 4 = 0x0e55e663" "code_at wireguard 8 = 0x00054283"
  "code_at wireguard 12 = 0x00400313" "code_at wireguard 16 = 0x08628e63" "code_at wireguard 20 = 0x00100313"
  "code_at wireguard 24 = 0x00628c63" "code_at wireguard 28 = 0x00200313" "code_at wireguard 32 = 0x02628463"
  "code_at wireguard 36 = 0x00300313" "code_at wireguard 40 = 0x08628263" "code_at wireguard 44 = 0x0c40006f"
  "code_at wireguard 48 = 0x00456283" "code_at wireguard 52 = 0x00092337" "code_at wireguard 56 = 0xa2b3031b"
  "code_at wireguard 60 = 0x00d31313" "code_at wireguard 64 = 0x78930313" "code_at wireguard 68 = 0x09c0006f"
  "code_at wireguard 72 = 0x00456283" "code_at wireguard 76 = 0x00856303" "code_at wireguard 80 = 0x000103b7"
  "code_at wireguard 84 = 0xfff3839b" "code_at wireguard 88 = 0x007373b3" "code_at wireguard 92 = 0x00000e17"
  "code_at wireguard 96 = 0x09ce0e13" "code_at wireguard 100 = 0x00600e93" "code_at wireguard 104 = 0x027e8f33"
  "code_at wireguard 108 = 0x01cf0f33" "code_at wireguard 112 = 0x01035393" "code_at wireguard 116 = 0x007f1023"
  "code_at wireguard 120 = 0x005f3123" "code_at wireguard 124 = 0x000103b7" "code_at wireguard 128 = 0xfff3839b"
  "code_at wireguard 132 = 0x0072f3b3" "code_at wireguard 136 = 0x00000e17" "code_at wireguard 140 = 0x070e0e13"
  "code_at wireguard 144 = 0x00600e93" "code_at wireguard 148 = 0x027e8f33" "code_at wireguard 152 = 0x01cf0f33"
  "code_at wireguard 156 = 0x0102d393" "code_at wireguard 160 = 0x007f1023" "code_at wireguard 164 = 0x006f3123"
  "code_at wireguard 168 = 0x0380006f" "code_at wireguard 172 = 0x00456303" "code_at wireguard 176 = 0x000103b7"
  "code_at wireguard 180 = 0xfff3839b" "code_at wireguard 184 = 0x007373b3" "code_at wireguard 188 = 0x00000e17"
  "code_at wireguard 192 = 0x03ce0e13" "code_at wireguard 196 = 0x00600e93" "code_at wireguard 200 = 0x027e8f33"
  "code_at wireguard 204 = 0x01cf0f33" "code_at wireguard 208 = 0x000f5383" "code_at wireguard 212 = 0x01035e13"
  "code_at wireguard 216 = 0x01c39c63" "code_at wireguard 220 = 0x002f6283" "code_at wireguard 224 = 0x00563023"
  "code_at wireguard 228 = 0x0066b023" "code_at wireguard 232 = 0x00000513" "code_at wireguard 236 = 0x00008067"
  "code_at wireguard 240 = 0xfff00513" "code_at wireguard 244 = 0x00008067"
  by (simp_all add: wireguard_word wg_words_def)

lemma ucast_minus_1: "ucast (- 1 :: u64) = (- 1 :: u32)"
  by (rule bit_word_eqI) (simp add: bit_simps)

lemma wireguard_dispatch:
  "dispatch 0x00c00293 = exec_alu_imm 0 5 0 12"
  "dispatch 0x0e55e663 = exec_branch 6 11 5 236"
  "dispatch 0x00054283 = exec_load 4 5 10 0"
  "dispatch 0x00400313 = exec_alu_imm 0 6 0 4"
  "dispatch 0x08628e63 = exec_branch 0 5 6 156"
  "dispatch 0x00100313 = exec_alu_imm 0 6 0 1"
  "dispatch 0x00628c63 = exec_branch 0 5 6 24"
  "dispatch 0x00200313 = exec_alu_imm 0 6 0 2"
  "dispatch 0x02628463 = exec_branch 0 5 6 40"
  "dispatch 0x00300313 = exec_alu_imm 0 6 0 3"
  "dispatch 0x08628263 = exec_branch 0 5 6 132"
  "dispatch 0x0c40006f = (\<lambda>v. (Inr (), (set_xr 0 (vm_pc v) v)\<lparr>vm_pc := vm_pc v + 192\<rparr>))"
  "dispatch 0x00456283 = exec_load 6 5 10 4"
  "dispatch 0x00092337 = (\<lambda>v. (Inr (), set_xr 6 0x92000 v))"
  "dispatch 0xa2b3031b = exec_alu_imm32 0 6 6 18446744073709550123"
  "dispatch 0x00d31313 = exec_alu_imm 1 6 6 13"
  "dispatch 0x78930313 = exec_alu_imm 0 6 6 1929"
  "dispatch 0x09c0006f = (\<lambda>v. (Inr (), (set_xr 0 (vm_pc v) v)\<lparr>vm_pc := vm_pc v + 152\<rparr>))"
  "dispatch 0x00856303 = exec_load 6 6 10 8"
  "dispatch 0x000103b7 = (\<lambda>v. (Inr (), set_xr 7 0x10000 v))"
  "dispatch 0xfff3839b = exec_alu_imm32 0 7 7 (- 1)"
  "dispatch 0x007373b3 = exec_alu_reg 7 0 7 6 7"
  "dispatch 0x00000e17 = (\<lambda>v. (Inr (), set_xr 28 (vm_pc v - 4) v))"
  "dispatch 0x09ce0e13 = exec_alu_imm 0 28 28 156"
  "dispatch 0x00600e93 = exec_alu_imm 0 29 0 6"
  "dispatch 0x027e8f33 = exec_alu_reg 0 1 30 29 7"
  "dispatch 0x01cf0f33 = exec_alu_reg 0 0 30 30 28"
  "dispatch 0x01035393 = exec_alu_imm 5 7 6 16"
  "dispatch 0x007f1023 = exec_store 1 30 7 0"
  "dispatch 0x005f3123 = exec_store 3 30 5 2"
  "dispatch 0x0072f3b3 = exec_alu_reg 7 0 7 5 7"
  "dispatch 0x070e0e13 = exec_alu_imm 0 28 28 112"
  "dispatch 0x0102d393 = exec_alu_imm 5 7 5 16"
  "dispatch 0x006f3123 = exec_store 3 30 6 2"
  "dispatch 0x0380006f = (\<lambda>v. (Inr (), (set_xr 0 (vm_pc v) v)\<lparr>vm_pc := vm_pc v + 52\<rparr>))"
  "dispatch 0x00456303 = exec_load 6 6 10 4"
  "dispatch 0x03ce0e13 = exec_alu_imm 0 28 28 60"
  "dispatch 0x000f5383 = exec_load 5 7 30 0"
  "dispatch 0x01035e13 = exec_alu_imm 5 28 6 16"
  "dispatch 0x01c39c63 = exec_branch 1 7 28 24"
  "dispatch 0x002f6283 = exec_load 6 5 30 2"
  "dispatch 0x00563023 = exec_store 3 12 5 0"
  "dispatch 0x0066b023 = exec_store 3 13 6 0"
  by (intro ext; simp add: dispatch_def decode_defs ucast_minus_1)+

lemmas wg_code = wireguard_code wireguard_dispatch dnp3_fast_dispatch wireguard_length

section \<open>The table\<close>

text \<open>The slot of a session index: six bytes for each value of its lower 16 bits.\<close>

definition slot :: "u64 \<Rightarrow> nat" where
  "slot x = 6 * unat (x AND 0xFFFF)"

lemma mask_less: "unat (x AND 0xFFFF :: u64) < 65536"
proof -
  have "x AND 0xFFFF = take_bit 16 x" by (simp add: take_bit_eq_mask mask_eq_exp_minus_1)
  then have "unat (x AND 0xFFFF) = take_bit 16 (unat x)" by (simp only: unsigned_take_bit_eq)
  then show ?thesis using take_bit_nat_less_exp [of 16 "unat x"] by simp
qed

lemma slot_le: "slot x \<le> 393210"
  using mask_less [of x] by (simp add: slot_def)

lemma slot_off:
  "unat (6 * (x AND 0xFFFF) :: u64) = slot x"
  "unat (6 * (x AND 0xFFFF) + 2 :: u64) = slot x + 2" "unat (2 + 6 * (x AND 0xFFFF) :: u64) = slot x + 2"
  using mask_less [of x] by (simp_all add: slot_def unat_word_ariths)

lemma wg_turn:
  assumes "pok wireguard v T st xs" "length T = 399360" "p + 4 \<le> 248" "0 < k"
    and "dispatch (code_at wireguard p) (pst wireguard v T st (p + 4) (code_at wireguard p) xs) =
      (Inr (), pst wireguard v T' st' p' i' xs')"
  shows "execute_loop k 399608 399608 (pst wireguard v T st p i xs) =
    turn (k - 1) 399608 (Inr (), pst wireguard v T' st' p' i' xs')"
  using loop_turn [OF assms(1) _ _ assms(4,5)] assms(2,3) by (simp add: wireguard_length)

lemma wg_x0:
  assumes "pok wireguard v T st xs" "length T = 399360" "p + 4 \<le> 248" "0 < k"
  shows "execute_loop k 399608 399608 (pst wireguard v T st p i (xs[0 := w])) =
    execute_loop k 399608 399608 (pst wireguard v T st p i xs)"
  using loop_x0 [OF assms(1) _ _ assms(4)] assms(2,3) by (simp add: wireguard_length)

section \<open>The paths\<close>

definition wg_entry :: "vm \<Rightarrow> u8 list \<Rightarrow> u8 list \<Rightarrow> u64 list \<Rightarrow> bool" where
  "wg_entry v T st xs \<longleftrightarrow> pok wireguard v T st xs \<and> length T = 399360 \<and> length st = 4096 \<and> length xs = 32
    \<and> xs ! 0 = 0 \<and> xs ! Suc 0 = 399608 \<and> xs ! 10 = 399672 \<and> xs ! 11 = of_nat (length (vm_data v))
    \<and> xs ! 12 = of_nat (length (vm_data v)) + 403824 \<and> xs ! 13 = of_nat (length (vm_data v)) + 403816"

text \<open>Too short; no known type; an initiation; a response; a cookie or transport message whose receiver is
  not in its slot, or is.\<close>

lemma wg_short:
  assumes "wg_entry v T st xs" "(of_nat (length (vm_data v)) :: u64) < 12"
  shows "execute_loop 4 399608 399608 (pst wireguard v T st 0 i xs) = (Inr (),
    (pst wireguard v T st 399608 0x8067
      (xs[5 := 12, 10 := - 1, 0 := 248]))\<lparr>vm_halted := True\<rparr>)"
  using assms unfolding wg_entry_def by (simp add: wg_turn wg_code pst_exec turn_pst slot_off wg_x0)

lemma wg_unknown:
  assumes "wg_entry v T st xs" "\<not> (of_nat (length (vm_data v)) :: u64) < 12" "12 \<le> length (vm_data v)"
    "le_val (read_at 0 (Suc 0) (vm_data v)) = t" "t \<noteq> 1" "t \<noteq> 2" "t \<noteq> 3" "t \<noteq> 4"
  shows "execute_loop 14 399608 399608 (pst wireguard v T st 0 i xs) = (Inr (),
    (pst wireguard v T st 399608 0x8067
      (xs[5 := t, 6 := 3, 10 := - 1, 0 := 248]))\<lparr>vm_halted := True\<rparr>)"
  using assms unfolding wg_entry_def by (simp add: wg_turn wg_code pst_exec turn_pst slot_off wg_x0)

lemma wg_initiation:
  assumes "wg_entry v T st xs" "\<not> (of_nat (length (vm_data v)) :: u64) < 12" "12 \<le> length (vm_data v)"
    "le_val (read_at 0 (Suc 0) (vm_data v)) = 1" "le_val (read_at 4 4 (vm_data v)) = a"
  shows "execute_loop 17 399608 399608 (pst wireguard v T st 0 i xs) = (Inr (),
    (pst wireguard v T
      (write_at 4080 (le_bytes 8 0x123456789) (write_at 4088 (le_bytes 8 a) st)) 399608 0x8067
      (xs[5 := 1, 6 := 1, 5 := a, 6 := 0x123456789, 10 := 0, 0 := 240]))\<lparr>vm_halted := True\<rparr>)"
  using assms unfolding wg_entry_def by (simp add: wg_turn wg_code pst_exec turn_pst slot_off wg_x0)

lemma wg_response:
  assumes "wg_entry v T st xs" "\<not> (of_nat (length (vm_data v)) :: u64) < 12" "12 \<le> length (vm_data v)"
    "le_val (read_at 0 (Suc 0) (vm_data v)) = 2" "le_val (read_at 4 4 (vm_data v)) = a" "le_val (read_at 8 4 (vm_data v)) = b"
  shows "execute_loop 38 399608 399608 (pst wireguard v T st 0 i xs) = (Inr (),
    (pst wireguard v (write_at (Suc (Suc (slot a))) (le_bytes 8 b) (write_at (slot a) (le_bytes 2 (drop_bit 16 a))
        (write_at (Suc (Suc (slot b))) (le_bytes 8 a) (write_at (slot b) (le_bytes 2 (drop_bit 16 b)) T))))
      (write_at 4080 (le_bytes 8 b) (write_at 4088 (le_bytes 8 a) st)) 399608 0x8067
      (xs[5 := 2, 6 := 2, 5 := a, 6 := b, 7 := b AND 65535, 28 := 248, 29 := 6,
        30 := 6 * (b AND 65535) + 248, 7 := a AND 65535, 28 := 248, 29 := 6, 30 := 6 * (a AND 65535) + 248,
        7 := drop_bit 16 a, 10 := 0, 0 := 240]))\<lparr>vm_halted := True\<rparr>)"
  using assms slot_le [of a] slot_le [of b] unfolding wg_entry_def by (simp add: wg_turn wg_code pst_exec turn_pst slot_off wg_x0)

lemma wg_cookie_unknown:
  assumes "wg_entry v T st xs" "\<not> (of_nat (length (vm_data v)) :: u64) < 12" "12 \<le> length (vm_data v)"
    "le_val (read_at 0 (Suc 0) (vm_data v)) = 3" "le_val (read_at 4 4 (vm_data v)) = a" "le_val (read_at (slot a) 2 T) \<noteq> drop_bit 16 a"
  shows "execute_loop 25 399608 399608 (pst wireguard v T st 0 i xs) = (Inr (),
    (pst wireguard v T st 399608 0x8067
      (xs[5 := 3, 6 := a, 7 := a AND 65535, 28 := 248, 29 := 6, 30 := 6 * (a AND 65535) + 248,
        7 := le_val (read_at (slot a) 2 T), 28 := drop_bit 16 a, 10 := - 1, 0 := 248]))\<lparr>vm_halted := True\<rparr>)"
  using assms slot_le [of a] unfolding wg_entry_def by (simp add: wg_turn wg_code pst_exec turn_pst slot_off wg_x0)

lemma wg_cookie:
  assumes "wg_entry v T st xs" "\<not> (of_nat (length (vm_data v)) :: u64) < 12" "12 \<le> length (vm_data v)"
    "le_val (read_at 0 (Suc 0) (vm_data v)) = 3" "le_val (read_at 4 4 (vm_data v)) = a" "le_val (read_at (slot a) 2 T) = drop_bit 16 a"
  shows "execute_loop 28 399608 399608 (pst wireguard v T st 0 i xs) = (Inr (),
    (pst wireguard v T
      (write_at 4080 (le_bytes 8 a) (write_at 4088 (le_bytes 8 (le_val (read_at (Suc (Suc (slot a))) 4 T))) st)) 399608 0x8067
      (xs[5 := 3, 6 := a, 7 := a AND 65535, 28 := 248, 29 := 6, 30 := 6 * (a AND 65535) + 248,
        7 := drop_bit 16 a, 28 := drop_bit 16 a, 5 := le_val (read_at (Suc (Suc (slot a))) 4 T), 10 := 0, 0 := 240]))\<lparr>vm_halted := True\<rparr>)"
  using assms slot_le [of a] unfolding wg_entry_def by (simp add: wg_turn wg_code pst_exec turn_pst slot_off wg_x0)

lemma wg_transport_unknown:
  assumes "wg_entry v T st xs" "\<not> (of_nat (length (vm_data v)) :: u64) < 12" "12 \<le> length (vm_data v)"
    "le_val (read_at 0 (Suc 0) (vm_data v)) = 4" "le_val (read_at 4 4 (vm_data v)) = a" "le_val (read_at (slot a) 2 T) \<noteq> drop_bit 16 a"
  shows "execute_loop 19 399608 399608 (pst wireguard v T st 0 i xs) = (Inr (),
    (pst wireguard v T st 399608 0x8067
      (xs[5 := 4, 6 := a, 7 := a AND 65535, 28 := 248, 29 := 6, 30 := 6 * (a AND 65535) + 248,
        7 := le_val (read_at (slot a) 2 T), 28 := drop_bit 16 a, 10 := - 1, 0 := 248]))\<lparr>vm_halted := True\<rparr>)"
  using assms slot_le [of a] unfolding wg_entry_def by (simp add: wg_turn wg_code pst_exec turn_pst slot_off wg_x0)

lemma wg_transport:
  assumes "wg_entry v T st xs" "\<not> (of_nat (length (vm_data v)) :: u64) < 12" "12 \<le> length (vm_data v)"
    "le_val (read_at 0 (Suc 0) (vm_data v)) = 4" "le_val (read_at 4 4 (vm_data v)) = a" "le_val (read_at (slot a) 2 T) = drop_bit 16 a"
  shows "execute_loop 22 399608 399608 (pst wireguard v T st 0 i xs) = (Inr (),
    (pst wireguard v T
      (write_at 4080 (le_bytes 8 a) (write_at 4088 (le_bytes 8 (le_val (read_at (Suc (Suc (slot a))) 4 T))) st)) 399608 0x8067
      (xs[5 := 4, 6 := a, 7 := a AND 65535, 28 := 248, 29 := 6, 30 := 6 * (a AND 65535) + 248,
        7 := drop_bit 16 a, 28 := drop_bit 16 a, 5 := le_val (read_at (Suc (Suc (slot a))) 4 T), 10 := 0, 0 := 240]))\<lparr>vm_halted := True\<rparr>)"
  using assms slot_le [of a] unfolding wg_entry_def by (simp add: wg_turn wg_code pst_exec turn_pst slot_off wg_x0)


section \<open>What it does\<close>

text \<open>Entering \<open>peer\<close> in the slot of \<open>key\<close>: the upper 16 bits of the key, and the peer, in eight bytes of
  the four the slot has left for it.\<close>

definition learn :: "u64 \<Rightarrow> u64 \<Rightarrow> u8 list \<Rightarrow> u8 list" where
  "learn key peer T = write_at (slot key + 2) (le_bytes 8 peer) (write_at (slot key) (le_bytes 2 (drop_bit 16 key)) T)"

definition lookup :: "u64 \<Rightarrow> u8 list \<Rightarrow> u64 option" where
  "lookup key T =
    (if le_val (read_at (slot key) 2 T) = drop_bit 16 key then Some (le_val (read_at (slot key + 2) 4 T)) else None)"

text \<open>The program as a function of the table and the message: the answer, and the new table.\<close>

definition wg_addrs :: "u8 list \<Rightarrow> u8 list \<Rightarrow> (bool \<times> u64 \<times> u64) \<times> u8 list" where
  "wg_addrs T buf =
    (if length buf < 12 then ((False, 0, 0), T)
     else let a = le_val (read_at 4 4 buf); b = le_val (read_at 8 4 buf)
       in if buf ! 0 = 1 then ((True, a, 0x123456789), T)
          else if buf ! 0 = 2 then ((True, a, b), learn a b (learn b a T))
          else if buf ! 0 = 3 \<or> buf ! 0 = 4 then
            (case lookup a T of None \<Rightarrow> ((False, 0, 0), T) | Some s \<Rightarrow> ((True, s, a), T))
          else ((False, 0, 0), T))"

lemma length_learn [simp]: "length T = 399360 \<Longrightarrow> length (learn key peer T) = 399360"
  using slot_le [of key] by (simp add: learn_def)

lemma length_wg_addrs: "length T = 399360 \<Longrightarrow> length (snd (wg_addrs T buf)) = 399360"
  by (simp add: wg_addrs_def Let_def split: option.split)

lemma wg_run:
  assumes ok: "pok wireguard w T st xs" "args_ok 399608 (length buf) xs" and w: "vm_data w = buf"
    and T: "length T = 399360" and zero: "read_at 4080 16 st = replicate 16 0" and n: "length buf \<le> 64 * 1024"
  shows "returns wireguard w 399608 (xs ! 2) (pst wireguard w T st 0 i xs) (snd (wg_addrs T buf)) (fst (wg_addrs T buf))"
proof -
  have len: "length st = 4096" "length xs = 32" "xs ! 0 = 0" using ok(1) by (simp_all add: pok_def)
  have r4: "round4 399608 = 399608" by (simp add: round4_def)
  have entry: "wg_entry w T st xs"
    using ok len T by (simp add: wg_entry_def args_ok_def r4 w)
  note cells = zero_cells [OF zero len(1)] stored_cells [OF len(1)] r4 len
  let ?a = "le_val (read_at 4 4 buf)" and ?b = "le_val (read_at 8 4 buf)"
  show ?thesis
  proof (cases "length buf < 12")
    case True
    then have short: "(of_nat (length (vm_data w)) :: u64) < 12"
      using n by (simp add: w word_less_nat_alt unat_of_nat_small)
    have e: "wg_addrs T buf = ((False, 0, 0), T)" using True by (simp add: wg_addrs_def)
    show ?thesis unfolding e fst_conv snd_conv
      by (intro returnsI [OF wg_short [OF entry short]]) (simp_all add: cells)
  next
    case False
    then have long: "\<not> (of_nat (length (vm_data w)) :: u64) < 12" "12 \<le> length (vm_data w)"
      using n by (simp_all add: w word_less_nat_alt unat_of_nat_small)
    have t: "le_val (read_at 0 (Suc 0) (vm_data w)) = ucast (buf ! 0)"
      using False by (cases buf) (simp_all add: w read_at_def)
    have ab: "le_val (read_at 4 4 (vm_data w)) = ?a" "le_val (read_at 8 4 (vm_data w)) = ?b" by (simp_all add: w)
    consider "buf ! 0 = 1" | "buf ! 0 = 2" | "buf ! 0 = 3" | "buf ! 0 = 4"
      | "buf ! 0 \<noteq> 1" "buf ! 0 \<noteq> 2" "buf ! 0 \<noteq> 3" "buf ! 0 \<noteq> 4" by blast
    then show ?thesis
    proof cases
      case 1
      then have e: "wg_addrs T buf = ((True, ?a, 0x123456789), T)" using False by (simp add: wg_addrs_def)
      show ?thesis unfolding e fst_conv snd_conv
        by (intro returnsI [OF wg_initiation [OF entry long _ ab(1)]]) (simp_all add: t 1 cells)
    next
      case 2
      then have e: "wg_addrs T buf = ((True, ?a, ?b), learn ?a ?b (learn ?b ?a T))"
        using False by (simp add: wg_addrs_def Let_def)
      show ?thesis unfolding e fst_conv snd_conv learn_def add_2_eq_Suc'
        by (intro returnsI [OF wg_response [OF entry long _ ab]]) (simp_all add: t 2 cells)
    next
      case 3
      show ?thesis
      proof (cases "lookup ?a T")
        case None
        then have e: "wg_addrs T buf = ((False, 0, 0), T)" and "le_val (read_at (slot ?a) 2 T) \<noteq> drop_bit 16 ?a"
          using False 3 by (simp_all add: wg_addrs_def lookup_def split: if_splits)
        then show ?thesis unfolding e fst_conv snd_conv
          by (intro returnsI [OF wg_cookie_unknown [OF entry long _ ab(1)]]) (simp_all add: t 3 cells)
      next
        case (Some s)
        then have e: "wg_addrs T buf = ((True, s, ?a), T)" and "le_val (read_at (slot ?a) 2 T) = drop_bit 16 ?a"
          and "s = le_val (read_at (Suc (Suc (slot ?a))) 4 T)"
          using False 3 by (simp_all add: wg_addrs_def lookup_def split: if_splits)
        then show ?thesis unfolding e fst_conv snd_conv
          by (intro returnsI [OF wg_cookie [OF entry long _ ab(1)]]) (simp_all add: t 3 cells)
      qed
    next
      case 4
      show ?thesis
      proof (cases "lookup ?a T")
        case None
        then have e: "wg_addrs T buf = ((False, 0, 0), T)" and "le_val (read_at (slot ?a) 2 T) \<noteq> drop_bit 16 ?a"
          using False 4 by (simp_all add: wg_addrs_def lookup_def split: if_splits)
        then show ?thesis unfolding e fst_conv snd_conv
          by (intro returnsI [OF wg_transport_unknown [OF entry long _ ab(1)]]) (simp_all add: t 4 cells)
      next
        case (Some s)
        then have e: "wg_addrs T buf = ((True, s, ?a), T)" and "le_val (read_at (slot ?a) 2 T) = drop_bit 16 ?a"
          and "s = le_val (read_at (Suc (Suc (slot ?a))) 4 T)"
          using False 4 by (simp_all add: wg_addrs_def lookup_def split: if_splits)
        then show ?thesis unfolding e fst_conv snd_conv
          by (intro returnsI [OF wg_transport [OF entry long _ ab(1)]]) (simp_all add: t 4 cells)
      qed
    next
      case 5
      then have e: "wg_addrs T buf = ((False, 0, 0), T)" using False by (simp add: wg_addrs_def)
      have u: "(ucast b :: u64) = of_nat k \<longleftrightarrow> b = of_nat k" if "k < 256" for b :: u8 and k
      proof -
        have "unat b < 2 ^ LENGTH(8)" by (rule unsigned_less)
        then have "unat (ucast b :: u64) = unat b" by (simp add: unsigned_ucast_eq take_bit_nat_eq_self)
        moreover have "unat (of_nat k :: u64) = k" "unat (of_nat k :: u8) = k"
          using that by (simp_all add: unat_of_nat take_bit_nat_eq_self)
        ultimately show ?thesis by (simp only: word_unat_eq_iff)
      qed
      show ?thesis unfolding e fst_conv snd_conv
        by (intro returnsI [OF wg_unknown [OF entry long t]])
          (use 5 u [of 1 "buf ! 0"] u [of 2 "buf ! 0"] u [of 3 "buf ! 0"] u [of 4 "buf ! 0"] in \<open>simp_all add: cells\<close>)
    qed
  qed
qed

lemma wg_program:
  assumes "vm_ok v" "vm_prog v = wireguard @ T" "length T = 399360" "length buf \<le> 64 * 1024"
  shows "\<exists>v'. get_src_dst buf v = (Some (fst (wg_addrs T buf)), v') \<and> vm_ok v'
    \<and> vm_prog v' = wireguard @ snd (wg_addrs T buf) \<and> vm_data v' = buf"
  using wg_run [OF _ _ _ assms(3) _ assms(4)] assms length_wg_addrs [OF assms(3), of buf]
  by (intro get_src_dst_pst) (simp_all add: wireguard_length)

section \<open>Sessions\<close>

lemma take32:
  assumes "(x :: u64) < 2 ^ 32"
  shows "take_bit 32 x = x" "drop_bit 32 x = 0"
proof -
  have "unat x < 2 ^ 32" using assms by (simp add: word_less_nat_alt)
  then have "take_bit 32 (unat x) = unat x" by (intro take_bit_nat_eq_self)
  then have "unat (take_bit 32 x) = unat x" by (simp only: unsigned_take_bit_eq)
  then show t: "take_bit 32 x = x" by (simp only: word_unat_eq_iff)
  have "drop_bit 32 (take_bit 32 x) = 0" by (simp add: drop_bit_take_bit)
  then show "drop_bit 32 x = 0" by (simp only: t)
qed

lemma le_val_read_2:
  assumes "x < 2 ^ 32"
  shows "le_val (le_bytes 2 (drop_bit 16 x)) = drop_bit 16 x"
proof -
  have "take_bit 16 (drop_bit 16 x) = drop_bit 16 (take_bit 32 x)" by (simp add: take_bit_drop_bit)
  then have "take_bit 16 (drop_bit 16 x) = drop_bit 16 x" by (simp only: take32 [OF assms])
  then show ?thesis by (simp add: le_val_le_bytes)
qed

lemma le_val_read_4:
  assumes "x < 2 ^ 32"
  shows "le_val (take 4 (le_bytes 8 x)) = x"
proof -
  have "take 4 (le_bytes 8 x) = le_bytes 4 x" by (simp add: numeral_eq_Suc)
  then show ?thesis using take32(1) [OF assms] by (simp add: le_val_le_bytes)
qed

text \<open>What is entered is found, and an entry in another slot stays, unless it is the next slot.\<close>

lemma lookup_learn:
  assumes "length T = 399360" "key < 2 ^ 32" "peer < 2 ^ 32"
  shows "lookup key (learn key peer T) = Some peer"
proof -
  let ?T1 = "write_at (slot key) (le_bytes 2 (drop_bit 16 key)) T"
  have len: "slot key + 10 \<le> length T" "length ?T1 = length T" using slot_le [of key] assms(1) by simp_all
  have "read_at (slot key) 2 (learn key peer T) = read_at (slot key) 2 ?T1"
    unfolding learn_def using len by (intro read_write_other) simp_all
  also have "\<dots> = le_bytes 2 (drop_bit 16 key)"
    using read_write_same [of "slot key" "le_bytes 2 (drop_bit 16 key)" T] len by simp
  finally have 1: "le_val (read_at (slot key) 2 (learn key peer T)) = drop_bit 16 key"
    using le_val_read_2 [OF assms(2)] by simp
  have "read_at (slot key + 2) 4 (learn key peer T) = take 4 (read_at (slot key + 2) 8 (learn key peer T))"
    by (simp add: read_at_def)
  also have "read_at (slot key + 2) 8 (learn key peer T) = le_bytes 8 peer"
    unfolding learn_def using read_write_same [of "slot key + 2" "le_bytes 8 peer" ?T1] len by simp
  finally show ?thesis using 1 le_val_read_4 [OF assms(3)] by (simp add: lookup_def)
qed

lemma slot_cases: "slot x = slot y \<or> slot x + 6 \<le> slot y \<or> slot y + 6 \<le> slot x"
  by (simp add: slot_def) presburger

lemma lookup_learn_other:
  assumes "length T = 399360" "slot k \<noteq> slot key" "slot k \<noteq> slot key + 6"
  shows "lookup k (learn key peer T) = lookup k T"
proof -
  let ?T1 = "write_at (slot key) (le_bytes 2 (drop_bit 16 key)) T"
  have len: "slot key + 10 \<le> length T" "slot k + 10 \<le> length T" "length ?T1 = length T"
    using slot_le [of key] slot_le [of k] assms(1) by simp_all
  have "slot key + 12 \<le> slot k \<or> slot k + 6 \<le> slot key"
    using assms(2,3) by (simp add: slot_def) presburger
  then have "read_at (slot k + i) n (learn key peer T) = read_at (slot k + i) n T" if "i + n \<le> 6" for i n
    using len that \<open>slot key + 12 \<le> slot k \<or> slot k + 6 \<le> slot key\<close>
    by (auto simp: learn_def read_write_other)
  from this [of 0 2] this [of 2 4] show ?thesis by (simp add: lookup_def)
qed

text \<open>An entry spills zeros over the first four bytes of the next slot.\<close>

lemma lookup_next:
  assumes "length T = 399360" "slot k = slot key + 6" "peer < 2 ^ 32" "drop_bit 16 k \<noteq> 0"
  shows "lookup k (learn key peer T) = None"
proof -
  let ?T1 = "write_at (slot key) (le_bytes 2 (drop_bit 16 key)) T"
  have len: "slot key + 10 \<le> length T" "length ?T1 = length T" using slot_le [of key] assms(1) by simp_all
  have "read_at (slot k) 2 (learn key peer T) = take 2 (drop 4 (read_at (slot key + 2) 8 (learn key peer T)))"
    using assms(2) by (simp add: read_at_def add.commute drop_take)
  also have "read_at (slot key + 2) 8 (learn key peer T) = le_bytes 8 peer"
    unfolding learn_def using read_write_same [of "slot key + 2" "le_bytes 8 peer" ?T1] len by simp
  also have "take 2 (drop 4 (le_bytes 8 peer)) = le_bytes 2 (drop_bit 32 peer)"
    by (simp add: numeral_eq_Suc)
  also have "drop_bit 32 peer = 0" by (rule take32(2) [OF assms(3)])
  finally have "le_val (read_at (slot k) 2 (learn key peer T)) = 0" by (simp add: le_val_le_bytes)
  then show ?thesis using assms(4) by (simp add: lookup_def)
qed

section \<open>Properties\<close>

text \<open>The messages of a session between the indices \<open>s\<close> and \<open>r\<close>.\<close>

definition wg_response_msg :: "u64 \<Rightarrow> u64 \<Rightarrow> u8 list" where
  "wg_response_msg s r = [2, 0, 0, 0] @ le_bytes 4 s @ le_bytes 4 r"

definition wg_transport_msg :: "u64 \<Rightarrow> u8 list \<Rightarrow> u8 list" where
  "wg_transport_msg r payload = [4, 0, 0, 0] @ le_bytes 4 r @ payload"

lemma wg_addrs_response:
  assumes "s < 2 ^ 32" "r < 2 ^ 32"
  shows "wg_addrs T (wg_response_msg s r) = ((True, s, r), learn s r (learn r s T))"
proof -
  have "read_at 4 4 (wg_response_msg s r) = le_bytes 4 s" "read_at 8 4 (wg_response_msg s r) = le_bytes 4 r"
    by (simp_all add: read_at_def wg_response_msg_def)
  then show ?thesis
    using take32(1) [OF assms(1)] take32(1) [OF assms(2)]
    by (simp add: wg_addrs_def le_val_le_bytes Let_def) (simp add: wg_response_msg_def)
qed

lemma wg_addrs_transport:
  assumes "r < 2 ^ 32" "4 \<le> length payload"
  shows "wg_addrs T (wg_transport_msg r payload) =
    ((case lookup r T of None \<Rightarrow> (False, 0, 0) | Some s \<Rightarrow> (True, s, r)), T)"
proof -
  have "read_at 4 4 (wg_transport_msg r payload) = le_bytes 4 r"
    by (simp add: read_at_def wg_transport_msg_def)
  moreover have "\<not> length (wg_transport_msg r payload) < 12" "wg_transport_msg r payload ! 0 = 4"
    using assms(2) by (simp_all add: wg_transport_msg_def)
  ultimately show ?thesis
    using take32(1) [OF assms(1)] by (simp add: wg_addrs_def le_val_le_bytes Let_def split: option.split)
qed

text \<open>The table joins two indices: each is found under the other.\<close>

definition joined :: "u64 \<Rightarrow> u64 \<Rightarrow> u8 list \<Rightarrow> bool" where
  "joined s r T \<longleftrightarrow> length T = 399360 \<and> lookup s T = Some r \<and> lookup r T = Some s"

text \<open>A message that leaves the session of \<open>s\<close> and \<open>r\<close> alone: anything but a response that enters an index whose
  slot is one of theirs or the one before.\<close>

definition leaves :: "u64 \<Rightarrow> u64 \<Rightarrow> u8 list \<Rightarrow> bool" where
  "leaves s r m \<longleftrightarrow> length m \<le> 64 * 1024 \<and> (length m < 12 \<or> m ! 0 \<noteq> 2
    \<or> list_all (\<lambda>key. list_all (\<lambda>k. slot k \<noteq> slot key \<and> slot k \<noteq> slot key + 6) [s, r])
      [le_val (read_at 4 4 m), le_val (read_at 8 4 m)])"

lemma joined_response:
  assumes "length T = 399360" "s < 2 ^ 32" "r < 2 ^ 32" "slot s \<noteq> slot r" "slot r \<noteq> slot s + 6"
  shows "joined s r (learn s r (learn r s T))"
proof -
  have T1: "length (learn r s T) = 399360" using assms(1) by simp
  show ?thesis
    using lookup_learn [OF T1 assms(2,3)] lookup_learn_other [OF T1, of r s r] lookup_learn [OF assms(1,3,2)] assms(4,5) T1
    by (simp add: joined_def)
qed

lemma joined_leaves: "joined s r T \<Longrightarrow> leaves s r m \<Longrightarrow> joined s r (snd (wg_addrs T m))"
  by (auto simp: joined_def leaves_def wg_addrs_def Let_def lookup_learn_other split: option.split)

definition hears :: "u8 list \<Rightarrow> vm \<Rightarrow> vm" where
  "hears m v = snd (get_src_dst m v)"

lemma wg_hears:
  assumes "vm_ok v" "vm_prog v = wireguard @ T" "joined s r T" "list_all (leaves s r) msgs"
  shows "\<exists>T'. vm_ok (fold hears msgs v) \<and> vm_prog (fold hears msgs v) = wireguard @ T' \<and> joined s r T'"
  using assms
proof (induction msgs arbitrary: v T)
  case (Cons m msgs)
  have m: "leaves s r m" "length m \<le> 64 * 1024" "length T = 399360"
    using Cons.prems(3,4) by (simp_all add: leaves_def joined_def)
  obtain v' where "get_src_dst m v = (Some (fst (wg_addrs T m)), v')" "vm_ok v'"
    "vm_prog v' = wireguard @ snd (wg_addrs T m)"
    using wg_program [OF Cons.prems(1,2) m(3,2)] by blast
  then show ?case
    using Cons.IH [of v'] joined_leaves [OF Cons.prems(3) m(1)] Cons.prems(4) by (simp add: hears_def)
qed auto

lemma wg_transports:
  assumes "vm_ok v" "vm_prog v = wireguard @ T" "joined s r T" "r < 2 ^ 32" "4 \<le> length p" "length p \<le> 64 * 1024 - 8"
  shows "fst (get_src_dst (wg_transport_msg r p) v) = Some (True, s, r)"
proof -
  have T: "length T = 399360" "length (wg_transport_msg r p) \<le> 64 * 1024"
    using assms(3,6) by (simp_all add: joined_def wg_transport_msg_def)
  show ?thesis
    using wg_program [OF assms(1,2) T] wg_addrs_transport [OF assms(4,5), of T] assms(3) by (auto simp: joined_def)
qed

text \<open>
  C23. The WireGuard bytecode remembers sessions. On every message a receive buffer can hold, whatever its table
  holds, it runs to its end, the answer is the function \<open>wg_addrs\<close> of table and message, and the new table is the one
  this function gives. After the response that joins the indices \<open>s\<close> and \<open>r\<close>, whose slots are different and that
  of \<open>r\<close> does not follow that of \<open>s\<close>, it names the two ends of every later transport message to either
  index, whatever messages came in between, except a response that enters an index whose slot is that of \<open>s\<close>
  or \<open>r\<close> or the one before (\<open>leaves\<close>). A transport message here has from 4 bytes after the index (the program reads
  12 bytes) up to the size of the buffer.
\<close>

theorem wireguard_sessions:
  assumes "vm_ok v" "vm_prog v = wireguard @ T" "length T = 399360" "length buf \<le> 64 * 1024"
    and "s < 2 ^ 32" "r < 2 ^ 32" "slot s \<noteq> slot r" "slot r \<noteq> slot s + 6"
    and "list_all (leaves s r) msgs" "4 \<le> length payload" "length payload \<le> 64 * 1024 - 8"
  shows "(\<exists>v'. get_src_dst buf v = (Some (fst (wg_addrs T buf)), v') \<and> vm_ok v'
      \<and> vm_prog v' = wireguard @ snd (wg_addrs T buf) \<and> vm_data v' = buf)
    \<and> fst (get_src_dst (wg_response_msg s r) v) = Some (True, s, r)
    \<and> fst (get_src_dst (wg_transport_msg r payload) (fold hears (wg_response_msg s r # msgs) v)) = Some (True, s, r)
    \<and> fst (get_src_dst (wg_transport_msg s payload) (fold hears (wg_response_msg s r # msgs) v)) = Some (True, r, s)"
proof -
  have l: "length (wg_response_msg s r) \<le> 64 * 1024" by (simp add: wg_response_msg_def)
  obtain v1 where v1: "get_src_dst (wg_response_msg s r) v = (Some (True, s, r), v1)" "vm_ok v1"
    "vm_prog v1 = wireguard @ learn s r (learn r s T)"
    using wg_program [OF assms(1-3) l] by (auto simp: wg_addrs_response [OF assms(5,6)])
  obtain T' where T': "vm_ok (fold hears msgs v1)" "vm_prog (fold hears msgs v1) = wireguard @ T'" "joined s r T'"
    using wg_hears [OF v1(2,3) joined_response [OF assms(3,5-8)] assms(9)] by blast
  have "joined r s T'" using T'(3) by (simp add: joined_def)
  then show ?thesis
    using wg_program [OF assms(1-4)] v1(1) wg_transports [OF T' assms(6,10,11)]
      wg_transports [OF T'(1,2) _ assms(5,10,11), of r]
    by (simp add: hears_def)
qed

definition wg_vm :: vm where
  "wg_vm = snd (program_load (wireguard @ replicate 399360 0) (new_VM 4096 1048576))"

lemma wg_vm: "vm_ok wg_vm" "vm_prog wg_vm = wireguard @ replicate 399360 0"
  using vm_with_program_ok [of "wireguard @ replicate 399360 0"] by (simp_all add: wg_vm_def wireguard_length)

text \<open>An initiation and a response of another session come between.\<close>

definition wg_between :: "u8 list list" where
  "wg_between = [[1, 0, 0, 0] @ replicate 12 9, wg_response_msg 0x300 0x400]"

theorem wireguard_sessions_witness:
  "fst (get_src_dst (wg_transport_msg 0x20009 [1, 2, 3, 4])
      (fold hears (wg_response_msg 0x10005 0x20009 # wg_between) wg_vm)) = Some (True, 0x10005, 0x20009)
    \<and> (\<exists>v'. get_src_dst [2] wg_vm = (Some (False, 0, 0), v'))"
proof -
  have slots: "slot 0x10005 = 30" "slot 0x20009 = 54" "slot 0x300 = 4608" "slot 0x400 = 6144" by (simp_all add: slot_def)
  have "list_all (leaves 0x10005 0x20009) wg_between"
    by (simp add: wg_between_def leaves_def slots wg_response_msg_def read_at_def le_val_le_bytes)
  then show ?thesis
    using wireguard_sessions [OF wg_vm, of "[2]" "0x10005" "0x20009" wg_between "[1, 2, 3, 4]"]
    by (simp add: slots wg_addrs_def) blast
qed

text \<open>
  The peer is stored with eight bytes where the slot has four left, so a response wipes the session of
  the index whose slot follows: transport messages to it are dropped until its next handshake. With
  \<open>k = r\<close> it is the session just made.
\<close>

theorem wireguard_wipes_next:
  assumes "vm_ok v" "vm_prog v = wireguard @ T" "length T = 399360" "s < 2 ^ 32" "r < 2 ^ 32" "k < 2 ^ 32"
    "slot k = slot s + 6" "drop_bit 16 k \<noteq> 0" "4 \<le> length payload" "length payload \<le> 1024"
  shows "\<exists>v1. get_src_dst (wg_response_msg s r) v = (Some (True, s, r), v1)
    \<and> fst (get_src_dst (wg_transport_msg k payload) v1) = Some (False, 0, 0)"
proof -
  let ?T1 = "learn s r (learn r s T)"
  have l: "length (wg_response_msg s r) \<le> 64 * 1024" "length (wg_transport_msg k payload) \<le> 64 * 1024"
    using assms(10) by (simp_all add: wg_response_msg_def wg_transport_msg_def)
  have T1: "length ?T1 = 399360" "length (learn r s T) = 399360" using assms(3) by simp_all
  obtain v1 where v1: "get_src_dst (wg_response_msg s r) v = (Some (True, s, r), v1)" "vm_ok v1"
    "vm_prog v1 = wireguard @ ?T1"
    using wg_program [OF assms(1-3) l(1)] by (auto simp: wg_addrs_response [OF assms(4,5)])
  have "lookup k ?T1 = None" by (rule lookup_next [OF T1(2) assms(7,5,8)])
  then have "fst (get_src_dst (wg_transport_msg k payload) v1) = Some (False, 0, 0)"
    using wg_program [OF v1(2,3) T1(1) l(2)] by (auto simp: wg_addrs_transport [OF assms(6,9)])
  then show ?thesis using v1(1) by blast
qed

theorem wireguard_wipes_next_witness:
  "\<exists>v1. get_src_dst (wg_response_msg 0x10005 0x20006) wg_vm = (Some (True, 0x10005, 0x20006), v1)
    \<and> fst (get_src_dst (wg_transport_msg 0x20006 [1, 2, 3, 4]) v1) = Some (False, 0, 0)"
proof -
  have "slot 0x20006 = slot 0x10005 + 6" by (simp add: slot_def)
  moreover have "drop_bit 16 (0x20006 :: u64) \<noteq> 0" by simp
  ultimately show ?thesis
    using wireguard_wipes_next [OF wg_vm, of "0x10005" "0x20006" "0x20006" "[1, 2, 3, 4]"] by simp
qed

end
