(* ===== verification/WriteQueue.thy ===== *)
theory WriteQueue
  imports Prelude "HOL-Library.Sublist"
begin

text \<open>
  The bounded write queues of ProtoConv's stream managers (\<open>TCPSocketManager\<close> and
  \<open>SerialPortsManager\<close> in \<open>src/src/ProtoConv\<close>): a message is appended, and when the queue is over its
  limit the oldest one is dropped.
\<close>

section \<open>The operation\<close>

definition enqueue :: "nat \<Rightarrow> 'a \<Rightarrow> 'a list \<Rightarrow> 'a list" where
  "enqueue limit x q = (let q' = q @ [x] in if length q' > limit then tl q' else q')"

section \<open>The interface\<close>

text \<open>What a manager relies on: the queue stays within its limit, and a message is appended to what is
  there or to what is there without its head.\<close>

locale drop_queue =
  fixes push :: "'a \<Rightarrow> 'a list \<Rightarrow> 'a list" and limit :: nat
  assumes push_bound: "length q \<le> limit \<Longrightarrow> length (push x q) \<le> limit"
    and push_drop: "push x q = q @ [x] \<or> push x q = tl (q @ [x]) \<and> limit \<le> length q"
begin

lemma push_subseq: "subseq (push x q) (q @ [x])"
  using push_drop [of x q] by (metis list_emb_Nil subseq_order.refl subseq_Cons' list.collapse tl_Nil)

text \<open>A queue in the context of what went before it: appending keeps it a subsequence of all
  messages, and it is all of them while nothing is dropped.\<close>

lemma push_history: "subseq (done @ q) h \<Longrightarrow> subseq (done @ push x q) (h @ [x])"
proof -
  assume "subseq (done @ q) h"
  then have "subseq ((done @ q) @ [x]) (h @ [x])" by (intro list_emb_append_mono) auto
  moreover have "subseq (done @ push x q) (done @ (q @ [x]))"
    using push_subseq by (intro list_emb_append_mono) auto
  ultimately show ?thesis by (metis append.assoc subseq_order.trans)
qed

end

interpretation wq: drop_queue "enqueue limit" limit for limit
proof
  show "length q \<le> limit \<Longrightarrow> length (enqueue limit x q) \<le> limit" for x :: 'a and q
    by (simp add: enqueue_def Let_def)
  show "enqueue limit x q = q @ [x] \<or> enqueue limit x q = tl (q @ [x]) \<and> limit \<le> length q" for x :: 'a and q
    by (auto simp: enqueue_def Let_def)
qed

end
