(* ===== verification/TcpManager.thy ===== *)
theory TcpManager
  imports WriteQueue
begin

text \<open>
  The TCP side of ProtoConv, \<open>src/src/ProtoConv/TCPSocketManager.h\<close> and \<open>.cpp\<close>: opening a connection as
  server or client with automatic retries, one write at a time over two write buffers, and throttled
  reads and writes. Every handler runs in one strand, so it is a function of the manager's state that
  returns the new state and what it did: handlers posted to the strand, asynchronous operations
  started, and calls on sockets and callbacks. \<open>TcpRuns\<close> composes them.

  Sockets are numbered in the order they are made. The retry timer is a counter that
  \<open>expires_from_now\<close> and \<open>cancel\<close> raise, since both abort the waits started before.
\<close>

section \<open>State\<close>

record tcp_conf =
  tc_is_server :: bool
  tc_buffer_limit :: nat
  tc_auto_reopen :: bool
  tc_min_retry :: u32
  tc_max_retry :: u32
  tc_min_established :: u32
  tc_bitrate :: u64
  tc_chunksize :: u64
  tc_writedelay :: u64

type_synonym sock = nat
type_synonym endpoint = string

record tcp =
  ts_connected :: bool
  ts_pending_write :: bool
  ts_pending_read :: bool
  ts_closed :: bool
  ts_queue :: "u8 list list"
  ts_dispatch :: "u8 list list"
  ts_sock :: "sock option"
  ts_candidates :: "sock list"
  ts_next_sock :: sock
  ts_acceptor :: "sock option"
  ts_endpoints :: "endpoint list"
  ts_resolve_time :: u64
  ts_ramp :: u16
  ts_timer :: nat
  ts_write_count :: u64

definition new_tcp :: "u64 \<Rightarrow> tcp" where
  "new_tcp now = \<lparr>ts_connected = False, ts_pending_write = False, ts_pending_read = False, ts_closed = True,
    ts_queue = [], ts_dispatch = [], ts_sock = None, ts_candidates = [], ts_next_sock = 0, ts_acceptor = None,
    ts_endpoints = [], ts_resolve_time = now, ts_ramp = 0, ts_timer = 0, ts_write_count = 0\<rparr>"

record throttle_data =
  td_active :: bool
  td_needed_delay :: int
  td_transfer_size :: nat

text \<open>Handlers posted to the strand, by the manager itself (\<open>AutoOpen\<close>, \<open>AutoClose\<close>) or by its user.\<close>

datatype task = AutoOpen | AutoClose | Open | Close | Write_execute "u8 list"

text \<open>Asynchronous operations and timer waits, with what their completion handlers captured.\<close>

datatype operation =
    Resolve
  | Connect sock
  | Accept sock
  | Retry nat
  | Established nat
  | Read_some sock
  | Write_one sock "u8 list" throttle_data
  | Write_many sock nat throttle_data
  | Throttle_wait sock
  | Read_wait "u8 list" bool
  | Delayed_write "u8 list"
  | Backup_close sock

datatype call =
    Shutdown_send sock
  | Shutdown_receive sock
  | Cancel_socket sock
  | Close_socket sock
  | Set_keepalives sock
  | State_callback bool
  | Read_callback "u8 list"

datatype effect = Post task | Start operation | Call call

fun posted :: "effect list \<Rightarrow> task list" where
  "posted [] = []"
| "posted (e # es) = (case e of Post t \<Rightarrow> t # posted es | _ \<Rightarrow> posted es)"

fun started :: "effect list \<Rightarrow> operation list" where
  "started [] = []"
| "started (e # es) = (case e of Start t \<Rightarrow> t # started es | _ \<Rightarrow> started es)"

fun called :: "effect list \<Rightarrow> call list" where
  "called [] = []"
| "called (e # es) = (case e of Call t \<Rightarrow> t # called es | _ \<Rightarrow> called es)"

section \<open>Throttling\<close>

text \<open>Delays are in microseconds; the multiplication is in 64 bits.\<close>

definition check_throttle :: "tcp_conf \<Rightarrow> nat \<Rightarrow> throttle_data" where
  "check_throttle conf data_size =
    (let byterate = drop_bit 3 (tc_bitrate conf)
     in if byterate = 0 then \<lparr>td_active = False, td_needed_delay = 0, td_transfer_size = 0\<rparr>
        else let transfer_size = (if tc_chunksize conf = 0 then data_size
                   else if unat (tc_chunksize conf) > data_size then data_size else unat (tc_chunksize conf))
             in \<lparr>td_active = True,
                 td_needed_delay = sint ((1000000 * of_nat transfer_size :: u64) div byterate),
                 td_transfer_size = transfer_size\<rparr>)"

text \<open>Whether a wait is still needed, \<open>elapsed\<close> nanoseconds after the throttle was consulted.\<close>

definition must_wait :: "throttle_data \<Rightarrow> int \<Rightarrow> bool" where
  "must_wait td elapsed \<longleftrightarrow> td_active td \<and> td_needed_delay td * 1000 > elapsed"

section \<open>Writing\<close>

text \<open>\<open>WriteBuffer\<close>: start a write of everything buffered, swapping the two buffers when the one for
  dispatch is empty.\<close>

definition write_buffer :: "tcp_conf \<Rightarrow> sock \<Rightarrow> tcp \<Rightarrow> tcp \<times> effect list" where
  "write_buffer conf sock s =
    (if (ts_queue s \<noteq> [] \<or> ts_dispatch s \<noteq> []) \<and> \<not> ts_pending_write s then
       let s1 = (if ts_dispatch s = [] then s\<lparr>ts_queue := ts_dispatch s, ts_dispatch := ts_queue s\<rparr> else s);
           data_size = length (concat (ts_dispatch s1))
       in (s1\<lparr>ts_pending_write := True\<rparr>, [Start (Write_many sock data_size (check_throttle conf data_size))])
     else (s, []))"

definition check_last_write :: "tcp_conf \<Rightarrow> sock \<Rightarrow> tcp \<Rightarrow> tcp \<times> effect list" where
  "check_last_write conf sock s =
    (let s1 = s\<lparr>ts_pending_write := False\<rparr>
     in if ts_sock s1 = Some sock \<and> ts_connected s1 \<and> \<not> ts_closed s1 then write_buffer conf sock s1
        else (s1, [Call (Shutdown_send sock), Post AutoOpen]))"

definition throttle_check_last_write ::
  "tcp_conf \<Rightarrow> sock \<Rightarrow> throttle_data \<Rightarrow> int \<Rightarrow> tcp \<Rightarrow> tcp \<times> effect list" where
  "throttle_check_last_write conf sock td elapsed s =
    (if must_wait td elapsed then (s, [Start (Throttle_wait sock)]) else check_last_write conf sock s)"

text \<open>What \<open>Write\<close> executes in the strand, and its completion: \<open>n\<close> bytes were sent.\<close>

definition write_execute :: "tcp_conf \<Rightarrow> u8 list \<Rightarrow> tcp \<Rightarrow> tcp \<times> effect list" where
  "write_execute conf buf s =
    (if \<not> ts_connected s \<or> ts_closed s \<or> ts_pending_write s then
       (s\<lparr>ts_queue := enqueue (tc_buffer_limit conf) buf (ts_queue s)\<rparr>, [])
     else (s\<lparr>ts_pending_write := True\<rparr>,
       [Start (Write_one (the (ts_sock s)) buf (check_throttle conf (length buf)))]))"

definition write_one_done ::
  "tcp_conf \<Rightarrow> sock \<Rightarrow> u8 list \<Rightarrow> throttle_data \<Rightarrow> nat \<Rightarrow> int \<Rightarrow> tcp \<Rightarrow> tcp \<times> effect list" where
  "write_one_done conf sock buf td n elapsed s =
    (let s1 = s\<lparr>ts_write_count := ts_write_count s + of_nat n\<rparr>;
         s2 = (if length buf > n
               then s1\<lparr>ts_queue := enqueue (tc_buffer_limit conf) (drop n buf) (ts_queue s1)\<rparr> else s1)
     in throttle_check_last_write conf sock td elapsed s2)"

text \<open>Take \<open>n\<close> sent bytes off the buffers: whole buffers are erased, the last one is advanced.\<close>

fun consume :: "nat \<Rightarrow> u8 list list \<Rightarrow> u8 list list" where
  "consume n [] = []"
| "consume n (b # bs) =
    (if n = 0 then b # bs else if length b > n then drop n b # bs else consume (n - length b) bs)"

definition write_many_done ::
  "tcp_conf \<Rightarrow> sock \<Rightarrow> nat \<Rightarrow> throttle_data \<Rightarrow> bool \<Rightarrow> nat \<Rightarrow> int \<Rightarrow> tcp \<Rightarrow> tcp \<times> effect list" where
  "write_many_done conf sock data_size td err n elapsed s =
    (let s1 = s\<lparr>ts_write_count := ts_write_count s + of_nat n\<rparr>;
         s2 = s1\<lparr>ts_dispatch := if err \<or> data_size > n then consume n (ts_dispatch s1) else []\<rparr>
     in throttle_check_last_write conf sock td elapsed s2)"

section \<open>Opening\<close>

definition server_open :: "(endpoint \<Rightarrow> bool) \<Rightarrow> endpoint \<Rightarrow> tcp \<Rightarrow> tcp \<times> effect list" where
  "server_open listen_ok ep s =
    (let sock = ts_next_sock s; s1 = s\<lparr>ts_next_sock := Suc sock\<rparr>
     in if \<not> listen_ok ep then (s1, if ts_candidates s1 = [] then [Post AutoOpen] else [])
        else (s1\<lparr>ts_acceptor := Some sock, ts_candidates := ts_candidates s1 @ [sock]\<rparr>, [Start (Accept sock)]))"

definition client_open :: "endpoint \<Rightarrow> tcp \<Rightarrow> tcp \<times> effect list" where
  "client_open ep s =
    (let sock = ts_next_sock s
     in (s\<lparr>ts_next_sock := Suc sock, ts_candidates := ts_candidates s @ [sock]\<rparr>, [Start (Connect sock)]))"

fun open_all :: "tcp_conf \<Rightarrow> (endpoint \<Rightarrow> bool) \<Rightarrow> endpoint list \<Rightarrow> tcp \<Rightarrow> tcp \<times> effect list" where
  "open_all conf listen_ok [] s = (s, [])"
| "open_all conf listen_ok (ep # eps) s =
    (let (s1, es1) = (if tc_is_server conf then server_open listen_ok ep s else client_open ep s);
         (s2, es2) = open_all conf listen_ok eps s1
     in (s2, es1 @ es2))"

definition endpoint_resolved :: "u64 \<Rightarrow> tcp \<Rightarrow> bool \<times> effect list" where
  "endpoint_resolved now s =
    (if ts_endpoints s = [] \<or> now - ts_resolve_time s > 900000 then (False, [Start Resolve]) else (True, []))"

text \<open>\<open>Open(tracker)\<close>; the first component is its result.\<close>

definition do_open :: "tcp_conf \<Rightarrow> (endpoint \<Rightarrow> bool) \<Rightarrow> u64 \<Rightarrow> tcp \<Rightarrow> bool \<times> tcp \<times> effect list" where
  "do_open conf listen_ok now s =
    (let s1 = s\<lparr>ts_closed := False\<rparr>
     in if ts_connected s1 \<or> ts_candidates s1 \<noteq> [] \<or> ts_pending_read s1 then (False, s1, [])
        else case endpoint_resolved now s1 of
          (False, es) \<Rightarrow> (False, s1, es)
        | (True, _) \<Rightarrow> (True, open_all conf listen_ok (ts_endpoints s1) s1))"

definition resolve_done :: "endpoint list option \<Rightarrow> u64 \<Rightarrow> tcp \<Rightarrow> tcp \<times> effect list" where
  "resolve_done r now s =
    (if ts_closed s then (s, [])
     else case r of
       None \<Rightarrow> (s, [Post AutoOpen])
     | Some eps \<Rightarrow> (s\<lparr>ts_endpoints := eps, ts_resolve_time := now\<rparr>, [Post AutoOpen]))"

text \<open>The retry period is doubled in 16 bits and compared with the 32-bit maximum.\<close>

definition next_ramp :: "u32 \<Rightarrow> u16 \<Rightarrow> u16" where
  "next_ramp max_retry ramp =
    (let r = ramp * 2 in if (ucast r :: u32) > max_retry then ucast max_retry else r)"

definition auto_open :: "tcp_conf \<Rightarrow> (endpoint \<Rightarrow> bool) \<Rightarrow> u64 \<Rightarrow> tcp \<Rightarrow> tcp \<times> effect list" where
  "auto_open conf listen_ok now s =
    (if \<not> tc_auto_reopen conf \<or> ts_closed s \<or> ts_connected s \<or> ts_candidates s \<noteq> [] \<or> ts_pending_read s
     then (s, [])
     else
       let s1 = (if tc_min_retry conf = tc_max_retry conf then s\<lparr>ts_ramp := ucast (tc_min_retry conf)\<rparr> else s)
       in if ts_ramp s1 = 0 then
            (case do_open conf listen_ok now s1 of
               (opened, s2, es) \<Rightarrow> (if opened then s2\<lparr>ts_ramp := ucast (tc_min_retry conf)\<rparr> else s2, es))
          else (s1\<lparr>ts_timer := Suc (ts_timer s1)\<rparr>, [Start (Retry (Suc (ts_timer s1)))]))"

definition retry_done :: "tcp_conf \<Rightarrow> (endpoint \<Rightarrow> bool) \<Rightarrow> u64 \<Rightarrow> bool \<Rightarrow> tcp \<Rightarrow> tcp \<times> effect list" where
  "retry_done conf listen_ok now err s =
    (if ts_closed s \<or> err then (s, [])
     else case do_open conf listen_ok now s of
       (opened, s1, es) \<Rightarrow>
         (if opened then s1\<lparr>ts_ramp := next_ramp (tc_max_retry conf) (ts_ramp s1)\<rparr> else s1, es))"

section \<open>Reading and the connection\<close>

definition start_read :: "tcp \<Rightarrow> tcp \<times> effect list" where
  "start_read s = (s\<lparr>ts_pending_read := True\<rparr>, [Start (Read_some (the (ts_sock s)))])"

text \<open>Setting the keepalives may throw; the exception leaves the handler and ends the program
  (\<open>MainProgram\<close>), so it is the last thing such a run does and only runs without it go on.\<close>

definition connect_completion :: "tcp_conf \<Rightarrow> bool \<Rightarrow> sock \<Rightarrow> tcp \<Rightarrow> tcp \<times> effect list" where
  "connect_completion conf err sock s =
    (if err then (s, if ts_candidates s = [] then [Post AutoOpen] else [])
     else if ts_connected s then (s, [])
     else
       let s1 = s\<lparr>ts_sock := Some sock, ts_connected := True, ts_timer := Suc (ts_timer s)\<rparr>;
           es1 = [Call (Set_keepalives sock), Call (State_callback True), Start (Established (ts_timer s1))];
           (s2, es2) = start_read s1
       in if ts_closed s2 then (s2, es1 @ es2 @ [Post AutoClose])
          else case write_buffer conf sock s2 of (s3, es3) \<Rightarrow> (s3, es1 @ es2 @ es3))"

definition connect_done :: "tcp_conf \<Rightarrow> bool \<Rightarrow> sock \<Rightarrow> tcp \<Rightarrow> tcp \<times> effect list" where
  "connect_done conf err sock s =
    connect_completion conf err sock (s\<lparr>ts_candidates := removeAll sock (ts_candidates s)\<rparr>)"

definition accept_done :: "tcp_conf \<Rightarrow> bool \<Rightarrow> sock \<Rightarrow> tcp \<Rightarrow> tcp \<times> effect list" where
  "accept_done conf err sock s =
    (case connect_completion conf err sock (s\<lparr>ts_candidates := removeAll sock (ts_candidates s)\<rparr>) of
       (s1, es) \<Rightarrow> (s1\<lparr>ts_acceptor := None\<rparr>, es))"

definition established_done :: "bool \<Rightarrow> tcp \<Rightarrow> tcp \<times> effect list" where
  "established_done err s =
    (if \<not> err \<and> ts_connected s then (s\<lparr>ts_ramp := 0, ts_endpoints := []\<rparr>, []) else (s, []))"

text \<open>The throttled delivery of the bytes read: the chunks given to the callback, and the rest when
  the loop ends in a wait. \<open>elapsed\<close> is the time each round has taken, by the number of bytes left.\<close>

function throttle_read :: "tcp_conf \<Rightarrow> (nat \<Rightarrow> int) \<Rightarrow> u8 list \<Rightarrow> u8 list list \<times> u8 list option" where
  "throttle_read conf elapsed bs =
    (if bs = [] then ([], None)
     else
       let td = check_throttle conf (length bs)
       in if td_active td then
            let chunk = take (td_transfer_size td) bs; leftover = drop (td_transfer_size td) bs
            in if must_wait td (elapsed (length bs)) then ([chunk], Some leftover)
               else (case throttle_read conf elapsed leftover of (cs, w) \<Rightarrow> (chunk # cs, w))
          else ([bs], None))"
  by pat_completeness auto

lemma transfer_size_bounds:
  assumes "td_active (check_throttle conf n)"
  shows "td_transfer_size (check_throttle conf n) \<le> n"
    and "0 < n \<Longrightarrow> 0 < td_transfer_size (check_throttle conf n)"
  using assms by (auto simp: check_throttle_def Let_def unat_gt_0 split: if_splits)

termination throttle_read
proof (relation "measure (\<lambda>(_, _, bs). length bs)")
  show "wf (measure (\<lambda>(_, _, bs). length bs))" by simp
next
  fix conf :: tcp_conf and elapsed :: "nat \<Rightarrow> int" and bs :: "u8 list" and td chunk leftover
  assume "bs \<noteq> []" "td = check_throttle conf (length bs)" "td_active td"
    "leftover = drop (td_transfer_size td) bs"
  then show "((conf, elapsed, leftover), (conf, elapsed, bs)) \<in> measure (\<lambda>(_, _, bs). length bs)"
    using transfer_size_bounds(2) [of conf "length bs"] by simp
qed

declare throttle_read.simps [simp del]

definition throttle_read_handler ::
  "tcp_conf \<Rightarrow> (nat \<Rightarrow> int) \<Rightarrow> u8 list \<Rightarrow> bool \<Rightarrow> tcp \<Rightarrow> tcp \<times> effect list" where
  "throttle_read_handler conf elapsed bs err s =
    (case throttle_read conf elapsed bs of
       (chunks, w) \<Rightarrow>
         let es = map (\<lambda>c. Call (Read_callback c)) chunks
         in case w of
              Some leftover \<Rightarrow> (s, es @ [Start (Read_wait leftover err)])
            | None \<Rightarrow>
                let s1 = s\<lparr>ts_pending_read := False\<rparr>
                in if err then (s1, es @ [Call (Shutdown_receive (the (ts_sock s1))), Post AutoClose, Post AutoOpen])
                   else case start_read s1 of (s2, es2) \<Rightarrow> (s2, es @ es2))"

section \<open>Closing\<close>

definition do_close :: "tcp \<Rightarrow> tcp \<times> effect list" where
  "do_close s =
    (s\<lparr>ts_closed := True, ts_ramp := 0, ts_timer := Suc (ts_timer s), ts_candidates := [], ts_acceptor := None\<rparr>,
     map (\<lambda>c. Call (Close_socket c)) (ts_candidates s) @ [Post AutoClose])"

definition auto_close :: "tcp \<Rightarrow> tcp \<times> effect list" where
  "auto_close s =
    (if \<not> ts_connected s then (s, [])
     else
       let sock = the (ts_sock s);
           es = (if \<not> ts_pending_write s then [Call (Shutdown_send sock)]
                 else if \<not> ts_pending_read s then [Call (Cancel_socket sock), Start (Backup_close sock)]
                 else [])
       in (s\<lparr>ts_connected := False\<rparr>, es @ [Call (State_callback False)]))"

section \<open>Dispatch\<close>

text \<open>What the outside contributes to a step: the clock, whether listening on an endpoint works, how an
  operation ended (its error, the bytes written or read, the endpoints resolved), how long it took, and
  whether a socket is still referenced.\<close>

record world =
  w_now :: u64
  w_listen_ok :: "endpoint \<Rightarrow> bool"
  w_err :: bool
  w_written :: nat
  w_read :: "u8 list"
  w_resolved :: "endpoint list"
  w_elapsed :: "nat \<Rightarrow> int"
  w_alive :: bool

fun run_task :: "tcp_conf \<Rightarrow> world \<Rightarrow> task \<Rightarrow> tcp \<Rightarrow> tcp \<times> effect list" where
  "run_task conf w AutoOpen s = auto_open conf (w_listen_ok w) (w_now w) s"
| "run_task conf w AutoClose s = auto_close s"
| "run_task conf w Open s = snd (do_open conf (w_listen_ok w) (w_now w) s)"
| "run_task conf w Close s = do_close s"
| "run_task conf w (Write_execute buf) s = write_execute conf buf s"

fun finish_op :: "tcp_conf \<Rightarrow> world \<Rightarrow> operation \<Rightarrow> tcp \<Rightarrow> tcp \<times> effect list" where
  "finish_op conf w Resolve s = resolve_done (if w_err w then None else Some (w_resolved w)) (w_now w) s"
| "finish_op conf w (Connect sock) s = connect_done conf (w_err w) sock s"
| "finish_op conf w (Accept sock) s = accept_done conf (w_err w) sock s"
| "finish_op conf w (Retry _) s = retry_done conf (w_listen_ok w) (w_now w) (w_err w) s"
| "finish_op conf w (Established _) s = established_done (w_err w) s"
| "finish_op conf w (Read_some _) s = throttle_read_handler conf (w_elapsed w) (w_read w) (w_err w) s"
| "finish_op conf w (Write_one sock buf td) s = write_one_done conf sock buf td (w_written w) (w_elapsed w 0) s"
| "finish_op conf w (Write_many sock data_size td) s =
    write_many_done conf sock data_size td (w_err w) (w_written w) (w_elapsed w 0) s"
| "finish_op conf w (Throttle_wait sock) s = check_last_write conf sock s"
| "finish_op conf w (Read_wait bs err) s = throttle_read_handler conf (w_elapsed w) bs err s"
| "finish_op conf w (Delayed_write buf) s = write_execute conf buf s"
| "finish_op conf w (Backup_close sock) s = (s, if w_alive w then [Call (Close_socket sock)] else [])"

text \<open>The public calls, made from outside the strand: \<open>Open\<close> and \<open>Close\<close> post their handlers, \<open>Write\<close> posts
  its own or, with a write delay, first waits. \<open>TCPStreamHandler\<close> calls \<open>Open\<close> when it is made, \<open>Close\<close> when it
  is destroyed and \<open>Write\<close> for each message.\<close>

datatype user_call = User_open | User_close | User_write "u8 list"

fun user_effect :: "tcp_conf \<Rightarrow> user_call \<Rightarrow> effect" where
  "user_effect conf User_open = Post Open"
| "user_effect conf User_close = Post Close"
| "user_effect conf (User_write buf) =
    (if tc_writedelay conf \<noteq> 0 then Start (Delayed_write buf) else Post (Write_execute buf))"

text \<open>What the operating system may answer: a write sends at most what it was given, and all of what it
  was asked for unless there is an error; an asynchronous read brings at least a byte without an error,
  and the retry timer's wait ends in an error only when it was cancelled. The other operations may end in an
  error at any time. This is what may happen, so it is made for claims about every run; which operations end
  although nobody outside does anything, is said in \<open>TcpDrain\<close>.\<close>

fun possible :: "tcp \<Rightarrow> world \<Rightarrow> operation \<Rightarrow> bool" where
  "possible s w (Write_one sock buf td) \<longleftrightarrow>
    w_written w \<le> length buf \<and> (\<not> w_err w \<longrightarrow> w_written w = length buf)"
| "possible s w (Write_many sock data_size td) \<longleftrightarrow>
    (let wanted = (if td_active td then td_transfer_size td else data_size)
     in w_written w \<le> wanted \<and> (\<not> w_err w \<longrightarrow> w_written w = wanted))"
| "possible s w (Retry g) \<longleftrightarrow> (w_err w \<longrightarrow> g \<noteq> ts_timer s)"
| "possible s w (Read_some sock) \<longleftrightarrow> length (w_read w) \<le> 65536 \<and> (\<not> w_err w \<longrightarrow> w_read w \<noteq> [])"
| "possible s w Resolve \<longleftrightarrow> (\<not> w_err w \<longrightarrow> w_resolved w \<noteq> [])"
| "possible s w _ \<longleftrightarrow> True"

end
