(* ===== verification/TcpRuns.thy ===== *)
theory TcpRuns
  imports TcpManager
begin

text \<open>
  Runs of a \<open>TCPSocketManager\<close>: its strand runs the posted handlers in order, and between them the
  handler of any operation that has ended. What holds in every run, for the write side (one write at a
  time, bounded buffers, order of the bytes), for the callbacks and for the retries.
\<close>

section \<open>Steps\<close>

text \<open>The manager with its strand and outstanding operations, and a history: the bytes sent, the messages
  taken by the write handler, the states called back, and the sockets closed.\<close>

record tcp_sys =
  sy_tcp :: tcp
  sy_posted :: "task list"
  sy_ops :: "operation list"
  sy_sent :: "u8 list"
  sy_accepted :: "u8 list list"
  sy_states :: "bool list"
  sy_closed :: "sock list"

definition new_tcp_sys :: "u64 \<Rightarrow> tcp_sys" where
  "new_tcp_sys now = \<lparr>sy_tcp = new_tcp now, sy_posted = [], sy_ops = [], sy_sent = [], sy_accepted = [],
    sy_states = [], sy_closed = []\<rparr>"

datatype event = Run world | Complete world operation | User user_call

fun states :: "call list \<Rightarrow> bool list" where
  "states [] = []"
| "states (c # cs) = (case c of State_callback b \<Rightarrow> b # states cs | _ \<Rightarrow> states cs)"

fun closes :: "call list \<Rightarrow> sock list" where
  "closes [] = []"
| "closes (c # cs) = (case c of Close_socket k \<Rightarrow> k # closes cs | _ \<Rightarrow> closes cs)"

fun task_takes :: "task \<Rightarrow> u8 list list" where
  "task_takes (Write_execute buf) = [buf]"
| "task_takes _ = []"

fun op_takes :: "operation \<Rightarrow> u8 list list" where
  "op_takes (Delayed_write buf) = [buf]"
| "op_takes _ = []"

fun op_sends :: "world \<Rightarrow> operation \<Rightarrow> tcp \<Rightarrow> u8 list" where
  "op_sends w (Write_one sock buf td) s = take (w_written w) buf"
| "op_sends w (Write_many sock data_size td) s = take (w_written w) (concat (ts_dispatch s))"
| "op_sends w _ s = []"

definition absorb :: "tcp \<times> effect list \<Rightarrow> tcp_sys \<Rightarrow> tcp_sys" where
  "absorb r y = y\<lparr>sy_tcp := fst r, sy_posted := sy_posted y @ posted (snd r),
    sy_ops := sy_ops y @ started (snd r), sy_states := sy_states y @ states (called (snd r)),
    sy_closed := sy_closed y @ closes (called (snd r))\<rparr>"

fun enabled :: "event \<Rightarrow> tcp_sys \<Rightarrow> bool" where
  "enabled (Run w) y = (sy_posted y \<noteq> [])"
| "enabled (Complete w op) y = (op \<in> set (sy_ops y) \<and> possible (sy_tcp y) w op)"
| "enabled (User u) y = True"

fun tcp_step :: "tcp_conf \<Rightarrow> event \<Rightarrow> tcp_sys \<Rightarrow> tcp_sys" where
  "tcp_step conf (Run w) y =
    (let t = hd (sy_posted y)
     in absorb (run_task conf w t (sy_tcp y))
         (y\<lparr>sy_posted := tl (sy_posted y), sy_accepted := sy_accepted y @ task_takes t\<rparr>))"
| "tcp_step conf (Complete w op) y =
    absorb (finish_op conf w op (sy_tcp y))
      (y\<lparr>sy_ops := remove1 op (sy_ops y), sy_sent := sy_sent y @ op_sends w op (sy_tcp y),
         sy_accepted := sy_accepted y @ op_takes op\<rparr>)"
| "tcp_step conf (User u) y = absorb (sy_tcp y, [user_effect conf u]) y"

text \<open>The states reached by steps that \<open>ok\<close> allows.\<close>

inductive tcp_reach :: "tcp_conf \<Rightarrow> (event \<Rightarrow> tcp_sys \<Rightarrow> bool) \<Rightarrow> u64 \<Rightarrow> tcp_sys \<Rightarrow> bool" for conf ok now where
  start: "tcp_reach conf ok now (new_tcp_sys now)"
| step: "tcp_reach conf ok now y \<Longrightarrow> enabled e y \<Longrightarrow> ok e y \<Longrightarrow> tcp_reach conf ok now (tcp_step conf e y)"

abbreviation anything :: "event \<Rightarrow> tcp_sys \<Rightarrow> bool" where
  "anything \<equiv> \<lambda>_ _. True"

lemma tcp_reach_mono: "tcp_reach conf ok now y \<Longrightarrow> tcp_reach conf anything now y"
  by (induction rule: tcp_reach.induct) (auto intro: tcp_reach.intros)

text \<open>An executable run, for concrete states.\<close>

fun run_events :: "tcp_conf \<Rightarrow> event list \<Rightarrow> tcp_sys \<Rightarrow> tcp_sys option" where
  "run_events conf [] y = Some y"
| "run_events conf (e # es) y = (if enabled e y then run_events conf es (tcp_step conf e y) else None)"

lemma run_events_reach:
  "tcp_reach conf anything now y \<Longrightarrow> run_events conf es y = Some z \<Longrightarrow> tcp_reach conf anything now z"
  by (induction es arbitrary: y) (auto split: if_splits intro: tcp_reach.step)

section \<open>Effects\<close>

lemma posted_append [simp]: "posted (xs @ ys) = posted xs @ posted ys"
  by (induction xs) (auto split: effect.splits)

lemma started_append [simp]: "started (xs @ ys) = started xs @ started ys"
  by (induction xs) (auto split: effect.splits)

lemma called_append [simp]: "called (xs @ ys) = called xs @ called ys"
  by (induction xs) (auto split: effect.splits)

lemma states_append [simp]: "states (xs @ ys) = states xs @ states ys"
  by (induction xs) (auto split: call.splits)

lemma closes_append [simp]: "closes (xs @ ys) = closes xs @ closes ys"
  by (induction xs) (auto split: call.splits)

lemma closes_of_closes [simp]: "closes (map Close_socket cs) = cs"
  by (induction cs) auto

lemma effects_of_calls [simp]:
  "posted (map (\<lambda>c. Call (f c)) cs) = []" "started (map (\<lambda>c. Call (f c)) cs) = []"
  "called (map (\<lambda>c. Call (f c)) cs) = map f cs"
  by (induction cs) auto

lemma states_of_reads [simp]: "states (map Read_callback bs) = []"
  by (induction bs) auto

lemma states_of_closes [simp]: "states (map Close_socket cs) = []"
  by (induction cs) auto

section \<open>One write at a time\<close>

fun is_write :: "operation \<Rightarrow> bool" where
  "is_write (Write_one _ _ _) = True"
| "is_write (Write_many _ _ _) = True"
| "is_write (Throttle_wait _) = True"
| "is_write _ = False"

fun many_ok :: "tcp_conf \<Rightarrow> tcp \<Rightarrow> operation \<Rightarrow> bool" where
  "many_ok conf s (Write_many sock n td) =
    (n = length (concat (ts_dispatch s)) \<and> td = check_throttle conf n \<and> ts_dispatch s \<noteq> [])"
| "many_ok conf s _ = True"

text \<open>A handler that leaves the write side alone.\<close>

definition write_idle :: "tcp \<Rightarrow> tcp \<times> effect list \<Rightarrow> bool" where
  "write_idle s r \<longleftrightarrow> ts_pending_write (fst r) = ts_pending_write s \<and> ts_queue (fst r) = ts_queue s
    \<and> ts_dispatch (fst r) = ts_dispatch s \<and> filter is_write (started (snd r)) = []"

text \<open>What every handler keeps: it starts a write exactly when it raises the flag, and leaves the buffers
  of a pending write alone.\<close>

definition write_contract :: "tcp_conf \<Rightarrow> tcp \<Rightarrow> tcp \<times> effect list \<Rightarrow> bool" where
  "write_contract conf s r \<longleftrightarrow>
    length (filter is_write (started (snd r))) + of_bool (ts_pending_write s) = (of_bool (ts_pending_write (fst r)) :: nat)
    \<and> (ts_pending_write s \<longrightarrow> ts_dispatch (fst r) = ts_dispatch s)
    \<and> (length (ts_queue s) \<le> tc_buffer_limit conf \<and> length (ts_dispatch s) \<le> tc_buffer_limit conf \<longrightarrow>
        length (ts_queue (fst r)) \<le> tc_buffer_limit conf \<and> length (ts_dispatch (fst r)) \<le> tc_buffer_limit conf)
    \<and> list_all (many_ok conf (fst r)) (started (snd r))"

lemma filter_write_many_ok: "filter is_write ops = [] \<Longrightarrow> list_all (many_ok conf s) ops"
proof (induction ops)
  case Nil
  then show ?case by simp
next
  case (Cons op ops)
  then show ?case by (cases op) (auto split: if_splits)
qed

lemma write_idle_contract: "write_idle s r \<Longrightarrow> write_contract conf s r"
  by (simp add: write_idle_def write_contract_def filter_write_many_ok)

lemma open_all_frame: "write_idle s (open_all conf l eps s)"
proof (induction eps arbitrary: s)
  case Nil
  then show ?case by (simp add: write_idle_def)
next
  case (Cons ep eps)
  show ?case
  proof (cases "tc_is_server conf")
    case True
    then show ?thesis using Cons.IH [of "fst (server_open l ep s)"]
      by (cases "open_all conf l eps (fst (server_open l ep s))") (auto simp: write_idle_def server_open_def Let_def)
  next
    case False
    then show ?thesis using Cons.IH [of "fst (client_open ep s)"]
      by (auto simp: write_idle_def client_open_def Let_def split: prod.splits)
  qed
qed

lemma do_open_frame: "write_idle s (snd (do_open conf l now s))"
  using open_all_frame [of "s\<lparr>ts_closed := False\<rparr>" conf l "ts_endpoints s"]
  by (auto simp: do_open_def endpoint_resolved_def write_idle_def Let_def)

lemma resolve_done_frame: "write_idle s (resolve_done r now s)"
  by (auto simp: resolve_done_def write_idle_def split: option.splits)

lemma auto_open_frame: "write_idle s (auto_open conf l now s)"
proof -
  define s1 where "s1 = (if tc_min_retry conf = tc_max_retry conf then s\<lparr>ts_ramp := ucast (tc_min_retry conf)\<rparr> else s)"
  have s1: "ts_pending_write s1 = ts_pending_write s" "ts_queue s1 = ts_queue s" "ts_dispatch s1 = ts_dispatch s"
    by (simp_all add: s1_def)
  obtain b s2 es where d: "do_open conf l now s1 = (b, s2, es)" by (metis prod_cases3)
  show ?thesis using do_open_frame [of s1 conf l now] s1
    unfolding auto_open_def Let_def s1_def [symmetric] d write_idle_def by simp
qed

lemma retry_done_frame: "write_idle s (retry_done conf l now err s)"
  using do_open_frame [of s conf l now]
  by (auto simp: retry_done_def write_idle_def Let_def split: prod.splits)

lemma established_done_frame: "write_idle s (established_done err s)"
  by (simp add: established_done_def write_idle_def)

lemma throttle_read_handler_frame: "write_idle s (throttle_read_handler conf elapsed bs err s)"
  by (auto simp: throttle_read_handler_def start_read_def write_idle_def Let_def split: prod.splits option.splits)

lemma do_close_frame: "write_idle s (do_close s)"
  by (simp add: do_close_def write_idle_def)

lemma auto_close_frame: "write_idle s (auto_close s)"
  by (simp add: auto_close_def write_idle_def Let_def)

lemmas handler_frames = do_open_frame resolve_done_frame auto_open_frame retry_done_frame
  established_done_frame throttle_read_handler_frame do_close_frame auto_close_frame

lemma write_buffer_contract: "write_contract conf s (write_buffer conf sock s)"
  by (auto simp: write_buffer_def write_contract_def Let_def)

lemma connect_completion_contract: "write_contract conf s (connect_completion conf err sock s)"
proof -
  let ?s = "s\<lparr>ts_sock := Some sock, ts_connected := True, ts_timer := Suc (ts_timer s), ts_pending_read := True\<rparr>"
  show ?thesis using write_buffer_contract [of conf ?s sock]
    by (auto simp: connect_completion_def start_read_def write_contract_def Let_def split: prod.splits)
qed

lemma write_contract_cong:
  "write_contract conf s' r \<Longrightarrow> ts_pending_write s' = ts_pending_write s \<Longrightarrow> ts_queue s' = ts_queue s \<Longrightarrow>
    ts_dispatch s' = ts_dispatch s \<Longrightarrow> write_contract conf s r"
  by (simp add: write_contract_def)

lemma connect_done_contract: "write_contract conf s (connect_done conf err sock s)"
  unfolding connect_done_def by (rule write_contract_cong [OF connect_completion_contract]) simp_all

lemma many_ok_cong: "ts_dispatch s' = ts_dispatch s \<Longrightarrow> many_ok conf s' = many_ok conf s"
  by (rule ext, rename_tac op, case_tac op) auto

lemma accept_done_contract: "write_contract conf s (accept_done conf err sock s)"
proof -
  obtain s1 es where r: "connect_done conf err sock s = (s1, es)" by fastforce
  then have "accept_done conf err sock s = (s1\<lparr>ts_acceptor := None\<rparr>, es)"
    by (simp add: accept_done_def connect_done_def)
  then show ?thesis using connect_done_contract [of conf s err sock]
    by (simp add: r write_contract_def many_ok_cong [of "s1\<lparr>ts_acceptor := None\<rparr>" s1])
qed

lemma write_execute_contract: "write_contract conf s (write_execute conf buf s)"
  by (auto simp: write_execute_def write_contract_def intro: wq.push_bound)

lemma run_task_contract: "write_contract conf s (run_task conf w t s)"
  by (cases t) (auto intro: write_execute_contract write_idle_contract handler_frames)

lemma complete_contract: "\<not> is_write op \<Longrightarrow> write_contract conf s (finish_op conf w op s)"
  by (cases op)
    (auto intro: write_execute_contract connect_done_contract accept_done_contract write_idle_contract
      handler_frames simp: write_idle_def)

text \<open>The completion of a write: the flag was up, and stays up exactly when another operation of the
  write side is started.\<close>

lemma check_last_write_contract:
  "write_contract conf (s\<lparr>ts_pending_write := False\<rparr>) (check_last_write conf sock s)"
  using write_buffer_contract [of conf "s\<lparr>ts_pending_write := False\<rparr>" sock]
  by (auto simp: check_last_write_def write_contract_def Let_def)

lemma throttle_check_contract:
  "ts_pending_write s \<Longrightarrow>
    write_contract conf (s\<lparr>ts_pending_write := False\<rparr>) (throttle_check_last_write conf sock td el s)"
  using check_last_write_contract [of conf s sock]
  by (auto simp: throttle_check_last_write_def write_contract_def)

lemma length_consume: "length (consume n bs) \<le> length bs"
  by (induction n bs rule: consume.induct) auto

lemma concat_consume: "concat (consume n bs) = drop n (concat bs)"
  by (induction n bs rule: consume.induct) auto

lemma complete_write_contract:
  assumes "is_write op" "ts_pending_write s"
    "length (ts_queue s) \<le> tc_buffer_limit conf" "length (ts_dispatch s) \<le> tc_buffer_limit conf"
  obtains s0 where "write_contract conf s0 (finish_op conf w op s)" "\<not> ts_pending_write s0"
    "length (ts_queue s0) \<le> tc_buffer_limit conf" "length (ts_dispatch s0) \<le> tc_buffer_limit conf"
proof (cases op)
  case (Write_one sock buf td)
  define s2 where "s2 = (let s1 = s\<lparr>ts_write_count := ts_write_count s + of_nat (w_written w)\<rparr> in
    if length buf > w_written w
    then s1\<lparr>ts_queue := enqueue (tc_buffer_limit conf) (drop (w_written w) buf) (ts_queue s1)\<rparr> else s1)"
  have "finish_op conf w op s = throttle_check_last_write conf sock td (w_elapsed w 0) s2"
    by (simp add: Write_one write_one_done_def s2_def Let_def)
  moreover have "ts_pending_write s2" "length (ts_queue s2) \<le> tc_buffer_limit conf"
    "length (ts_dispatch s2) \<le> tc_buffer_limit conf"
    using assms by (auto simp: s2_def Let_def intro: wq.push_bound)
  ultimately show ?thesis
    using that [of "s2\<lparr>ts_pending_write := False\<rparr>"] throttle_check_contract [of s2 conf sock td "w_elapsed w 0"] by simp
next
  case (Write_many sock n td)
  define s2 where "s2 = s\<lparr>ts_write_count := ts_write_count s + of_nat (w_written w),
    ts_dispatch := if w_err w \<or> n > w_written w then consume (w_written w) (ts_dispatch s) else []\<rparr>"
  have "finish_op conf w op s = throttle_check_last_write conf sock td (w_elapsed w 0) s2"
    by (simp add: Write_many write_many_done_def s2_def Let_def)
  moreover have "ts_pending_write s2" "length (ts_queue s2) \<le> tc_buffer_limit conf"
    "length (ts_dispatch s2) \<le> tc_buffer_limit conf"
    using assms length_consume [of "w_written w" "ts_dispatch s"] by (auto simp: s2_def)
  ultimately show ?thesis
    using that [of "s2\<lparr>ts_pending_write := False\<rparr>"] throttle_check_contract [of s2 conf sock td "w_elapsed w 0"] by simp
next
  case (Throttle_wait sock)
  then show ?thesis
    using that [of "s\<lparr>ts_pending_write := False\<rparr>"] check_last_write_contract [of conf s sock] assms by simp
qed (use assms(1) in auto)

definition write_inv :: "tcp_conf \<Rightarrow> tcp_sys \<Rightarrow> bool" where
  "write_inv conf y \<longleftrightarrow>
    length (filter is_write (sy_ops y)) = of_bool (ts_pending_write (sy_tcp y))
    \<and> length (ts_queue (sy_tcp y)) \<le> tc_buffer_limit conf
    \<and> length (ts_dispatch (sy_tcp y)) \<le> tc_buffer_limit conf
    \<and> list_all (many_ok conf (sy_tcp y)) (sy_ops y)"

lemma write_inv_start: "write_inv conf (new_tcp_sys now)"
  by (simp add: write_inv_def new_tcp_sys_def new_tcp_def)

lemma write_inv_no_write:
  assumes "write_inv conf y" "sy_tcp y = s" "set (sy_ops z) \<subseteq> set (sy_ops y)"
    "filter is_write (sy_ops z) = filter is_write (sy_ops y)" "write_contract conf s r"
  shows "write_inv conf (absorb r z)"
proof -
  have count: "length (filter is_write (sy_ops z)) = of_bool (ts_pending_write s)"
    using assms by (simp add: write_inv_def)
  have "list_all (many_ok conf (fst r)) (sy_ops z)"
  proof (cases "ts_pending_write s")
    case True
    then have "many_ok conf (fst r) = many_ok conf s"
      using assms(5) by (intro many_ok_cong) (simp add: write_contract_def)
    then show ?thesis using assms by (auto simp: write_inv_def list_all_iff)
  next
    case False
    then show ?thesis using count by (intro filter_write_many_ok) simp
  qed
  then show ?thesis using assms count by (simp add: write_inv_def absorb_def write_contract_def add.commute)
qed

lemma filter_remove1_no: "\<not> P x \<Longrightarrow> filter P (remove1 x xs) = filter P xs"
  by (induction xs) auto

lemma filter_remove1_last: "P x \<Longrightarrow> x \<in> set xs \<Longrightarrow> length (filter P (remove1 x xs)) = length (filter P xs) - 1"
  by (simp add: filter_remove1 length_remove1)

lemma write_inv_complete:
  assumes "write_inv conf y" "op \<in> set (sy_ops y)" "sy_ops z = remove1 op (sy_ops y)"
  shows "write_inv conf (absorb (finish_op conf w op (sy_tcp y)) z)"
proof (cases "is_write op")
  case False
  show ?thesis
    by (rule write_inv_no_write [OF assms(1) refl])
      (use False assms(3) in \<open>auto simp: filter_remove1_no complete_contract dest: subsetD [OF set_remove1_subset]\<close>)
next
  case True
  have "filter is_write (sy_ops y) \<noteq> []" using True assms(2) by (auto simp: filter_empty_conv)
  then have pending: "ts_pending_write (sy_tcp y)" and one: "length (filter is_write (sy_ops y)) = 1"
    using assms(1) by (auto simp: write_inv_def of_bool_def split: if_splits)
  then have none: "filter is_write (sy_ops z) = []"
    using filter_remove1_last [of is_write op "sy_ops y"] True assms(2,3) by simp
  obtain s0 where c: "write_contract conf s0 (finish_op conf w op (sy_tcp y))" "\<not> ts_pending_write s0"
    "length (ts_queue s0) \<le> tc_buffer_limit conf" "length (ts_dispatch s0) \<le> tc_buffer_limit conf"
    using complete_write_contract [OF True pending, of conf w] assms(1) by (auto simp: write_inv_def)
  show ?thesis using c none filter_write_many_ok [OF none]
    by (simp add: write_inv_def absorb_def write_contract_def)
qed

lemma user_effect_no_write: "filter is_write (started [user_effect conf u]) = []"
  by (cases u) auto

lemma write_inv_step:
  assumes "write_inv conf y" "enabled e y"
  shows "write_inv conf (tcp_step conf e y)"
proof (cases e)
  case (Run w)
  show ?thesis unfolding Run tcp_step.simps Let_def
    by (rule write_inv_no_write [OF assms(1) refl]) (simp_all add: run_task_contract)
next
  case (Complete w op)
  then show ?thesis using assms by (simp add: write_inv_complete)
next
  case (User u)
  have "write_contract conf (sy_tcp y) (sy_tcp y, [user_effect conf u])"
    by (rule write_idle_contract) (simp add: write_idle_def user_effect_no_write del: started.simps)
  then show ?thesis unfolding User tcp_step.simps
    by (intro write_inv_no_write [OF assms(1) refl]) simp_all
qed

lemma tcp_reach_write_inv: "tcp_reach conf ok now y \<Longrightarrow> write_inv conf y"
  by (induction rule: tcp_reach.induct) (auto intro: write_inv_start write_inv_step)

text \<open>
  C7. One write at a time: in every run, with connections lost, retried and closed at any moment, exactly
  one operation of the write side (a write or its throttle wait) is outstanding while \<open>pending_write\<close> is set
  and none while it is not; both write buffers keep to the limit; and the buffer being dispatched is
  what the outstanding write was given, so its completion never runs off the end of the buffer.
\<close>

theorem tcp_one_write:
  assumes "tcp_reach conf anything now y"
  shows "length (filter is_write (sy_ops y)) = of_bool (ts_pending_write (sy_tcp y))
    \<and> length (ts_queue (sy_tcp y)) \<le> tc_buffer_limit conf
    \<and> length (ts_dispatch (sy_tcp y)) \<le> tc_buffer_limit conf
    \<and> list_all (many_ok conf (sy_tcp y)) (sy_ops y)"
  using tcp_reach_write_inv [OF assms] by (simp add: write_inv_def)

definition demo_conf :: tcp_conf where
  "demo_conf = \<lparr>tc_is_server = False, tc_buffer_limit = 2, tc_auto_reopen = True, tc_min_retry = 500,
    tc_max_retry = 60000, tc_min_established = 5000, tc_bitrate = 0, tc_chunksize = 0, tc_writedelay = 0\<rparr>"

definition demo_world :: world where
  "demo_world = \<lparr>w_now = 0, w_listen_ok = (\<lambda>_. True), w_err = False, w_written = 0, w_read = [1],
    w_resolved = [''host:20000''], w_elapsed = (\<lambda>_. 0), w_alive = True\<rparr>"

text \<open>Open, resolve, connect with one message queued: the connection starts by writing it.\<close>

definition demo_connect :: "event list" where
  "demo_connect = [User User_open, Run demo_world, Complete demo_world Resolve, Run demo_world,
    User (User_write [7, 8]), Run demo_world, Complete demo_world (Connect 0)]"

lemmas run_simps = absorb_def Let_def new_tcp_sys_def new_tcp_def demo_conf_def demo_world_def
  demo_connect_def auto_open_def auto_close_def do_open_def do_close_def endpoint_resolved_def client_open_def
  resolve_done_def connect_done_def connect_completion_def start_read_def write_buffer_def write_execute_def
  check_throttle_def enqueue_def

theorem tcp_one_write_witness:
  "\<exists>y. tcp_reach demo_conf anything 0 y \<and> ts_pending_write (sy_tcp y) \<and> length (filter is_write (sy_ops y)) = 1"
proof -
  obtain y where run: "run_events demo_conf demo_connect (new_tcp_sys 0) = Some y" and p: "ts_pending_write (sy_tcp y)"
    by (simp add: run_simps)
  have r: "tcp_reach demo_conf anything 0 y" by (rule run_events_reach [OF tcp_reach.start run])
  show ?thesis using tcp_one_write [OF r] r p by auto
qed

end
