(* ===== verification/TcpDrain.thy ===== *)
theory TcpDrain
  imports TcpRuns
begin

text \<open>
  The end of a \<open>TCPSocketManager\<close>, \<open>Close\<close> and the destructor in \<open>src/src/ProtoConv/TCPSocketManager.cpp\<close>.
  Every handler posted and every operation started holds a copy of the manager's \<open>handler_tracker\<close>; the
  destructor gives up its own and runs handlers until no copy is left or the \<open>io_context\<close> was stopped.
\<close>

section \<open>The destructor\<close>

definition tracker_expired :: "tcp_sys \<Rightarrow> bool" where
  "tracker_expired y \<longleftrightarrow> sy_posted y = [] \<and> sy_ops y = []"

text \<open>The test of its loop.\<close>

definition destructor_waits :: "bool \<Rightarrow> tcp_sys \<Rightarrow> bool" where
  "destructor_waits stopped y \<longleftrightarrow> \<not> tracker_expired y \<and> \<not> stopped"

text \<open>The handlers it runs, one for each turn: nobody calls the manager any more. The peer is assumed to
  be closed too, so that a read brings an error.\<close>

fun drains :: "event \<Rightarrow> bool" where
  "drains (User u) = False"
| "drains (Complete w (Read_some sock)) = w_err w"
| "drains _ = True"

fun destructor_run :: "tcp_conf \<Rightarrow> event list \<Rightarrow> tcp_sys \<Rightarrow> tcp_sys option" where
  "destructor_run conf [] y = Some y"
| "destructor_run conf (e # es) y =
    (if destructor_waits False y \<and> enabled e y \<and> drains e then destructor_run conf es (tcp_step conf e y) else None)"

section \<open>What is left to run\<close>

fun task_cost :: "task \<Rightarrow> nat" where
  "task_cost AutoClose = 2"
| "task_cost Close = 3"
| "task_cost _ = 1"

fun op_cost :: "operation \<Rightarrow> nat" where
  "op_cost (Connect _) = 65550"
| "op_cost (Accept _) = 65550"
| "op_cost (Read_some _) = 65541"
| "op_cost (Read_wait bs err) = length bs + (if err then 4 else 65542)"
| "op_cost (Write_one _ _ _) = 3"
| "op_cost (Write_many _ _ _) = 3"
| "op_cost (Throttle_wait _) = 2"
| "op_cost _ = 1"

definition effect_cost :: "effect list \<Rightarrow> nat" where
  "effect_cost es = sum_list (map task_cost (posted es)) + sum_list (map op_cost (started es))"

definition handlers_left :: "tcp_sys \<Rightarrow> nat" where
  "handlers_left y = sum_list (map task_cost (sy_posted y)) + sum_list (map op_cost (sy_ops y))"

text \<open>A handler of a closed manager leaves it closed, does not open it, and costs less than \<open>c\<close>; it makes no
  acceptor, and waits for no connection and no retry.\<close>

fun opens :: "operation \<Rightarrow> bool" where
  "opens (Connect _) = True"
| "opens (Accept _) = True"
| "opens (Retry _) = True"
| "opens _ = False"

definition winds_down :: "nat \<Rightarrow> tcp \<Rightarrow> tcp \<times> effect list \<Rightarrow> bool" where
  "winds_down c s r \<longleftrightarrow> ts_closed (fst r) \<and> Open \<notin> set (posted (snd r)) \<and> effect_cost (snd r) < c
    \<and> filter opens (started (snd r)) = [] \<and> ts_timer s \<le> ts_timer (fst r)
    \<and> (ts_acceptor s = None \<longrightarrow> ts_acceptor (fst r) = None)"

lemma effect_cost_append [simp]: "effect_cost (xs @ ys) = effect_cost xs + effect_cost ys"
  by (simp add: effect_cost_def)

lemma effect_cost_calls [simp]: "effect_cost (map (\<lambda>c. Call (f c)) cs) = 0"
  by (simp add: effect_cost_def)

lemma check_last_write_down: "ts_closed s \<Longrightarrow> winds_down 2 s (check_last_write conf sock s)"
  by (simp add: check_last_write_def winds_down_def effect_cost_def Let_def)

lemma throttle_check_down: "ts_closed s \<Longrightarrow> winds_down 3 s (throttle_check_last_write conf sock td e s)"
  using check_last_write_down [of s conf sock]
  by (simp add: throttle_check_last_write_def winds_down_def effect_cost_def)

lemma throttle_read_leftover:
  "throttle_read conf elapsed bs = (cs, Some rest) \<Longrightarrow> length rest < length bs"
proof (induction conf elapsed bs arbitrary: cs rule: throttle_read.induct)
  case (1 conf elapsed bs)
  let ?td = "check_throttle conf (length bs)"
  show ?case
  proof (cases "bs = [] \<or> \<not> td_active ?td")
    case True
    then show ?thesis using "1.prems" by (subst (asm) throttle_read.simps) (auto simp: Let_def split: if_splits)
  next
    case False
    then have pos: "0 < td_transfer_size ?td" using transfer_size_bounds(2) [of conf "length bs"] by simp
    show ?thesis
    proof (cases "must_wait ?td (elapsed (length bs))")
      case True
      then have "rest = drop (td_transfer_size ?td) bs"
        using "1.prems" False by (subst (asm) throttle_read.simps) (simp add: Let_def)
      then show ?thesis using pos False by simp
    next
      case wait: False
      obtain cs' w where r: "throttle_read conf elapsed (drop (td_transfer_size ?td) bs) = (cs', w)" by fastforce
      then have "w = Some rest"
        using "1.prems" False wait by (subst (asm) throttle_read.simps) (simp add: Let_def)
      then have "length rest < length (drop (td_transfer_size ?td) bs)"
        using "1.IH" [OF _ refl _ refl refl wait, of cs'] False r by simp
      then show ?thesis by simp
    qed
  qed
qed

lemma throttle_read_down:
  assumes "ts_closed s"
  shows "winds_down (length bs + (if err then 4 else 65542)) s (throttle_read_handler conf elapsed bs err s)"
proof -
  obtain cs w where r: "throttle_read conf elapsed bs = (cs, w)" by fastforce
  have "posted (map (\<lambda>c. Call (Read_callback c)) cs) = []" by simp
  then show ?thesis
    using assms throttle_read_leftover [of conf elapsed bs cs] r
    by (cases w) (auto simp: throttle_read_handler_def start_read_def winds_down_def effect_cost_def)
qed

lemma run_task_down:
  assumes "ts_closed s" "t \<noteq> Open"
  shows "winds_down (task_cost t) s (run_task conf w t s)"
  using assms
  by (cases t) (auto simp: winds_down_def effect_cost_def auto_open_def auto_close_def do_close_def write_execute_def Let_def)

lemma winds_down_cong:
  "winds_down c s' r \<Longrightarrow> ts_timer s' = ts_timer s \<Longrightarrow> ts_acceptor s' = ts_acceptor s \<Longrightarrow> winds_down c s r"
  by (simp add: winds_down_def)

lemma finish_op_down:
  assumes "ts_closed s" "drains (Complete w op)" "possible s w op"
  shows "winds_down (op_cost op) s (finish_op conf w op s)"
proof (cases op)
  case (Connect sock)
  then show ?thesis using assms(1)
    by (auto simp: connect_done_def connect_completion_def start_read_def winds_down_def effect_cost_def Let_def)
next
  case (Accept sock)
  then show ?thesis using assms(1)
    by (auto simp: accept_done_def connect_completion_def start_read_def winds_down_def effect_cost_def Let_def)
next
  case (Read_some sock)
  then show ?thesis using assms throttle_read_down [OF assms(1), of "w_read w" "w_err w" conf "w_elapsed w"]
    by (simp add: winds_down_def)
next
  case (Write_one sock buf td)
  then show ?thesis using assms(1)
    by (auto simp: write_one_done_def Let_def intro: winds_down_cong [OF throttle_check_down])
next
  case (Write_many sock n td)
  then show ?thesis using assms(1)
    by (auto simp: write_many_done_def Let_def intro: winds_down_cong [OF throttle_check_down])
next
  case (Throttle_wait sock)
  then show ?thesis using assms(1) by (simp add: check_last_write_down)
next
  case (Read_wait bs err)
  then show ?thesis using throttle_read_down [OF assms(1)] by simp
qed (use assms in \<open>auto simp: winds_down_def effect_cost_def resolve_done_def retry_done_def established_done_def
  write_execute_def split: option.split\<close>)

section \<open>What was opened\<close>

text \<open>The sockets an operation is to connect, and the handlers that make new ones.\<close>

fun op_sock :: "operation \<Rightarrow> sock list" where
  "op_sock (Connect c) = [c]"
| "op_sock (Accept c) = [c]"
| "op_sock _ = []"

abbreviation op_socks :: "operation list \<Rightarrow> sock list" where
  "op_socks ops \<equiv> concat (map op_sock ops)"

fun retry_within :: "nat \<Rightarrow> operation \<Rightarrow> bool" where
  "retry_within t (Retry g) = (g \<le> t)"
| "retry_within t _ = True"

text \<open>Each handler, apart from the one of \<open>gone\<close>, keeps the candidates or closes them, and what it starts is for new
  candidates and the newest timer.\<close>

definition sock_contract :: "sock list \<Rightarrow> tcp \<Rightarrow> tcp \<times> effect list \<Rightarrow> bool" where
  "sock_contract gone s r \<longleftrightarrow> ts_next_sock s \<le> ts_next_sock (fst r) \<and> ts_timer s \<le> ts_timer (fst r)
    \<and> distinct (op_socks (started (snd r)))
    \<and> set (op_socks (started (snd r))) \<subseteq> {ts_next_sock s..<ts_next_sock (fst r)} \<inter> set (ts_candidates (fst r))
    \<and> list_all (retry_within (ts_timer (fst r))) (started (snd r))
    \<and> set (ts_candidates s) \<subseteq> set gone \<union> set (ts_candidates (fst r)) \<union> set (closes (called (snd r)))"

lemma sock_contract_cong:
  "sock_contract gone s' r \<Longrightarrow> ts_next_sock s' = ts_next_sock s \<Longrightarrow> ts_timer s' = ts_timer s \<Longrightarrow>
    set (ts_candidates s) \<subseteq> set gone \<union> set (ts_candidates s') \<Longrightarrow> sock_contract gone s r"
  by (auto simp: sock_contract_def)

lemma retry_within_mono: "t \<le> u \<Longrightarrow> retry_within t op \<Longrightarrow> retry_within u op"
  by (cases op) auto

lemma sock_contract_seq:
  assumes "sock_contract [] s (s1, es1)" "sock_contract [] s1 (s2, es2)" "called es2 = []"
  shows "sock_contract [] s (s2, es1 @ es2)"
proof -
  have 1: "ts_next_sock s \<le> ts_next_sock s1" "ts_timer s \<le> ts_timer s1" "distinct (op_socks (started es1))"
    "set (op_socks (started es1)) \<subseteq> {ts_next_sock s..<ts_next_sock s1}" "set (op_socks (started es1)) \<subseteq> set (ts_candidates s1)"
    "list_all (retry_within (ts_timer s1)) (started es1)"
    "set (ts_candidates s) \<subseteq> set (ts_candidates s1) \<union> set (closes (called es1))"
    using assms(1) by (simp_all add: sock_contract_def)
  have 2: "ts_next_sock s1 \<le> ts_next_sock s2" "ts_timer s1 \<le> ts_timer s2" "distinct (op_socks (started es2))"
    "set (op_socks (started es2)) \<subseteq> {ts_next_sock s1..<ts_next_sock s2}" "set (op_socks (started es2)) \<subseteq> set (ts_candidates s2)"
    "list_all (retry_within (ts_timer s2)) (started es2)" "set (ts_candidates s1) \<subseteq> set (ts_candidates s2)"
    using assms(2,3) by (simp_all add: sock_contract_def)
  have "set (op_socks (started es1)) \<inter> set (op_socks (started es2)) = {}"
    using 1(4) 2(4) by (force simp del: set_concat set_map)
  moreover have "list_all (retry_within (ts_timer s2)) (started es1)"
    using 1(6) retry_within_mono [OF 2(2)] by (auto simp: list_all_iff)
  moreover have "set (op_socks (started es1)) \<subseteq> {ts_next_sock s..<ts_next_sock s2} \<inter> set (ts_candidates s2)"
    "set (op_socks (started es2)) \<subseteq> {ts_next_sock s..<ts_next_sock s2} \<inter> set (ts_candidates s2)"
    using 1(1,4,5) 2(1,4,5,7) by (force simp del: set_concat set_map)+
  ultimately show ?thesis
    using 1 2 assms(3) by (simp add: sock_contract_def del: set_concat) auto
qed

lemma open_all_calls: "called (snd (open_all conf l eps s)) = []"
  by (induction eps arbitrary: s) (auto simp: server_open_def client_open_def Let_def case_prod_beta)

lemma open_all_socks: "sock_contract [] s (open_all conf l eps s)"
proof (induction eps arbitrary: s)
  case Nil
  then show ?case by (simp add: sock_contract_def)
next
  case (Cons ep eps)
  obtain s1 es1 where a: "(if tc_is_server conf then server_open l ep s else client_open ep s) = (s1, es1)"
    by fastforce
  obtain s2 es2 where b: "open_all conf l eps s1 = (s2, es2)" by fastforce
  have "sock_contract [] s (s1, es1)"
    using a by (auto simp: sock_contract_def server_open_def client_open_def Let_def split: if_splits)
  from sock_contract_seq [OF this, of s2 es2] show ?case
    using Cons.IH [of s1] open_all_calls [of conf l eps s1] by (simp add: a b)
qed

lemma do_open_socks: "do_open conf l now s = (b, r) \<Longrightarrow> sock_contract [] s r"
  using open_all_socks [of "s\<lparr>ts_closed := False\<rparr>" conf l "ts_endpoints s"]
  by (auto simp: do_open_def endpoint_resolved_def sock_contract_def Let_def split: if_splits)

lemma sock_frame:
  "ts_next_sock s' = ts_next_sock s \<Longrightarrow> ts_timer s' = ts_timer s \<Longrightarrow> ts_candidates s' = ts_candidates s \<Longrightarrow>
    filter opens (started es) = [] \<Longrightarrow> sock_contract gone s (s', es)"
proof -
  assume a: "ts_next_sock s' = ts_next_sock s" "ts_timer s' = ts_timer s" "ts_candidates s' = ts_candidates s"
    and no: "filter opens (started es) = []"
  have "op_socks ops = [] \<and> list_all (retry_within t) ops" if "filter opens ops = []" for ops t
    using that
  proof (induction ops)
    case (Cons op ops)
    then show ?case by (cases op) auto
  qed simp
  from this [OF no] have "op_socks (started es) = []" "list_all (retry_within (ts_timer s)) (started es)" by blast+
  moreover from this(1) have "distinct (op_socks (started es))" by (simp only: distinct.simps)
  ultimately show ?thesis unfolding sock_contract_def fst_conv snd_conv a by auto
qed

lemma auto_open_socks: "sock_contract [] s (auto_open conf l now s)"
proof -
  define s1 where "s1 = (if tc_min_retry conf = tc_max_retry conf then s\<lparr>ts_ramp := ucast (tc_min_retry conf)\<rparr> else s)"
  have s1: "ts_next_sock s1 = ts_next_sock s" "ts_timer s1 = ts_timer s" "ts_candidates s1 = ts_candidates s"
    by (simp_all add: s1_def)
  obtain b s2 es where d: "do_open conf l now s1 = (b, s2, es)" by (metis prod_cases3)
  show ?thesis using do_open_socks [OF d] s1
    unfolding auto_open_def Let_def s1_def [symmetric] d sock_contract_def by simp
qed

lemma retry_done_socks: "sock_contract [] s (retry_done conf l now err s)"
proof -
  obtain b s2 es where d: "do_open conf l now s = (b, s2, es)" by (metis prod_cases3)
  show ?thesis using do_open_socks [OF d] unfolding retry_done_def d sock_contract_def by simp
qed

lemma run_task_socks: "sock_contract [] s (run_task conf w t s)"
proof (cases t)
  case Open
  obtain b r where d: "do_open conf (w_listen_ok w) (w_now w) s = (b, r)"
    by (cases "do_open conf (w_listen_ok w) (w_now w) s")
  show ?thesis using do_open_socks [OF d] by (simp add: Open d)
next
  case Close
  then show ?thesis by (simp add: do_close_def sock_contract_def)
qed (auto simp: auto_open_socks auto_close_def write_execute_def Let_def intro!: sock_frame)

lemma write_buffer_frame:
  "ts_next_sock (fst (write_buffer conf sock s)) = ts_next_sock s \<and> ts_timer (fst (write_buffer conf sock s)) = ts_timer s
    \<and> ts_candidates (fst (write_buffer conf sock s)) = ts_candidates s
    \<and> filter opens (started (snd (write_buffer conf sock s))) = []"
  by (simp add: write_buffer_def Let_def)

lemma check_last_write_frame:
  "sock_contract gone s (check_last_write conf sock s)"
  using write_buffer_frame [of conf sock "s\<lparr>ts_pending_write := False\<rparr>"]
  by (cases "check_last_write conf sock s")
    (auto simp: check_last_write_def Let_def intro!: sock_frame split: if_splits prod.splits)

lemma throttle_check_frame: "sock_contract gone s (throttle_check_last_write conf sock td e s)"
  by (auto simp: throttle_check_last_write_def check_last_write_frame intro!: sock_frame)

lemma connect_completion_socks: "sock_contract gone s (connect_completion conf err sock s)"
proof -
  define s2 where "s2 = s\<lparr>ts_sock := Some sock, ts_connected := True, ts_timer := Suc (ts_timer s), ts_pending_read := True\<rparr>"
  obtain s3 es3 where b: "write_buffer conf sock s2 = (s3, es3)" by fastforce
  then have "ts_next_sock s3 = ts_next_sock s" "ts_timer s3 = Suc (ts_timer s)" "ts_candidates s3 = ts_candidates s"
    "filter opens (started es3) = []"
    using write_buffer_frame [of conf sock s2] by (simp_all add: s2_def)
  then have "sock_contract gone s2 (s3, es3)" by (intro sock_frame) (simp_all add: s2_def)
  then show ?thesis using b
    by (auto simp: connect_completion_def start_read_def Let_def s2_def sock_contract_def split: prod.splits)
qed

lemma connect_done_socks: "sock_contract [sock] s (connect_done conf err sock s)"
  unfolding connect_done_def by (rule sock_contract_cong [OF connect_completion_socks]) auto

lemma accept_done_socks: "sock_contract [sock] s (accept_done conf err sock s)"
  using connect_done_socks [of sock s conf err]
  by (simp add: accept_done_def connect_done_def sock_contract_def case_prod_beta)

lemma finish_op_socks: "sock_contract (op_sock op) s (finish_op conf w op s)"
proof (cases op)
  case (Write_one sock buf td)
  then show ?thesis
    by (auto simp: write_one_done_def Let_def intro!: sock_contract_cong [OF throttle_check_frame])
next
  case (Write_many sock n td)
  then show ?thesis
    by (auto simp: write_many_done_def Let_def intro!: sock_contract_cong [OF throttle_check_frame])
next
  case (Throttle_wait sock)
  then show ?thesis by (simp add: check_last_write_frame)
qed (auto simp: connect_done_socks accept_done_socks retry_done_socks resolve_done_def established_done_def
    throttle_read_handler_def start_read_def write_execute_def Let_def intro!: sock_frame split: prod.splits option.splits)

text \<open>In every run: an operation that connects a socket has it alone, and the socket is a candidate or closed; no
  wait is for a later timer than the current one.\<close>

definition held :: "tcp_sys \<Rightarrow> bool" where
  "held y \<longleftrightarrow> distinct (op_socks (sy_ops y))
    \<and> set (op_socks (sy_ops y)) \<subseteq> {..<ts_next_sock (sy_tcp y)} \<inter> (set (ts_candidates (sy_tcp y)) \<union> set (sy_closed y))
    \<and> list_all (retry_within (ts_timer (sy_tcp y))) (sy_ops y)"

lemma op_socks_remove1:
  assumes "distinct (op_socks ops)" "op \<in> set ops"
  shows "distinct (op_socks (remove1 op ops)) \<and> set (op_socks (remove1 op ops)) = set (op_socks ops) - set (op_sock op)"
proof -
  have "mset (op_socks ops) = mset (op_sock op @ op_socks (remove1 op ops))"
    using assms(2) by (induction ops) auto
  note m = mset_eq_setD [OF this] mset_eq_imp_distinct_iff [OF this]
  have "distinct (op_sock op @ op_socks (remove1 op ops))" using m(2) assms(1) by simp
  moreover have "set (op_socks ops) = set (op_sock op) \<union> set (op_socks (remove1 op ops))" using m(1) by simp
  ultimately show ?thesis unfolding distinct_append by blast
qed

lemma held_absorb:
  assumes "held y" "sock_contract gone (sy_tcp y) r" "sy_closed z = sy_closed y"
    and "distinct (op_socks (sy_ops z))" "set (op_socks (sy_ops z)) \<subseteq> set (op_socks (sy_ops y)) - set gone"
    and "set (sy_ops z) \<subseteq> set (sy_ops y)"
  shows "held (absorb r z)"
proof -
  let ?s = "sy_tcp y" and ?n = "op_socks (started (snd r))"
  have y: "set (op_socks (sy_ops y)) \<subseteq> {..<ts_next_sock ?s}"
    "set (op_socks (sy_ops y)) \<subseteq> set (ts_candidates ?s) \<union> set (sy_closed y)"
    "list_all (retry_within (ts_timer ?s)) (sy_ops y)"
    using assms(1) by (simp_all add: held_def)
  have r: "ts_next_sock ?s \<le> ts_next_sock (fst r)" "ts_timer ?s \<le> ts_timer (fst r)" "distinct ?n"
    "set ?n \<subseteq> {ts_next_sock ?s..<ts_next_sock (fst r)}" "set ?n \<subseteq> set (ts_candidates (fst r))"
    "list_all (retry_within (ts_timer (fst r))) (started (snd r))"
    "set (ts_candidates ?s) \<subseteq> set gone \<union> set (ts_candidates (fst r)) \<union> set (closes (called (snd r)))"
    using assms(2) by (simp_all add: sock_contract_def)
  have "set (op_socks (sy_ops z)) \<inter> set ?n = {}" using y(1) r(4) assms(5) by (force simp del: set_concat set_map)
  moreover have "set (op_socks (sy_ops z)) \<union> set ?n \<subseteq> {..<ts_next_sock (fst r)}"
    using y(1) r(1,4) assms(5) by (force simp del: set_concat set_map)
  moreover have "set (op_socks (sy_ops z)) \<union> set ?n
      \<subseteq> set (ts_candidates (fst r)) \<union> (set (sy_closed y) \<union> set (closes (called (snd r))))"
    using y(2) r(5,7) assms(5) by (blast del: subsetI intro!: subsetI)
  moreover have "list_all (retry_within (ts_timer (fst r))) (sy_ops z)"
    using y(3) assms(6) retry_within_mono [OF r(2)] by (auto simp: list_all_iff)
  ultimately show ?thesis
    using assms(3,4) r(3,6) unfolding held_def absorb_def by (simp del: set_concat)
qed

lemma tcp_reach_held: "tcp_reach conf ok now y \<Longrightarrow> held y"
proof (induction rule: tcp_reach.induct)
  case start
  show ?case by (simp add: held_def new_tcp_sys_def)
next
  case (step y e)
  show ?case
  proof (cases e)
    case (Run w)
    show ?thesis unfolding Run tcp_step.simps Let_def
      by (rule held_absorb [OF step.IH run_task_socks]) (use step.IH in \<open>simp_all add: held_def\<close>)
  next
    case (Complete w op)
    then have "op \<in> set (sy_ops y)" using step.hyps by simp
    moreover have "distinct (op_socks (sy_ops y))" using step.IH by (simp add: held_def)
    ultimately show ?thesis unfolding Complete tcp_step.simps
      by (intro held_absorb [OF step.IH finish_op_socks]) (use op_socks_remove1 [of "sy_ops y" op] set_remove1_subset [of op "sy_ops y"] in \<open>simp_all del: set_concat\<close>)
  next
    case (User u)
    have "sock_contract [] (sy_tcp y) (sy_tcp y, [user_effect conf u])" by (cases u) (auto intro: sock_frame)
    then show ?thesis unfolding User tcp_step.simps
      by (rule held_absorb [OF step.IH]) (use step.IH in \<open>simp_all add: held_def\<close>)
  qed
qed

section \<open>The destructor returns\<close>

lemma sum_remove1: "op \<in> set ops \<Longrightarrow> sum_list (map f (remove1 op ops)) + f op = (sum_list (map f ops) :: nat)"
  by (simp add: sum_list_map_remove1)

text \<open>An operation that ends whatever is done outside. One that \<open>Close\<close> has to abort ends when that has been done: a
  connection attempt when its socket was closed, an accept when its acceptor is gone (closing the socket it is for
  does not end it), the wait for a retry when the timer was cancelled or set anew. The other timers run out after
  their time, and the resolver answers. The peer's part: it has closed the connection, so writes end and reads
  bring an error.\<close>

fun ends_alone :: "tcp_sys \<Rightarrow> event \<Rightarrow> bool" where
  "ends_alone y (Run w) = True"
| "ends_alone y (User u) = False"
| "ends_alone y (Complete w (Connect c)) = (w_err w \<and> c \<in> set (sy_closed y))"
| "ends_alone y (Complete w (Accept c)) = (w_err w \<and> ts_acceptor (sy_tcp y) \<noteq> Some c)"
| "ends_alone y (Complete w (Retry g)) = (w_err w \<and> g \<noteq> ts_timer (sy_tcp y))"
| "ends_alone y (Complete w (Read_some c)) = w_err w"
| "ends_alone y (Complete w op) = True"

text \<open>What the handler of \<open>Close\<close> makes of the manager, and what the handlers after it leave alone.\<close>

fun aborted :: "tcp_sys \<Rightarrow> operation \<Rightarrow> bool" where
  "aborted y (Connect c) = (c \<in> set (sy_closed y))"
| "aborted y (Accept c) = (ts_acceptor (sy_tcp y) = None)"
| "aborted y (Retry g) = (g < ts_timer (sy_tcp y))"
| "aborted y op = True"

definition closing :: "tcp_sys \<Rightarrow> bool" where
  "closing y \<longleftrightarrow> ts_closed (sy_tcp y) \<and> Open \<notin> set (sy_posted y) \<and> ts_acceptor (sy_tcp y) = None
    \<and> list_all (aborted y) (sy_ops y)"

lemma closing_absorb:
  assumes "closing y" "winds_down c (sy_tcp y) r" "sy_closed z = sy_closed y"
    and "set (sy_posted z) \<subseteq> set (sy_posted y)" "set (sy_ops z) \<subseteq> set (sy_ops y)"
  shows "closing (absorb r z)"
proof -
  have y: "ts_acceptor (sy_tcp y) = None" "list_all (aborted y) (sy_ops z)"
    using assms(1,5) by (auto simp: closing_def list_all_iff)
  have r: "ts_timer (sy_tcp y) \<le> ts_timer (fst r)" "ts_acceptor (fst r) = None" "filter opens (started (snd r)) = []"
    using assms(2) y(1) by (simp_all add: winds_down_def)
  have "aborted (absorb r z) op" if "aborted y op" for op
    using that r(1,2) y(1) assms(3) by (cases op) (auto simp: absorb_def)
  moreover have "aborted (absorb r z) op" if "\<not> opens op" for op
    using that by (cases op) auto
  ultimately have "list_all (aborted (absorb r z)) (sy_ops z @ started (snd r))"
    using y(2) r(3) by (auto simp: list_all_iff filter_empty_conv)
  then show ?thesis using assms(1,2,4) r(2) by (auto simp: closing_def winds_down_def absorb_def)
qed

lemma closing_step:
  assumes "closing y" "enabled e y" "drains e"
  shows "closing (tcp_step conf e y)" "handlers_left (tcp_step conf e y) < handlers_left y"
proof -
  have "closing (tcp_step conf e y) \<and> handlers_left (tcp_step conf e y) < handlers_left y"
  proof (cases e)
    case (Run w)
    then obtain t ts where p: "sy_posted y = t # ts" using assms(2) by (cases "sy_posted y") auto
    then have down: "winds_down (task_cost t) (sy_tcp y) (run_task conf w t (sy_tcp y))"
      using assms(1) by (intro run_task_down) (auto simp: closing_def)
    then have "closing (tcp_step conf e y)"
      unfolding Run tcp_step.simps p list.sel Let_def by (intro closing_absorb [OF assms(1)]) (auto simp: p)
    then show ?thesis using down p
      by (auto simp: Run handlers_left_def winds_down_def effect_cost_def absorb_def Let_def)
  next
    case (Complete w op)
    then have op: "op \<in> set (sy_ops y)" "possible (sy_tcp y) w op" using assms(2) by simp_all
    then have down: "winds_down (op_cost op) (sy_tcp y) (finish_op conf w op (sy_tcp y))"
      using assms(1,3) Complete by (intro finish_op_down) (simp_all add: closing_def)
    then have "closing (tcp_step conf e y)"
      unfolding Complete tcp_step.simps
      by (intro closing_absorb [OF assms(1)]) (use set_remove1_subset [of op "sy_ops y"] in auto)
    then show ?thesis using down sum_remove1 [OF op(1), of op_cost]
      by (auto simp: Complete handlers_left_def winds_down_def effect_cost_def absorb_def)
  next
    case (User u)
    then show ?thesis using assms(3) by simp
  qed
  then show "closing (tcp_step conf e y)" "handlers_left (tcp_step conf e y) < handlers_left y" by simp_all
qed

lemma destructor_run_left:
  assumes "closing y" "destructor_run conf es y = Some z"
  shows "closing z \<and> length es + handlers_left z \<le> handlers_left y"
  using assms
proof (induction es arbitrary: y)
  case (Cons e es)
  then have e: "enabled e y" "drains e" "destructor_run conf es (tcp_step conf e y) = Some z"
    by (simp_all split: if_splits)
  show ?case using Cons.IH [OF closing_step(1) [OF Cons.prems(1) e(1,2)] e(3)]
      closing_step(2) [OF Cons.prems(1) e(1,2), of conf] by simp
qed simp

definition abort_world :: "bool \<Rightarrow> world" where
  "abort_world err = \<lparr>w_now = 0, w_listen_ok = (\<lambda>_. False), w_err = err, w_written = 0, w_read = [], w_resolved = [],
    w_elapsed = (\<lambda>_. 0), w_alive = False\<rparr>"

lemma drain_progress:
  assumes "closing y" "\<not> tracker_expired y"
  shows "\<exists>e. enabled e y \<and> drains e \<and> ends_alone y e"
proof (cases "sy_posted y")
  case Nil
  then obtain op where op: "op \<in> set (sy_ops y)" using assms(2) by (cases "sy_ops y") (auto simp: tracker_expired_def)
  then have "aborted y op" "ts_acceptor (sy_tcp y) = None" using assms(1) by (auto simp: closing_def list_all_iff)
  then show ?thesis using op
    by (intro exI [of _ "Complete (abort_world True) op"]) (cases op; auto simp: abort_world_def Let_def)
next
  case (Cons t ts)
  then show ?thesis by (intro exI [of _ "Run (abort_world True)"]) simp
qed

text \<open>The handler of \<open>Close\<close> brings the manager there, whatever it was doing, if no \<open>Open\<close> waits behind it.\<close>

lemma close_brings_down:
  assumes "held y" "sy_posted y = Close # ts" "Open \<notin> set ts"
  shows "closing (tcp_step conf (Run w) y)"
proof -
  have y: "set (op_socks (sy_ops y)) \<subseteq> set (ts_candidates (sy_tcp y)) \<union> set (sy_closed y)"
    "list_all (retry_within (ts_timer (sy_tcp y))) (sy_ops y)"
    using assms(1) by (simp_all add: held_def)
  have "aborted (tcp_step conf (Run w) y) op" if "op \<in> set (sy_ops y)" for op
  proof -
    have "set (op_sock op) \<subseteq> set (op_socks (sy_ops y))" "retry_within (ts_timer (sy_tcp y)) op"
      using that y(2) by (auto simp: list_all_iff)
    then show ?thesis using y(1) assms(2) by (cases op) (auto simp: absorb_def do_close_def)
  qed
  then show ?thesis using assms(2,3) by (auto simp: closing_def list_all_iff absorb_def do_close_def)
qed

text \<open>
  C31. The destructor of the TCP manager returns: when in any run the handler of \<open>Close\<close> has run, nobody uses the
  manager any more and its peers have closed their connections, the destructor runs at most \<open>handlers_left\<close>
  handlers, and as long as it waits there is one it can run whatever is done outside (\<open>ends_alone\<close>): one that
  is posted, one of an operation that \<open>Close\<close> has aborted (every connection attempt, accept and wait for a
  retry), one of another timer, of the resolver, or of a read or write, which the closed peer ends.
\<close>

theorem tcp_destructor_returns:
  assumes "tcp_reach conf anything now y" "sy_posted y = Close # ts" "Open \<notin> set ts"
    and "destructor_run conf es (tcp_step conf (Run w) y) = Some z"
  shows "length es \<le> handlers_left (tcp_step conf (Run w) y)
    \<and> (destructor_waits False z \<longrightarrow> (\<exists>e. enabled e z \<and> drains e \<and> ends_alone z e))"
  using destructor_run_left [OF close_brings_down [OF tcp_reach_held [OF assms(1)] assms(2,3)] assms(4)] drain_progress [of z]
  by (auto simp: destructor_waits_def)

text \<open>A listening server, closed: what runs is the handlers of \<open>AutoClose\<close>, of the accept, and of the \<open>AutoOpen\<close> this
  one posts. Not closed, it has nothing that ends by itself, and the destructor would wait for a client.\<close>

definition demo_server :: tcp_conf where
  "demo_server = demo_conf\<lparr>tc_is_server := True\<rparr>"

definition demo_listen :: "event list" where
  "demo_listen = [User User_open, Run demo_world, Complete demo_world Resolve, Run demo_world]"

lemmas drain_simps = new_tcp_sys_def new_tcp_def destructor_waits_def tracker_expired_def
  absorb_def do_close_def auto_close_def auto_open_def abort_world_def throttle_read_handler_def
  throttle_read.simps Let_def

theorem tcp_destructor_returns_witness:
  "\<exists>y z. run_events demo_server (demo_listen @ [User User_close]) (new_tcp_sys 0) = Some y
    \<and> destructor_run demo_server [Run (abort_world True), Complete (abort_world True) (Accept 0), Run (abort_world True)]
        (tcp_step demo_server (Run (abort_world True)) y) = Some z
    \<and> \<not> destructor_waits False z \<and> 3 \<le> handlers_left (tcp_step demo_server (Run (abort_world True)) y)"
proof -
  let ?es = "[Run (abort_world True), Complete (abort_world True) (Accept 0), Run (abort_world True)]"
  obtain y where y: "run_events demo_server (demo_listen @ [User User_close]) (new_tcp_sys 0) = Some y"
    and p: "sy_posted y = [Close]"
    and "\<exists>z. destructor_run demo_server ?es (tcp_step demo_server (Run (abort_world True)) y) = Some z
      \<and> \<not> destructor_waits False z"
    by (simp add: demo_server_def demo_listen_def run_simps drain_simps server_open_def accept_done_def)
  then obtain z where z: "destructor_run demo_server ?es (tcp_step demo_server (Run (abort_world True)) y) = Some z"
    "\<not> destructor_waits False z" by blast
  have "tcp_reach demo_server anything 0 y" by (rule run_events_reach [OF tcp_reach.start y])
  from tcp_destructor_returns [OF this p _ z(1)] show ?thesis using y z by auto
qed

theorem listening_needs_close:
  "case run_events demo_server demo_listen (new_tcp_sys 0) of
     None \<Rightarrow> False
   | Some y \<Rightarrow> destructor_waits False y \<and> (\<forall>e. \<not> (enabled e y \<and> ends_alone y e))"
proof -
  obtain y where y: "run_events demo_server demo_listen (new_tcp_sys 0) = Some y"
    and p: "sy_posted y = []" "sy_ops y = [Accept 0]" "ts_acceptor (sy_tcp y) = Some 0"
    by (simp add: demo_server_def demo_listen_def run_simps server_open_def)
  have "\<not> (enabled e y \<and> ends_alone y e)" for e
    using p by (cases e) auto
  then show ?thesis using y p by (simp add: destructor_waits_def tracker_expired_def)
qed

text \<open>
  That the peer has closed is needed too: \<open>AutoClose\<close> only shuts down sending, so when the peer stays open the read
  is left as the one thing that can happen, and the destructor waits for it, unless the \<open>io_context\<close> is stopped.
\<close>

definition closing_demo :: tcp_sys where
  "closing_demo = (new_tcp_sys 0)\<lparr>sy_tcp := (new_tcp 0)\<lparr>ts_connected := True, ts_closed := False,
    ts_sock := Some 0, ts_next_sock := 1, ts_pending_read := True\<rparr>, sy_posted := [Close], sy_ops := [Read_some 0]\<rparr>"

theorem destructor_waits_for_peer:
  "case destructor_run demo_conf [Run (abort_world True)] (tcp_step demo_conf (Run (abort_world True)) closing_demo) of
     None \<Rightarrow> False
   | Some z \<Rightarrow> sy_posted z = [] \<and> sy_ops z = [Read_some 0] \<and> destructor_waits False z \<and> \<not> destructor_waits True z"
  by (simp add: closing_demo_def drain_simps)

end
