(* ===== verification/TcpRetry.thy ===== *)
theory TcpRetry
  imports TcpRuns
begin

text \<open>
  The connection side of \<open>TCPSocketManager\<close>: the state callback tells every change once, a manager with
  automatic opening never stops trying, its retry period backs off exponentially, and throttled
  reads deliver everything.
\<close>

section \<open>State callbacks\<close>

fun alternates :: "bool \<Rightarrow> bool list \<Rightarrow> bool \<Rightarrow> bool" where
  "alternates b [] c = (b = c)"
| "alternates b (x # xs) c = (x \<noteq> b \<and> alternates x xs c)"

lemma alternates_append: "alternates b xs c \<Longrightarrow> alternates c ys d \<Longrightarrow> alternates b (xs @ ys) d"
  by (induction b xs c rule: alternates.induct) auto

definition tells :: "tcp \<Rightarrow> tcp \<times> effect list \<Rightarrow> bool" where
  "tells s r \<longleftrightarrow> alternates (ts_connected s) (states (called (snd r))) (ts_connected (fst r))"

lemma open_all_tells: "ts_connected (fst (open_all conf l eps s)) = ts_connected s
    \<and> called (snd (open_all conf l eps s)) = []"
proof (induction eps arbitrary: s)
  case Nil
  then show ?case by simp
next
  case (Cons ep eps)
  then show ?case by (auto simp: server_open_def client_open_def Let_def case_prod_beta)
qed

lemma do_open_tells: "tells s (snd (do_open conf l now s))"
  by (simp add: tells_def do_open_def endpoint_resolved_def Let_def open_all_tells)

lemma do_open_same: "ts_connected (fst (snd (do_open conf l now s))) = ts_connected s"
    "called (snd (snd (do_open conf l now s))) = []"
  by (simp_all add: do_open_def endpoint_resolved_def Let_def open_all_tells)

lemma auto_open_tells: "tells s (auto_open conf l now s)"
  by (simp add: tells_def auto_open_def Let_def case_prod_beta do_open_same)

lemma retry_done_tells: "tells s (retry_done conf l now err s)"
  by (simp add: tells_def retry_done_def case_prod_beta do_open_same)

lemma write_buffer_tells: "ts_connected (fst (write_buffer conf sock s)) = ts_connected s"
    "called (snd (write_buffer conf sock s)) = []"
  by (simp_all add: write_buffer_def Let_def)

lemma check_last_write_tells: "tells s (check_last_write conf sock s)"
  by (simp add: tells_def check_last_write_def Let_def write_buffer_tells)

lemma throttle_check_tells: "tells s (throttle_check_last_write conf sock td el s)"
  using check_last_write_tells [of s conf sock] by (simp add: throttle_check_last_write_def tells_def)

lemma tells_cong: "tells s' r \<Longrightarrow> ts_connected s' = ts_connected s \<Longrightarrow> tells s r"
  by (simp add: tells_def)

lemma connect_completion_tells: "tells s (connect_completion conf err sock s)"
  by (simp add: tells_def connect_completion_def start_read_def Let_def case_prod_beta write_buffer_tells)

lemma accept_done_tells: "tells s (accept_done conf err sock s)"
  using connect_completion_tells [of "s\<lparr>ts_candidates := removeAll sock (ts_candidates s)\<rparr>" conf err sock]
  by (simp add: tells_def accept_done_def case_prod_beta)

lemma run_task_tells: "tells s (run_task conf w t s)"
  by (cases t) (simp_all add: auto_open_tells do_open_tells,
      simp_all add: tells_def auto_close_def do_close_def write_execute_def Let_def)

lemma complete_tells: "tells s (finish_op conf w op s)"
proof (cases op)
  case (Write_one sock buf td)
  then show ?thesis unfolding Write_one finish_op.simps write_one_done_def Let_def
    by (intro tells_cong [OF throttle_check_tells]) simp
next
  case (Write_many sock k td)
  then show ?thesis unfolding Write_many finish_op.simps write_many_done_def Let_def
    by (intro tells_cong [OF throttle_check_tells]) simp
next
  case (Connect sock)
  then show ?thesis unfolding Connect finish_op.simps connect_done_def
    by (intro tells_cong [OF connect_completion_tells]) simp
qed (simp_all add: retry_done_tells accept_done_tells check_last_write_tells,
    simp_all add: tells_def resolve_done_def established_done_def throttle_read_handler_def start_read_def
      write_execute_def Let_def case_prod_beta o_def split: option.splits)

section \<open>Retries\<close>

fun is_read :: "operation \<Rightarrow> bool" where
  "is_read (Read_some _) = True"
| "is_read (Read_wait _ _) = True"
| "is_read _ = False"

text \<open>An \<open>AutoOpen\<close> that runs after the next \<open>AutoClose\<close>.\<close>

fun reopens :: "task list \<Rightarrow> bool" where
  "reopens [] = False"
| "reopens (t # ts) = (if t = AutoClose then AutoOpen \<in> set ts else reopens ts)"

text \<open>Something that leads to another attempt: a posted handler, a resolution, a candidate, the end of the
  read of the last connection, or the retry timer.\<close>

definition trying :: "tcp \<Rightarrow> task list \<Rightarrow> operation list \<Rightarrow> bool" where
  "trying s ts ops \<longleftrightarrow> AutoOpen \<in> set ts \<or> Open \<in> set ts \<or> Resolve \<in> set ops \<or> ts_candidates s \<noteq> []
    \<or> ts_pending_read s \<or> Retry (ts_timer s) \<in> set ops"

definition retry_inv :: "tcp_conf \<Rightarrow> tcp \<Rightarrow> task list \<Rightarrow> operation list \<Rightarrow> bool" where
  "retry_inv conf s ts ops \<longleftrightarrow>
    (tc_auto_reopen conf \<and> \<not> ts_closed s \<and> \<not> ts_connected s \<longrightarrow> trying s ts ops)
    \<and> (\<forall>c \<in> set (ts_candidates s). Connect c \<in> set ops \<or> Accept c \<in> set ops)
    \<and> (ts_pending_read s \<longrightarrow> (\<exists>op \<in> set ops. is_read op))
    \<and> (ts_connected s \<and> \<not> ts_pending_read s \<longrightarrow> reopens ts)"

lemma reopens_append: "reopens ts \<Longrightarrow> reopens (ts @ us)"
  by (induction ts) (auto split: if_splits)

lemma reopens_read_end: "reopens (ts @ [AutoClose, AutoOpen])"
  by (induction ts) auto

lemma retry_inv_mono:
  "retry_inv conf s ts ops \<Longrightarrow> retry_inv conf s (ts @ us) (ops @ ops')"
  unfolding retry_inv_def trying_def by (auto simp: reopens_append)

text \<open>A handler of the write side, and one that only adds to what is outstanding.\<close>

definition conn_frame :: "tcp \<Rightarrow> tcp \<Rightarrow> bool" where
  "conn_frame s s' \<longleftrightarrow> ts_closed s' = ts_closed s \<and> ts_connected s' = ts_connected s
    \<and> ts_candidates s' = ts_candidates s \<and> ts_pending_read s' = ts_pending_read s \<and> ts_timer s' = ts_timer s"

lemma retry_inv_frame:
  "conn_frame s s' \<Longrightarrow> retry_inv conf s ts ops \<Longrightarrow> retry_inv conf s' (ts @ us) (ops @ ops')"
  by (drule retry_inv_mono [of conf s ts ops us ops']) (simp add: conn_frame_def retry_inv_def trying_def)

text \<open>Removing an operation that leads nowhere.\<close>

fun leads :: "operation \<Rightarrow> bool" where
  "leads Resolve = True"
| "leads (Connect _) = True"
| "leads (Accept _) = True"
| "leads (Retry _) = True"
| "leads op = is_read op"

lemma retry_inv_remove:
  "\<not> leads op \<Longrightarrow> retry_inv conf s ts ops \<Longrightarrow> retry_inv conf s ts (remove1 op ops)"
proof -
  assume no: "\<not> leads op" and inv: "retry_inv conf s ts ops"
  have keep: "x \<in> set (remove1 op ops) \<longleftrightarrow> x \<in> set ops" if "leads x" for x
    using that no by (metis in_set_remove1)
  have "(\<exists>x \<in> set (remove1 op ops). is_read x) \<longleftrightarrow> (\<exists>x \<in> set ops. is_read x)"
    using keep by (metis leads.simps is_read.elims(2))
  then show ?thesis using inv by (simp add: retry_inv_def trying_def keep)
qed

lemma open_all_opens:
  "ts_closed (fst (open_all conf l eps s)) = ts_closed s
    \<and> ts_pending_read (fst (open_all conf l eps s)) = ts_pending_read s
    \<and> ts_timer (fst (open_all conf l eps s)) = ts_timer s
    \<and> (\<forall>c \<in> set (ts_candidates (fst (open_all conf l eps s))). c \<in> set (ts_candidates s)
        \<or> Connect c \<in> set (started (snd (open_all conf l eps s)))
        \<or> Accept c \<in> set (started (snd (open_all conf l eps s))))
    \<and> set (ts_candidates s) \<subseteq> set (ts_candidates (fst (open_all conf l eps s)))
    \<and> (eps \<noteq> [] \<longrightarrow> ts_candidates (fst (open_all conf l eps s)) \<noteq> []
        \<or> AutoOpen \<in> set (posted (snd (open_all conf l eps s))))"
proof (induction eps arbitrary: s)
  case Nil
  then show ?case by simp
next
  case (Cons ep eps)
  obtain s1 es1 where a: "(if tc_is_server conf then server_open l ep s else client_open ep s) = (s1, es1)"
    by fastforce
  obtain s2 es2 where b: "open_all conf l eps s1 = (s2, es2)" by fastforce
  have r: "open_all conf l (ep # eps) s = (s2, es1 @ es2)" by (simp add: a b)
  have step: "ts_closed s1 = ts_closed s" "ts_pending_read s1 = ts_pending_read s" "ts_timer s1 = ts_timer s"
    "set (ts_candidates s) \<subseteq> set (ts_candidates s1)"
    "\<forall>c \<in> set (ts_candidates s1). c \<in> set (ts_candidates s) \<or> Connect c \<in> set (started es1) \<or> Accept c \<in> set (started es1)"
    "ts_candidates s1 \<noteq> [] \<or> AutoOpen \<in> set (posted es1)"
    using a by (auto simp: server_open_def client_open_def Let_def split: if_splits)
  have IH: "ts_closed s2 = ts_closed s1" "ts_pending_read s2 = ts_pending_read s1" "ts_timer s2 = ts_timer s1"
    "\<forall>c \<in> set (ts_candidates s2). c \<in> set (ts_candidates s1) \<or> Connect c \<in> set (started es2) \<or> Accept c \<in> set (started es2)"
    "set (ts_candidates s1) \<subseteq> set (ts_candidates s2)"
    using Cons.IH [of s1] by (simp_all add: b)
  have "ts_candidates s1 \<noteq> [] \<Longrightarrow> ts_candidates s2 \<noteq> []" using IH(5) by auto
  then have "ts_candidates s2 \<noteq> [] \<or> AutoOpen \<in> set (posted (es1 @ es2))" using step(6) by auto
  moreover have "\<forall>c \<in> set (ts_candidates s2). c \<in> set (ts_candidates s)
    \<or> Connect c \<in> set (started (es1 @ es2)) \<or> Accept c \<in> set (started (es1 @ es2))"
    using step(5) IH(4) unfolding started_append set_append by blast
  moreover have "set (ts_candidates s) \<subseteq> set (ts_candidates s2)" using step(4) IH(5) by blast
  ultimately show ?case unfolding r fst_conv snd_conv using step(1-3) IH(1-3) by simp
qed

lemma do_open_cases:
  assumes "do_open conf l now s = (b, s', es)"
  obtains (blocked) "s' = s\<lparr>ts_closed := False\<rparr>" "es = []" "ts_connected s \<or> ts_candidates s \<noteq> [] \<or> ts_pending_read s"
  | (resolving) "s' = s\<lparr>ts_closed := False\<rparr>" "es = [Start Resolve]"
  | (opened) "(s', es) = open_all conf l (ts_endpoints s) (s\<lparr>ts_closed := False\<rparr>)" "ts_endpoints s \<noteq> []"
  using assms by (auto simp: do_open_def endpoint_resolved_def Let_def split: if_splits)

lemma do_open_opens:
  assumes "do_open conf l now s = (b, s', es)"
  shows "\<not> ts_closed s' \<and> ts_connected s' = ts_connected s \<and> ts_pending_read s' = ts_pending_read s
    \<and> ts_timer s' = ts_timer s
    \<and> (\<forall>c \<in> set (ts_candidates s'). c \<in> set (ts_candidates s) \<or> Connect c \<in> set (started es) \<or> Accept c \<in> set (started es))
    \<and> (\<not> ts_connected s \<longrightarrow> trying s' (posted es) (started es))"
  using assms
proof (cases rule: do_open_cases)
  case opened
  let ?r = "open_all conf l (ts_endpoints s) (s\<lparr>ts_closed := False\<rparr>)"
  have "s' = fst ?r" "es = snd ?r" using opened(1) by (metis fst_conv snd_conv)+
  then show ?thesis
    using open_all_opens [of conf l "ts_endpoints s" "s\<lparr>ts_closed := False\<rparr>"] opened(2)
      open_all_tells [of conf l "ts_endpoints s" "s\<lparr>ts_closed := False\<rparr>"]
    by (simp add: trying_def)
qed (auto simp: trying_def)

lemma trying_mono: "trying s ts ops \<Longrightarrow> set ts \<subseteq> set ts' \<Longrightarrow> set ops \<subseteq> set ops' \<Longrightarrow> trying s ts' ops'"
  by (auto simp: trying_def)

lemma retry_inv_do_open:
  assumes r: "do_open conf l now s = (b, s', es)"
    and cand: "\<forall>c \<in> set (ts_candidates s). Connect c \<in> set ops \<or> Accept c \<in> set ops"
    and read: "ts_pending_read s \<longrightarrow> (\<exists>op \<in> set ops. is_read op)"
    and re: "ts_connected s \<and> \<not> ts_pending_read s \<longrightarrow> reopens ts"
  shows "retry_inv conf s' (ts @ posted es) (ops @ started es)"
proof -
  note o = do_open_opens [OF r]
  have "\<not> ts_connected s' \<longrightarrow> trying s' (ts @ posted es) (ops @ started es)"
    using o trying_mono [of s' "posted es" "started es" "ts @ posted es" "ops @ started es"] by auto
  then show ?thesis using o cand read re unfolding retry_inv_def by (auto simp: reopens_append)
qed

lemma retry_inv_ramp: "retry_inv conf (s\<lparr>ts_ramp := x\<rparr>) ts ops = retry_inv conf s ts ops"
  by (simp add: retry_inv_def trying_def)

text \<open>The posted handlers.\<close>

lemma retry_inv_auto_open:
  assumes inv: "retry_inv conf s (AutoOpen # ts) ops" and r: "auto_open conf l now s = (s', es)"
  shows "retry_inv conf s' (ts @ posted es) (ops @ started es)"
proof (cases "\<not> tc_auto_reopen conf \<or> ts_closed s \<or> ts_connected s \<or> ts_candidates s \<noteq> [] \<or> ts_pending_read s")
  case True
  then have "s' = s" "es = []" using r by (auto simp: auto_open_def)
  then show ?thesis using inv True by (auto simp: retry_inv_def trying_def)
next
  case False
  define s1 where "s1 = (if tc_min_retry conf = tc_max_retry conf then s\<lparr>ts_ramp := ucast (tc_min_retry conf)\<rparr> else s)"
  have s1: "ts_candidates s1 = ts_candidates s" "ts_pending_read s1 = ts_pending_read s" "ts_connected s1 = ts_connected s"
    by (simp_all add: s1_def)
  show ?thesis
  proof (cases "ts_ramp s1 = 0")
    case True
    obtain b s2 es2 where o: "do_open conf l now s1 = (b, s2, es2)" by (cases "do_open conf l now s1")
    have "retry_inv conf s2 (ts @ posted es2) (ops @ started es2)"
      by (rule retry_inv_do_open [OF o]) (use inv s1 in \<open>auto simp: retry_inv_def\<close>)
    moreover have "es = es2" "s' = s2 \<or> s' = s2\<lparr>ts_ramp := ucast (tc_min_retry conf)\<rparr>"
      using r False True o by (auto simp: auto_open_def s1_def [symmetric] Let_def split: if_splits)
    ultimately show ?thesis by (auto simp: retry_inv_ramp)
  next
    case c: False
    have "s' = s1\<lparr>ts_timer := Suc (ts_timer s1)\<rparr>" "es = [Start (Retry (Suc (ts_timer s1)))]"
      using r False c by (auto simp: auto_open_def s1_def [symmetric] Let_def)
    then show ?thesis using inv False s1 by (auto simp: retry_inv_def trying_def)
  qed
qed

lemma write_execute_conn: "conn_frame s (fst (write_execute conf buf s))"
  by (simp add: conn_frame_def write_execute_def)

lemma retry_inv_task:
  assumes "retry_inv conf s (t # ts) ops"
  shows "retry_inv conf (fst (run_task conf w t s)) (ts @ posted (snd (run_task conf w t s)))
    (ops @ started (snd (run_task conf w t s)))"
proof (cases t)
  case AutoOpen
  then show ?thesis
    using retry_inv_auto_open [of conf s ts ops "w_listen_ok w" "w_now w" "fst (run_task conf w t s)" "snd (run_task conf w t s)"]
      assms by simp
next
  case AutoClose
  then show ?thesis using assms by (auto simp: auto_close_def retry_inv_def trying_def Let_def)
next
  case Open
  obtain b s' es where r: "do_open conf (w_listen_ok w) (w_now w) s = (b, s', es)"
    by (cases "do_open conf (w_listen_ok w) (w_now w) s")
  have "retry_inv conf s' (ts @ posted es) (ops @ started es)"
    by (rule retry_inv_do_open [OF r]) (use assms Open in \<open>auto simp: retry_inv_def\<close>)
  then show ?thesis using r Open by simp
next
  case Close
  then show ?thesis using assms by (auto simp: do_close_def retry_inv_def reopens_append)
next
  case (Write_execute buf)
  have "retry_inv conf s ts ops" using assms Write_execute by (auto simp: retry_inv_def trying_def)
  then show ?thesis unfolding Write_execute run_task.simps by (rule retry_inv_frame [OF write_execute_conn])
qed

text \<open>The completions of the write side.\<close>

lemma write_buffer_conn: "conn_frame s (fst (write_buffer conf sock s))"
  by (simp add: conn_frame_def write_buffer_def Let_def)

lemma check_last_write_conn: "conn_frame s (fst (check_last_write conf sock s))"
  using write_buffer_conn [of "s\<lparr>ts_pending_write := False\<rparr>" conf sock]
  by (auto simp: check_last_write_def conn_frame_def Let_def)

lemma throttle_check_conn: "conn_frame s s' \<Longrightarrow> conn_frame s (fst (throttle_check_last_write conf sock td el s'))"
  using check_last_write_conn [of s' conf sock] by (auto simp: throttle_check_last_write_def conn_frame_def)

lemma complete_conn: "\<not> leads op \<Longrightarrow> conn_frame s (fst (finish_op conf w op s))"
  by (cases op)
    (auto simp: check_last_write_conn write_one_done_def write_many_done_def Let_def intro!: throttle_check_conn,
     auto simp: conn_frame_def write_execute_def established_done_def)

text \<open>The completions of the connection side.\<close>

lemma retry_inv_reads:
  assumes "retry_inv conf s ts ops" "ts_pending_read s" "\<not> is_read op"
  shows "\<exists>x \<in> set (remove1 op ops). is_read x"
proof -
  obtain x where "x \<in> set ops" "is_read x" using assms by (auto simp: retry_inv_def)
  moreover have "x \<noteq> op" using calculation assms(3) by auto
  ultimately show ?thesis by (metis in_set_remove1)
qed

lemma retry_inv_connect:
  assumes inv: "retry_inv conf s ts ops" and op: "op = Connect sock \<or> op = Accept sock"
    and r: "connect_done conf err sock s = (s', es)"
  shows "retry_inv conf s' (ts @ posted es) (remove1 op ops @ started es)"
proof -
  let ?s = "s\<lparr>ts_candidates := removeAll sock (ts_candidates s)\<rparr>"
  have keep: "x \<in> set (remove1 op ops)" if "x \<in> set ops" "x \<noteq> op" for x
    using that by (simp add: in_set_remove1)
  have cand: "\<forall>c \<in> set (ts_candidates ?s). Connect c \<in> set (remove1 op ops) \<or> Accept c \<in> set (remove1 op ops)"
    using inv op keep by (auto simp: retry_inv_def)
  have read: "ts_pending_read s \<longrightarrow> (\<exists>op' \<in> set (remove1 op ops). is_read op')"
    using retry_inv_reads [OF inv] op by auto
  consider (fail) "err" "s' = ?s" "es = (if ts_candidates ?s = [] then [Post AutoOpen] else [])"
    | (redundant) "ts_connected s" "s' = ?s" "es = []"
    | (new) "ts_connected s'" "ts_pending_read s'" "ts_candidates s' = ts_candidates ?s"
        "Read_some sock \<in> set (started es)"
    using r write_buffer_conn [of "?s\<lparr>ts_sock := Some sock, ts_connected := True, ts_timer := Suc (ts_timer s),
        ts_pending_read := True\<rparr>" conf sock]
    by (auto simp: connect_done_def connect_completion_def start_read_def conn_frame_def Let_def split: if_splits prod.splits)
  then show ?thesis
  proof cases
    case fail
    then show ?thesis using inv cand read by (auto simp: retry_inv_def trying_def reopens_append)
  next
    case redundant
    then show ?thesis using inv cand read by (auto simp: retry_inv_def)
  next
    case new
    have "\<exists>op' \<in> set (remove1 op ops @ started es). is_read op'" using new(4) by force
    then show ?thesis using new cand by (auto simp: retry_inv_def)
  qed
qed

lemma retry_inv_read:
  assumes inv: "retry_inv conf s ts ops" and r: "throttle_read_handler conf el bs err s = (s', es)"
    and op: "is_read op"
  shows "retry_inv conf s' (ts @ posted es) (remove1 op ops @ started es)"
proof -
  have keep: "x \<in> set (remove1 op ops)" if "x \<in> set ops" "\<not> is_read x" for x
    using that op by (metis in_set_remove1)
  consider (waits) bs where "s' = s" "Read_wait bs err \<in> set (started es)" "posted es = []"
    | (ends) "s' = s\<lparr>ts_pending_read := False\<rparr>" "posted es = [AutoClose, AutoOpen]"
    | (again) "s' = s\<lparr>ts_pending_read := True\<rparr>" "Read_some (the (ts_sock s)) \<in> set (started es)" "posted es = []"
    using r by (auto simp: throttle_read_handler_def start_read_def Let_def split: prod.splits option.splits if_splits)
  moreover have cand: "\<forall>c \<in> set (ts_candidates s). Connect c \<in> set (remove1 op ops) \<or> Accept c \<in> set (remove1 op ops)"
    using inv keep unfolding retry_inv_def by fastforce
  ultimately show ?thesis
  proof cases
    case waits
    have "\<exists>op' \<in> set (remove1 op ops @ started es). is_read op'" using waits(2) by force
    moreover have "trying s ts ops \<Longrightarrow> trying s ts (remove1 op ops @ started es)"
      using keep by (auto simp: trying_def)
    ultimately show ?thesis using inv cand unfolding retry_inv_def waits by simp blast
  next
    case ends
    then show ?thesis using inv cand unfolding retry_inv_def by (simp add: trying_def reopens_read_end) blast
  next
    case again
    have "\<exists>op' \<in> set (remove1 op ops @ started es). is_read op'" using again(2) by force
    then show ?thesis using inv cand unfolding retry_inv_def again by (simp add: trying_def) blast
  qed
qed

text \<open>All completions.\<close>

lemma retry_inv_complete:
  assumes inv: "retry_inv conf s ts ops" and op: "op \<in> set ops" and ok: "possible s w op"
  shows "retry_inv conf (fst (finish_op conf w op s)) (ts @ posted (snd (finish_op conf w op s)))
    (remove1 op ops @ started (snd (finish_op conf w op s)))"
proof (cases "leads op")
  case False
  then show ?thesis by (intro retry_inv_frame [OF complete_conn] retry_inv_remove inv)
next
  case True
  have keep: "x \<in> set (remove1 op ops)" if "x \<in> set ops" "x \<noteq> op" for x
    using that by (simp add: in_set_remove1)
  show ?thesis
  proof (cases op)
    case Resolve
    have "\<exists>x \<in> set (remove1 op ops). is_read x" if "ts_pending_read s"
      using retry_inv_reads [OF inv that] Resolve by simp
    then show ?thesis using inv keep Resolve
      by (auto simp: resolve_done_def retry_inv_def trying_def reopens_append split: option.splits)
  next
    case (Connect sock)
    then show ?thesis
      using retry_inv_connect [OF inv, of op sock "w_err w" "fst (finish_op conf w op s)" "snd (finish_op conf w op s)"] by simp
  next
    case (Accept sock)
    obtain s' es where r: "connect_done conf (w_err w) sock s = (s', es)" by fastforce
    have "retry_inv conf s' (ts @ posted es) (remove1 op ops @ started es)"
      by (rule retry_inv_connect [OF inv _ r]) (simp add: Accept)
    moreover have "finish_op conf w op s = (s'\<lparr>ts_acceptor := None\<rparr>, es)"
      using r by (simp add: Accept accept_done_def connect_done_def)
    ultimately show ?thesis by (simp add: retry_inv_def trying_def)
  next
    case (Retry g)
    have read: "\<exists>x \<in> set (remove1 op ops). is_read x" if "ts_pending_read s"
      using retry_inv_reads [OF inv that] Retry by simp
    show ?thesis
    proof (cases "ts_closed s \<or> w_err w")
      case True
      then show ?thesis using inv ok keep read Retry
        by (auto simp: retry_done_def retry_inv_def trying_def)
    next
      case False
      obtain b s' es where r: "do_open conf (w_listen_ok w) (w_now w) s = (b, s', es)"
        by (cases "do_open conf (w_listen_ok w) (w_now w) s")
      have "retry_inv conf s' (ts @ posted es) (remove1 op ops @ started es)"
        by (rule retry_inv_do_open [OF r]) (use inv read keep Retry in \<open>auto simp: retry_inv_def\<close>)
      then show ?thesis using False r by (simp add: Retry retry_done_def retry_inv_ramp)
    qed
  next
    case (Read_some sock)
    then show ?thesis
      using retry_inv_read [OF inv, of "w_elapsed w" "w_read w" "w_err w" "fst (finish_op conf w op s)" "snd (finish_op conf w op s)" op]
      by simp
  next
    case (Read_wait bs err)
    then show ?thesis
      using retry_inv_read [OF inv, of "w_elapsed w" bs err "fst (finish_op conf w op s)" "snd (finish_op conf w op s)" op]
      by simp
  qed (use True in auto)
qed

section \<open>Properties\<close>

lemma unat_ucast_mod_16: "unat (ucast (x :: u32) :: u16) = unat x mod 65536"
  by (simp add: unsigned_ucast_eq take_bit_eq_mod)

lemma next_ramp_small:
  assumes "unat r \<le> 32767" "unat max_retry \<le> 32767"
  shows "unat (next_ramp max_retry r) = min (unat max_retry) (2 * unat r)"
proof -
  have "unat (r * 2) = 2 * unat r" using assms by (simp add: unat_word_ariths)
  moreover have "unat (ucast (r * 2) :: u32) = unat (r * 2)"
    using assms(1) \<open>unat (r * 2) = 2 * unat r\<close> by (simp add: unsigned_ucast_eq take_bit_nat_eq_self)
  ultimately have "(ucast (r * 2) :: u32) > max_retry \<longleftrightarrow> 2 * unat r > unat max_retry"
    by (simp add: word_less_nat_alt)
  then show ?thesis using assms \<open>unat (r * 2) = 2 * unat r\<close>
    by (simp add: next_ramp_def Let_def unat_ucast_mod_16 min_def)
qed

lemma byterate_zero: "drop_bit 3 (x :: u64) = 0 \<longleftrightarrow> x < 8"
proof -
  have "unat (drop_bit 3 x) = unat x div 8" by (simp add: drop_bit_eq_div unat_div)
  moreover have "drop_bit 3 x = 0 \<longleftrightarrow> unat (drop_bit 3 x) = 0" by (simp only: unat_eq_zero)
  ultimately show ?thesis by (simp add: word_less_nat_alt div_eq_0_iff)
qed

lemma tcp_reach_states: "tcp_reach conf ok now y \<Longrightarrow> alternates False (sy_states y) (ts_connected (sy_tcp y))"
proof (induction rule: tcp_reach.induct)
  case start
  show ?case by (simp add: new_tcp_sys_def new_tcp_def)
next
  case (step y e)
  show ?case
  proof (cases e)
    case (Run w)
    then show ?thesis
      using alternates_append [OF step.IH] run_task_tells [of "sy_tcp y" conf w "hd (sy_posted y)"]
      by (simp add: absorb_def tells_def Let_def)
  next
    case (Complete w op)
    then show ?thesis using alternates_append [OF step.IH] complete_tells [of "sy_tcp y" conf w op]
      by (simp add: absorb_def tells_def)
  next
    case (User u)
    then show ?thesis using step.IH by (cases u) (simp_all add: absorb_def)
  qed
qed

lemma tcp_reach_retry_inv: "tcp_reach conf ok now y \<Longrightarrow> retry_inv conf (sy_tcp y) (sy_posted y) (sy_ops y)"
proof (induction rule: tcp_reach.induct)
  case start
  show ?case by (simp add: retry_inv_def new_tcp_sys_def new_tcp_def)
next
  case (step y e)
  show ?case
  proof (cases e)
    case (Run w)
    then obtain t ts where "sy_posted y = t # ts" using step.hyps by (cases "sy_posted y") auto
    then show ?thesis using retry_inv_task [of conf "sy_tcp y" t ts "sy_ops y" w] step.IH Run
      by (simp add: absorb_def Let_def)
  next
    case (Complete w op)
    then show ?thesis using retry_inv_complete [OF step.IH, of op w] step.hyps by (simp add: absorb_def)
  next
    case (User u)
    then show ?thesis using retry_inv_mono [OF step.IH] by (simp add: absorb_def)
  qed
qed

text \<open>
  The state callback tells every change of the connection once: in every run the states called back
  alternate, beginning with a connection, and the last one is the current state.
\<close>

theorem tcp_state_callbacks:
  assumes "tcp_reach conf anything now y"
  shows "alternates False (sy_states y) (ts_connected (sy_tcp y))"
  by (rule tcp_reach_states [OF assms])

theorem tcp_state_callbacks_witness:
  "\<exists>y. tcp_reach demo_conf anything 0 y \<and> sy_states y = [True] \<and> alternates False [True] (ts_connected (sy_tcp y))"
proof -
  obtain y where run: "run_events demo_conf demo_connect (new_tcp_sys 0) = Some y" and p: "sy_states y = [True]"
    by (simp add: run_simps)
  have r: "tcp_reach demo_conf anything 0 y" by (rule run_events_reach [OF tcp_reach.start run])
  show ?thesis using tcp_state_callbacks [OF r] r p by auto
qed

text \<open>
  C9. A manager with automatic opening never gives up: in every run, while it is neither connected nor
  manually closed, an attempt is posted or under way: a resolution, a connect or accept of a
  candidate, the end of the last connection's read, or the retry timer, armed and not cancelled.
\<close>

theorem tcp_keeps_trying:
  assumes "tcp_reach conf anything now y" "tc_auto_reopen conf"
    "\<not> ts_connected (sy_tcp y)" "\<not> ts_closed (sy_tcp y)"
  shows "AutoOpen \<in> set (sy_posted y) \<or> Open \<in> set (sy_posted y) \<or> Resolve \<in> set (sy_ops y)
    \<or> Retry (ts_timer (sy_tcp y)) \<in> set (sy_ops y)
    \<or> list_ex (\<lambda>c. Connect c \<in> set (sy_ops y) \<or> Accept c \<in> set (sy_ops y)) (ts_candidates (sy_tcp y))
    \<or> ts_pending_read (sy_tcp y) \<and> list_ex is_read (sy_ops y)"
proof -
  have inv: "retry_inv conf (sy_tcp y) (sy_posted y) (sy_ops y)" by (rule tcp_reach_retry_inv [OF assms(1)])
  have "ts_candidates (sy_tcp y) \<noteq> [] \<Longrightarrow>
    list_ex (\<lambda>c. Connect c \<in> set (sy_ops y) \<or> Accept c \<in> set (sy_ops y)) (ts_candidates (sy_tcp y))"
    using inv by (cases "ts_candidates (sy_tcp y)") (auto simp: retry_inv_def)
  then show ?thesis using inv assms(2-4) unfolding retry_inv_def trying_def list_ex_iff by blast
qed

text \<open>The connection is refused, and the manager waits for its retry timer.\<close>

definition demo_refused :: "event list" where
  "demo_refused = [User User_open, Run demo_world, Complete demo_world Resolve, Run demo_world,
    Complete (demo_world\<lparr>w_err := True\<rparr>) (Connect 0), Run demo_world]"

theorem tcp_keeps_trying_witness:
  "\<exists>y. tcp_reach demo_conf anything 0 y \<and> sy_posted y = [] \<and> Retry (ts_timer (sy_tcp y)) \<in> set (sy_ops y)"
proof -
  obtain y where run: "run_events demo_conf demo_refused (new_tcp_sys 0) = Some y"
    and p: "sy_posted y = []" "sy_ops y = [Retry 1]" "ts_candidates (sy_tcp y) = []" "\<not> ts_pending_read (sy_tcp y)"
      "\<not> ts_connected (sy_tcp y)" "\<not> ts_closed (sy_tcp y)"
    by (simp add: run_simps demo_refused_def)
  have r: "tcp_reach demo_conf anything 0 y" by (rule run_events_reach [OF tcp_reach.start run])
  have "tc_auto_reopen demo_conf" by (simp add: demo_conf_def)
  from tcp_keeps_trying [OF r this p(5,6)] have "Retry (ts_timer (sy_tcp y)) \<in> set (sy_ops y)"
    by (simp add: p)
  then show ?thesis using r p(1) by blast
qed

text \<open>
  Exponential backoff: with periods from 1 ms up to a maximum of at most 32767 ms, the period after
  \<open>k\<close> attempts is the minimum doubled \<open>k\<close> times, capped at the maximum.
\<close>

theorem tcp_backoff:
  fixes min_retry max_retry :: u32
  assumes "unat min_retry \<le> unat max_retry" "unat max_retry \<le> 32767"
  shows "unat ((next_ramp max_retry ^^ k) (ucast min_retry)) = min (unat max_retry) (unat min_retry * 2 ^ k)"
proof (induction k)
  case 0
  then show ?case using assms by (simp add: unat_ucast_mod_16 min_def)
next
  case (Suc k)
  let ?r = "(next_ramp max_retry ^^ k) (ucast min_retry)"
  have "unat ?r \<le> 32767" using Suc assms by simp
  then have "unat (next_ramp max_retry ?r) = min (unat max_retry) (2 * unat ?r)"
    using next_ramp_small [of ?r max_retry] assms by simp
  then show ?case using Suc by (simp add: min_def)
qed

theorem tcp_backoff_witness: "unat ((next_ramp 30000 ^^ 10) (ucast (500 :: u32))) = 30000"
  using tcp_backoff [of 500 30000 10] by simp

text \<open>
  Above 32767 ms the 16-bit period wraps: with retry times from 500 to 40000 ms it reaches 40000 ms and
  then falls back to 14464, and a maximum of 65536 ms becomes no wait at all.
\<close>

theorem tcp_backoff_wraps:
  "(next_ramp 40000 ^^ 7) 500 = 40000 \<and> (next_ramp 40000 ^^ 8) 500 = 14464 \<and> (ucast (65536 :: u32) :: u16) = 0"
  by code_simp

text \<open>
  Without automatic opening, \<open>Open\<close> on a new manager only resolves the endpoint: the handler of the
  resolution relies on \<open>AutoOpen\<close>, which is disabled, so afterwards nothing is posted or outstanding and no
  connection was tried.
\<close>

theorem tcp_manual_open_stalls:
  assumes "\<not> tc_auto_reopen conf"
    and "run_events conf [User User_open, Run w1, Complete w2 Resolve, Run w3] (new_tcp_sys now) = Some y"
  shows "sy_posted y = [] \<and> sy_ops y = [] \<and> \<not> ts_closed (sy_tcp y) \<and> \<not> ts_connected (sy_tcp y)
    \<and> ts_next_sock (sy_tcp y) = 0"
  using assms
  by (auto simp: absorb_def Let_def new_tcp_sys_def new_tcp_def auto_open_def do_open_def endpoint_resolved_def
      resolve_done_def split: if_splits option.splits)

theorem tcp_manual_open_stalls_witness:
  "\<exists>y. run_events (demo_conf\<lparr>tc_auto_reopen := False\<rparr>) [User User_open, Run demo_world,
      Complete demo_world Resolve, Run demo_world] (new_tcp_sys 0) = Some y
    \<and> sy_posted y = [] \<and> sy_ops y = [] \<and> ts_endpoints (sy_tcp y) \<noteq> []"
proof -
  obtain y where run: "run_events (demo_conf\<lparr>tc_auto_reopen := False\<rparr>) [User User_open, Run demo_world,
      Complete demo_world Resolve, Run demo_world] (new_tcp_sys 0) = Some y"
    and e: "ts_endpoints (sy_tcp y) \<noteq> []"
    by (simp add: run_simps)
  have "\<not> tc_auto_reopen (demo_conf\<lparr>tc_auto_reopen := False\<rparr>)" by simp
  from tcp_manual_open_stalls [OF this run] show ?thesis using run e by blast
qed

text \<open>
  Throttled reading delivers everything: the chunks given to the callback, then the bytes kept for
  the next round, are the bytes read, in order; no chunk is empty, and with a throttle and a chunk size
  none is longer than the chunk size.
\<close>

theorem tcp_throttled_read:
  assumes "throttle_read conf elapsed bs = (chunks, w)"
  shows "concat chunks @ (case w of None \<Rightarrow> [] | Some leftover \<Rightarrow> leftover) = bs
    \<and> list_all (\<lambda>c. c \<noteq> [] \<and> (tc_chunksize conf = 0 \<or> tc_bitrate conf < 8
        \<or> length c \<le> unat (tc_chunksize conf))) chunks"
  using assms
proof (induction conf elapsed bs arbitrary: chunks w rule: throttle_read.induct)
  case (1 conf elapsed bs)
  let ?td = "check_throttle conf (length bs)"
  show ?case
  proof (cases "bs = []")
    case True
    then show ?thesis using 1 by (simp add: throttle_read.simps)
  next
    case bs: False
    have active: "td_active ?td \<longleftrightarrow> \<not> tc_bitrate conf < 8"
      by (simp add: check_throttle_def Let_def byterate_zero)
    show ?thesis
    proof (cases "td_active ?td")
      case False
      then show ?thesis using 1(2) bs active by (subst (asm) throttle_read.simps) auto
    next
      case True
      let ?n = "td_transfer_size ?td"
      have n: "0 < ?n" "?n \<le> length bs" using transfer_size_bounds [OF True] bs by auto
      have small: "tc_chunksize conf = 0 \<or> ?n \<le> unat (tc_chunksize conf)"
        using True by (auto simp: check_throttle_def Let_def split: if_splits)
      obtain cs w' where r: "throttle_read conf elapsed (drop ?n bs) = (cs, w')" by fastforce
      show ?thesis
      proof (cases "must_wait ?td (elapsed (length bs))")
        case wait: True
        then have "chunks = [take ?n bs]" "w = Some (drop ?n bs)"
          using 1(2) bs True by (simp_all add: throttle_read.simps [of conf elapsed bs] Let_def)
        then show ?thesis using bs n small by auto
      next
        case go: False
        then have c: "chunks = take ?n bs # cs" "w = w'"
          using 1(2) bs True r by (simp_all add: throttle_read.simps [of conf elapsed bs] Let_def)
        show ?thesis
          using 1(1) [OF bs refl True refl refl go r] bs n small unfolding c
          by (auto simp: append_assoc)
      qed
    qed
  qed
qed

theorem tcp_throttled_read_witness:
  "concat [[1, 2], [3]] @ [] = ([1, 2, 3] :: u8 list) \<and>
    throttle_read (demo_conf\<lparr>tc_bitrate := 800, tc_chunksize := 2\<rparr>) (\<lambda>_. 10 ^ 9) [1, 2, 3] = ([[1, 2], [3]], None)"
proof -
  have r: "throttle_read (demo_conf\<lparr>tc_bitrate := 800, tc_chunksize := 2\<rparr>) (\<lambda>_. 10 ^ 9) [1, 2, 3] = ([[1, 2], [3]], None)"
    by (simp add: throttle_read.simps demo_conf_def check_throttle_def must_wait_def Let_def)
  from tcp_throttled_read [OF r] r show ?thesis by simp
qed

end
