(* ===== verification/TcpConnected.thy ===== *)
theory TcpConnected
  imports TcpRetry
begin

text \<open>
  \<open>TCPSocketManager::Connected\<close>: a thread that asks for the state. In the strand the flag is read at once; from
  elsewhere the question is posted to the strand, and handlers of the \<open>io_context\<close> are run until it was answered.
\<close>

section \<open>The question\<close>

text \<open>The posted question behind \<open>n\<close> handlers of the strand, or its answer.\<close>

datatype question = Posted_behind nat | Executed bool

definition connected_call :: "bool \<Rightarrow> tcp_sys \<Rightarrow> question" where
  "connected_call in_strand y =
    (if in_strand then Executed (ts_connected (sy_tcp y)) else Posted_behind (length (sy_posted y)))"

text \<open>A turn of the loop runs the question itself, when nothing of the strand is before it, or another handler.
  Other threads go on calling the manager.\<close>

fun poll_one :: "tcp_conf \<Rightarrow> event option \<Rightarrow> question \<times> tcp_sys \<Rightarrow> (question \<times> tcp_sys) option" where
  "poll_one conf e (Executed b, y) = None"
| "poll_one conf None (Posted_behind n, y) = (if n = 0 then Some (Executed (ts_connected (sy_tcp y)), y) else None)"
| "poll_one conf (Some (Run w)) (Posted_behind n, y) =
    (case n of 0 \<Rightarrow> None
     | Suc m \<Rightarrow> if enabled (Run w) y then Some (Posted_behind m, tcp_step conf (Run w) y) else None)"
| "poll_one conf (Some e) (Posted_behind n, y) =
    (if enabled e y then Some (Posted_behind n, tcp_step conf e y) else None)"

fun polls :: "tcp_conf \<Rightarrow> event option list \<Rightarrow> question \<times> tcp_sys \<Rightarrow> (question \<times> tcp_sys) option" where
  "polls conf [] c = Some c"
| "polls conf (e # es) c = (case poll_one conf e c of None \<Rightarrow> None | Some c' \<Rightarrow> polls conf es c')"

fun runs_strand :: "event option \<Rightarrow> bool" where
  "runs_strand (Some (Run w)) = True"
| "runs_strand _ = False"

section \<open>The answer\<close>

text \<open>The flag is the state last called back.\<close>

lemma alternates_last: "alternates b xs c \<Longrightarrow> c = last (b # xs)"
  by (induction b xs c rule: alternates.induct) auto

lemma absorb_posted: "length (sy_posted y) \<le> length (sy_posted (absorb r y))"
  by (simp add: absorb_def)

lemma step_posted:
  "length (sy_posted y) \<le> length (sy_posted (tcp_step conf e y)) + of_bool (runs_strand (Some e))"
  by (cases e) (auto simp: Let_def absorb_def)

text \<open>What every turn keeps: with \<open>k\<close> handlers of the strand to go before the question.\<close>

fun asked_inv :: "tcp_conf \<Rightarrow> u64 \<Rightarrow> nat \<Rightarrow> question \<times> tcp_sys \<Rightarrow> bool" where
  "asked_inv conf now k (Posted_behind n, y) \<longleftrightarrow> tcp_reach conf anything now y \<and> n = k \<and> n \<le> length (sy_posted y)"
| "asked_inv conf now k (Executed b, y) \<longleftrightarrow> tcp_reach conf anything now y \<and> b = ts_connected (sy_tcp y) \<and> k = 0"

lemma poll_one_inv:
  assumes "asked_inv conf now k (q, y)" "poll_one conf e (q, y) = Some c"
  shows "asked_inv conf now (if runs_strand e then k - 1 else k) c" "runs_strand e \<Longrightarrow> 0 < k"
proof -
  obtain n where q: "q = Posted_behind n" using assms(2) by (cases q) auto
  have "asked_inv conf now (if runs_strand e then k - 1 else k) c \<and> (runs_strand e \<longrightarrow> 0 < k)"
  proof (cases e)
    case None
    then show ?thesis using assms q by (auto split: if_splits)
  next
    case (Some ev)
    have st: "tcp_reach conf anything now (tcp_step conf ev y)" if "enabled ev y"
      using assms(1) q that by (auto intro: tcp_reach.step)
    then show ?thesis using assms q Some step_posted [of y conf ev]
      by (cases ev) (auto split: if_splits nat.splits)
  qed
  then show "asked_inv conf now (if runs_strand e then k - 1 else k) c" "runs_strand e \<Longrightarrow> 0 < k" by auto
qed

lemma polls_inv:
  "asked_inv conf now k c \<Longrightarrow> polls conf es c = Some d
    \<Longrightarrow> \<exists>m. k = m + length (filter runs_strand es) \<and> asked_inv conf now m d"
proof (induction es arbitrary: k c)
  case Nil
  then show ?case by auto
next
  case (Cons e es)
  obtain q y where c: "c = (q, y)" by fastforce
  obtain c' where c': "poll_one conf e c = Some c'" using Cons.prems(2) by (auto split: option.splits)
  have i: "asked_inv conf now (if runs_strand e then k - 1 else k) c'" "runs_strand e \<Longrightarrow> 0 < k"
    using poll_one_inv [of conf now k q y e c'] Cons.prems(1) c' c by auto
  obtain m where "(if runs_strand e then k - 1 else k) = m + length (filter runs_strand es)" "asked_inv conf now m d"
    using Cons.IH [OF i(1)] Cons.prems(2) c' by auto
  then show ?case using i(2) by (intro exI [of _ m]) (auto split: if_splits)
qed

text \<open>
  \<open>Connected\<close> answers with the truth: however the handlers and the calls of other threads interleave, a thread
  outside the strand can always run another handler; the question is answered when the handlers that were
  posted before it have run, no more of the strand being needed; and the answer is the state last told to the
  state callback.
\<close>

theorem tcp_connected_answers:
  assumes "tcp_reach conf anything now y" "polls conf es (connected_call in_strand y, y) = Some (q, z)"
  shows "case q of
      Executed b \<Rightarrow> b = last (False # sy_states z)
        \<and> length (filter runs_strand es) = (if in_strand then 0 else length (sy_posted y))
    | Posted_behind n \<Rightarrow> n + length (filter runs_strand es) = length (sy_posted y)
        \<and> (\<exists>e d. poll_one conf e (q, z) = Some d \<and> runs_strand e = (0 < n))"
proof -
  define k where "k = (if in_strand then 0 else length (sy_posted y))"
  have "asked_inv conf now k (connected_call in_strand y, y)" using assms(1) by (simp add: connected_call_def k_def)
  then obtain m where m: "k = m + length (filter runs_strand es)" "asked_inv conf now m (q, z)"
    using polls_inv assms(2) by blast
  show ?thesis
  proof (cases q)
    case (Executed b)
    then have "alternates False (sy_states z) b" using m(2) tcp_reach_states [of conf anything now z] by simp
    then show ?thesis using alternates_last m Executed by (auto simp: k_def)
  next
    case (Posted_behind n)
    have "\<not> in_strand" using assms(2) Posted_behind by (cases es) (auto simp: connected_call_def)
    moreover have "\<exists>e d. poll_one conf e (q, z) = Some d \<and> runs_strand e = (0 < n)"
    proof (cases n)
      case 0
      then show ?thesis using Posted_behind by (intro exI [of _ None]) simp
    next
      case (Suc j)
      obtain w :: world where True by simp
      have "sy_posted z \<noteq> []" using m(2) Posted_behind Suc by auto
      then show ?thesis using Posted_behind Suc by (intro exI [of _ "Some (Run w)"]) simp
    qed
    ultimately show ?thesis using m Posted_behind by (auto simp: k_def)
  qed
qed

text \<open>A thread asks while a candidate is connecting and a message waits on the strand; the connection is made before
  the question is answered.\<close>

definition asking_demo :: "event list" where
  "asking_demo = take 5 demo_connect"

definition polling_demo :: "event option list" where
  "polling_demo = [Some (Complete demo_world (Connect 0)), Some (Run demo_world), None]"

theorem tcp_connected_answers_witness:
  "\<exists>y q z. run_events demo_conf asking_demo (new_tcp_sys 0) = Some y
    \<and> polls demo_conf polling_demo (connected_call False y, y) = Some (q, z)
    \<and> q = Executed (last (False # sy_states z)) \<and> sy_states y = [] \<and> sy_states z = [True]"
proof -
  obtain y where run: "run_events demo_conf asking_demo (new_tcp_sys 0) = Some y" and "sy_states y = []"
    and "\<exists>q z. polls demo_conf polling_demo (connected_call False y, y) = Some (q, z) \<and> sy_states z = [True]
      \<and> (\<exists>b. q = Executed b)"
    by (simp add: run_simps asking_demo_def polling_demo_def connected_call_def) blast
  then obtain b z where z: "polls demo_conf polling_demo (connected_call False y, y) = Some (Executed b, z)"
      "sy_states z = [True]" "sy_states y = []" by blast
  have "tcp_reach demo_conf anything 0 y" by (rule run_events_reach [OF tcp_reach.start run])
  from tcp_connected_answers [OF this z(1)] have "b = last (False # sy_states z)" by simp
  then show ?thesis using run z by blast
qed

end
