(* ===== verification/SerialPorts.thy ===== *)
theory SerialPorts
  imports WriteQueue Framing
begin

text \<open>
  The serial side of ProtoConv, \<open>src/src/ProtoConv/SerialPortsManager.h\<close> and \<open>.cpp\<close>: the port settings
  from the command line, the read loop of a port, and the write queue that spreads messages over the
  ports that are idle. The operating system's part (opening a port, setting an option) is a parameter.
\<close>

section \<open>Settings\<close>

datatype flow_control = FlowNone | FlowSoftware | FlowHardware
datatype parity = ParityNone | ParityOdd | ParityEven
datatype stop_bits = StopOne | StopOnePointFive | StopTwo

record serial_settings =
  st_baud_rate :: u32
  st_char_size :: u32
  st_flow_control :: flow_control
  st_parity :: parity
  st_stop_bits :: stop_bits

definition default_settings :: serial_settings where
  "default_settings = \<lparr>st_baud_rate = 38400, st_char_size = 8, st_flow_control = FlowNone,
    st_parity = ParityNone, st_stop_bits = StopOne\<rparr>"

datatype serial_error =
    WrongBaudRates | WrongCharSizes | BadCharSize | WrongFlowControls | WrongParities | WrongStopBits
  | OpenFailed string | FlowControlFailed

fun flow_control_of :: "string \<Rightarrow> flow_control" where
  "flow_control_of s = (if s = ''HARDWARE'' then FlowHardware else if s = ''SOFTWARE'' then FlowSoftware else FlowNone)"

fun parity_of :: "string \<Rightarrow> parity" where
  "parity_of s = (if s = ''EVEN'' then ParityEven else if s = ''ODD'' then ParityOdd else ParityNone)"

fun stop_bits_of :: "string \<Rightarrow> stop_bits" where
  "stop_bits_of s = (if s = ''ONEPOINTFIVE'' then StopOnePointFive else if s = ''TWO'' then StopTwo else StopOne)"

text \<open>The setters walk over the values and the settings together. The constructor of asio's
  \<open>character_size\<close> may reject a value.\<close>

definition set_baud_rate :: "nat list \<Rightarrow> serial_settings list \<Rightarrow> serial_error + serial_settings list" where
  "set_baud_rate brs ps =
    (if length brs \<noteq> length ps then Inl WrongBaudRates
     else Inr (map2 (\<lambda>br p. p\<lparr>st_baud_rate := of_nat br\<rparr>) brs ps))"

definition set_char_size ::
  "(u32 \<Rightarrow> bool) \<Rightarrow> nat list \<Rightarrow> serial_settings list \<Rightarrow> serial_error + serial_settings list" where
  "set_char_size char_size_ok css ps =
    (if length css \<noteq> length ps then Inl WrongCharSizes
     else if \<not> list_all (\<lambda>cs. char_size_ok (of_nat cs)) css then Inl BadCharSize
     else Inr (map2 (\<lambda>cs p. p\<lparr>st_char_size := of_nat cs\<rparr>) css ps))"

definition set_flow_control :: "string list \<Rightarrow> serial_settings list \<Rightarrow> serial_error + serial_settings list" where
  "set_flow_control fcs ps =
    (if length fcs \<noteq> length ps then Inl WrongFlowControls
     else Inr (map2 (\<lambda>fc p. p\<lparr>st_flow_control := flow_control_of fc\<rparr>) fcs ps))"

definition set_parity :: "string list \<Rightarrow> serial_settings list \<Rightarrow> serial_error + serial_settings list" where
  "set_parity xs ps =
    (if length xs \<noteq> length ps then Inl WrongParities
     else Inr (map2 (\<lambda>x p. p\<lparr>st_parity := parity_of x\<rparr>) xs ps))"

definition set_stop_bits :: "string list \<Rightarrow> serial_settings list \<Rightarrow> serial_error + serial_settings list" where
  "set_stop_bits sbs ps =
    (if length sbs \<noteq> length ps then Inl WrongStopBits
     else Inr (map2 (\<lambda>sb p. p\<lparr>st_stop_bits := stop_bits_of sb\<rparr>) sbs ps))"

text \<open>The flow control part of \<open>Start\<close>: the calls made on the port, in order. \<open>set_ok\<close> and \<open>native_ok\<close>
  say which calls succeed; a failure of hardware flow control falls back to the native call.\<close>

datatype port_call = SetFlowControl flow_control | NativeHardware bool

definition start_flow_control ::
  "(flow_control \<Rightarrow> bool) \<Rightarrow> (bool \<Rightarrow> bool) \<Rightarrow> flow_control \<Rightarrow> port_call list \<times> (serial_error + unit)" where
  "start_flow_control set_ok native_ok fc =
    (let hard_flow = (fc = FlowHardware)
     in if \<not> set_ok fc then
          (if \<not> hard_flow then ([SetFlowControl fc], Inl FlowControlFailed)
           else if \<not> set_ok FlowNone then ([SetFlowControl fc, SetFlowControl FlowNone], Inl FlowControlFailed)
           else ([SetFlowControl fc, SetFlowControl FlowNone, NativeHardware True],
             if native_ok True then Inr () else Inl FlowControlFailed))
        else if \<not> hard_flow then
          ([SetFlowControl fc, NativeHardware False], if native_ok False then Inr () else Inl FlowControlFailed)
        else ([SetFlowControl fc], Inr ()))"

section \<open>Reading\<close>

text \<open>The completion of a read: the frames handed over and the buffer kept when another read is started,
  \<open>None\<close> when an error ended the loop.\<close>

definition serial_read ::
  "(u8 list \<Rightarrow> frame) \<Rightarrow> bool \<Rightarrow> u8 list \<Rightarrow> u8 list \<Rightarrow> (frame list \<times> u8 list) option" where
  "serial_read check err data buf = (if err then None else rcv_stream check (buf @ data))"

section \<open>Writing\<close>

record serial_mgr =
  sm_idle :: "nat list"
  sm_write_q :: "u8 list list"
  sm_max_write_q :: nat

definition new_serial_mgr :: "nat \<Rightarrow> nat \<Rightarrow> serial_mgr" where
  "new_serial_mgr num_ports max_write_q =
    \<lparr>sm_idle = [0..<num_ports], sm_write_q = [], sm_max_write_q = max_write_q\<rparr>"

text \<open>The writes an operation starts, as port and message.\<close>

definition serial_write :: "u8 list \<Rightarrow> serial_mgr \<Rightarrow> (nat \<times> u8 list) list \<times> serial_mgr" where
  "serial_write msg s =
    (case sm_idle s of
       idx # rest \<Rightarrow> ([(idx, msg)], s\<lparr>sm_idle := rest\<rparr>)
     | [] \<Rightarrow> ([], s\<lparr>sm_write_q := enqueue (sm_max_write_q s) msg (sm_write_q s)\<rparr>))"

definition serial_written :: "nat \<Rightarrow> serial_mgr \<Rightarrow> (nat \<times> u8 list) list \<times> serial_mgr" where
  "serial_written idx s =
    (case sm_write_q s of
       msg # rest \<Rightarrow> ([(idx, msg)], s\<lparr>sm_write_q := rest\<rparr>)
     | [] \<Rightarrow> ([], s\<lparr>sm_idle := sm_idle s @ [idx]\<rparr>))"

section \<open>Runs\<close>

text \<open>The manager with the writes outstanding on its ports, and what was started and accepted so far.\<close>

record serial_sys =
  ss_mgr :: serial_mgr
  ss_busy :: "(nat \<times> u8 list) list"
  ss_started :: "(nat \<times> u8 list) list"
  ss_accepted :: "u8 list list"

inductive serial_reach :: "nat \<Rightarrow> nat \<Rightarrow> serial_sys \<Rightarrow> bool" for num mq where
  start: "serial_reach num mq
    \<lparr>ss_mgr = new_serial_mgr num mq, ss_busy = [], ss_started = [], ss_accepted = []\<rparr>"
| accept: "serial_reach num mq s \<Longrightarrow> serial_write msg (ss_mgr s) = (ws, m) \<Longrightarrow>
    serial_reach num mq \<lparr>ss_mgr = m, ss_busy = ss_busy s @ ws, ss_started = ss_started s @ ws,
      ss_accepted = ss_accepted s @ [msg]\<rparr>"
| written: "serial_reach num mq s \<Longrightarrow> w \<in> set (ss_busy s) \<Longrightarrow> serial_written (fst w) (ss_mgr s) = (ws, m) \<Longrightarrow>
    serial_reach num mq (s\<lparr>ss_mgr := m, ss_busy := remove1 w (ss_busy s) @ ws, ss_started := ss_started s @ ws\<rparr>)"

definition serial_inv :: "nat \<Rightarrow> nat \<Rightarrow> serial_sys \<Rightarrow> bool" where
  "serial_inv num mq s \<longleftrightarrow> sm_max_write_q (ss_mgr s) = mq
    \<and> mset (sm_idle (ss_mgr s)) + image_mset fst (mset (ss_busy s)) = mset [0..<num]
    \<and> (sm_write_q (ss_mgr s) \<noteq> [] \<longrightarrow> sm_idle (ss_mgr s) = [])
    \<and> length (sm_write_q (ss_mgr s)) \<le> mq
    \<and> subseq (map snd (ss_started s) @ sm_write_q (ss_mgr s)) (ss_accepted s)
    \<and> (length (ss_accepted s) \<le> mq \<longrightarrow> map snd (ss_started s) @ sm_write_q (ss_mgr s) = ss_accepted s)"

lemma serial_write_inv:
  assumes "serial_inv num mq s" "serial_write msg (ss_mgr s) = (ws, m)"
  shows "serial_inv num mq \<lparr>ss_mgr = m, ss_busy = ss_busy s @ ws, ss_started = ss_started s @ ws,
    ss_accepted = ss_accepted s @ [msg]\<rparr>"
proof (cases "sm_idle (ss_mgr s)")
  case (Cons idx rest)
  then have q: "sm_write_q (ss_mgr s) = []" using assms(1) by (auto simp: serial_inv_def)
  moreover have "subseq (map snd (ss_started s) @ [msg]) (ss_accepted s @ [msg])"
    using assms(1) q by (intro list_emb_append_mono) (auto simp: serial_inv_def)
  ultimately show ?thesis
    using assms Cons by (auto simp: serial_inv_def serial_write_def)
next
  case Nil
  let ?q = "sm_write_q (ss_mgr s)"
  have m: "ws = []" "m = (ss_mgr s)\<lparr>sm_write_q := enqueue mq msg ?q\<rparr>"
    using assms Nil by (auto simp: serial_inv_def serial_write_def)
  have "subseq (map snd (ss_started s) @ ?q) (ss_accepted s)"
    using assms(1) by (simp add: serial_inv_def)
  then have "length (map snd (ss_started s) @ ?q) \<le> length (ss_accepted s)" by (rule list_emb_length)
  then have "length ?q \<le> length (ss_accepted s)" by simp
  then have "length (ss_accepted s @ [msg]) \<le> mq \<Longrightarrow> enqueue mq msg ?q = ?q @ [msg]"
    by (simp add: enqueue_def Let_def)
  then show ?thesis
    using assms(1) Nil wq.push_bound [of ?q mq msg] wq.push_history [of "map snd (ss_started s)" ?q "ss_accepted s" mq msg]
    by (auto simp: serial_inv_def m)
qed

lemma serial_written_inv:
  assumes "serial_inv num mq s" "w \<in> set (ss_busy s)" "serial_written (fst w) (ss_mgr s) = (ws, m)"
  shows "serial_inv num mq
    (s\<lparr>ss_mgr := m, ss_busy := remove1 w (ss_busy s) @ ws, ss_started := ss_started s @ ws\<rparr>)"
proof -
  have "image_mset fst (mset (ss_busy s)) = add_mset (fst w) (image_mset fst (mset (remove1 w (ss_busy s))))"
    using assms(2) by (metis image_mset_add_mset insert_DiffM mset_remove1 set_mset_mset)
  then show ?thesis
    using assms(1,3) by (cases "sm_write_q (ss_mgr s)") (auto simp: serial_inv_def serial_written_def)
qed

lemma serial_reach_inv: "serial_reach num mq s \<Longrightarrow> serial_inv num mq s"
proof (induction rule: serial_reach.induct)
  case start
  show ?case by (simp add: serial_inv_def new_serial_mgr_def)
qed (blast intro: serial_write_inv serial_written_inv)+

section \<open>Properties\<close>

text \<open>
  C34. The serial writer shares its ports out fairly: in every reachable state each port is either idle
  or has exactly one write outstanding, messages wait only while no port is idle, at most
  \<open>MaxWriteQSz\<close> of them, and the messages started so far followed by the waiting ones are the accepted ones
  in order, without those dropped at overflow (none, as long as no more than \<open>MaxWriteQSz\<close> were accepted).
\<close>

theorem serial_ports_fifo:
  assumes "serial_reach num mq s"
  shows "mset (sm_idle (ss_mgr s) @ map fst (ss_busy s)) = mset [0..<num]
    \<and> (sm_write_q (ss_mgr s) = [] \<or> sm_idle (ss_mgr s) = []) \<and> length (sm_write_q (ss_mgr s)) \<le> mq
    \<and> subseq (map snd (ss_started s) @ sm_write_q (ss_mgr s)) (ss_accepted s)
    \<and> (length (ss_accepted s) \<le> mq \<longrightarrow> map snd (ss_started s) @ sm_write_q (ss_mgr s) = ss_accepted s)"
  using serial_reach_inv [OF assms] by (auto simp: serial_inv_def)

theorem serial_ports_fifo_witness:
  "length (sm_write_q (ss_mgr \<lparr>ss_mgr = (new_serial_mgr 1 1)\<lparr>sm_idle := []\<rparr>, ss_busy = [(0, [5])],
    ss_started = [(0, [5])], ss_accepted = [[5]]\<rparr>)) \<le> 1"
proof -
  have "serial_reach 1 1 \<lparr>ss_mgr = (new_serial_mgr 1 1)\<lparr>sm_idle := []\<rparr>, ss_busy = [] @ [(0, [5])],
    ss_started = [] @ [(0, [5])], ss_accepted = [] @ [[5]]\<rparr>"
    using serial_reach.accept [OF serial_reach.start, of "[5]" 1 1 "[(0, [5])]" "(new_serial_mgr 1 1)\<lparr>sm_idle := []\<rparr>"]
    by (simp add: serial_write_def new_serial_mgr_def)
  from serial_ports_fifo [OF this] show ?thesis by simp
qed

end
