(* ===== verification/SerialDrain.thy ===== *)
theory SerialDrain
  imports SerialPorts
begin

text \<open>
  The handlers of \<open>src/src/ProtoConv/SerialPortsManager.cpp\<close> on their strands, one for the write queue and
  one for each port, with the reads and writes in flight; \<open>Start\<close>, \<open>Stop\<close> and the destructor, which runs
  handlers until none is left. They refine the runs of \<open>SerialPorts\<close>, where a write is one step.
\<close>

section \<open>Strands and operations\<close>

text \<open>What is posted to the strand of a port: by \<open>Start\<close>, by the private \<open>Write\<close>, by \<open>Stop\<close>.\<close>

datatype port_task = Begin_read | Begin_write "u8 list" | Stop_port

text \<open>Operations in flight. The flag of a read says that the port was already closed when it started.\<close>

datatype port_op = Reading nat bool | Writing nat "u8 list"

record serial_os =
  so_sys :: serial_sys
  so_posted :: "u8 list list"
  so_strands :: "(nat \<times> port_task) list"
  so_ops :: "port_op list"
  so_closed :: "nat list"

definition new_serial_os :: "nat \<Rightarrow> nat \<Rightarrow> serial_os" where
  "new_serial_os num mq = \<lparr>so_sys = \<lparr>ss_mgr = new_serial_mgr num mq, ss_busy = [], ss_started = [], ss_accepted = []\<rparr>,
    so_posted = [], so_strands = [], so_ops = [], so_closed = []\<rparr>"

datatype serial_event =
    Call_start nat | Call_write "u8 list" | Call_stop nat
  | Run_queue
  | Run_port nat port_task
  | Read_done nat bool bool
  | Write_done nat "u8 list"

text \<open>The two parts of the manager that change its queues: taking a message, and the end of a write. The
  writes they start are posted to the strands of their ports.\<close>

definition start_writes :: "(nat \<times> u8 list) list \<Rightarrow> (nat \<times> port_task) list" where
  "start_writes ws = map (\<lambda>(idx, msg). (idx, Begin_write msg)) ws"

definition queue_message :: "u8 list \<Rightarrow> serial_os \<Rightarrow> serial_os" where
  "queue_message msg y =
    (let s = so_sys y; (ws, m) = serial_write msg (ss_mgr s)
     in y\<lparr>so_sys := \<lparr>ss_mgr = m, ss_busy = ss_busy s @ ws, ss_started = ss_started s @ ws,
            ss_accepted = ss_accepted s @ [msg]\<rparr>, so_strands := so_strands y @ start_writes ws\<rparr>)"

definition end_write :: "nat \<Rightarrow> u8 list \<Rightarrow> serial_os \<Rightarrow> serial_os" where
  "end_write idx msg y =
    (let s = so_sys y; (ws, m) = serial_written idx (ss_mgr s)
     in y\<lparr>so_sys := s\<lparr>ss_mgr := m, ss_busy := remove1 (idx, msg) (ss_busy s) @ ws, ss_started := ss_started s @ ws\<rparr>,
          so_strands := so_strands y @ start_writes ws\<rparr>)"

fun run_port_task :: "nat \<Rightarrow> port_task \<Rightarrow> serial_os \<Rightarrow> serial_os" where
  "run_port_task idx Begin_read y = y\<lparr>so_ops := so_ops y @ [Reading idx (idx \<in> set (so_closed y))]\<rparr>"
| "run_port_task idx (Begin_write msg) y = y\<lparr>so_ops := so_ops y @ [Writing idx msg]\<rparr>"
| "run_port_task idx Stop_port y = y\<lparr>so_closed := idx # so_closed y\<rparr>"

text \<open>A strand runs its handlers in the order they were posted. A read started on a closed port fails.\<close>

fun serial_enabled :: "serial_event \<Rightarrow> serial_os \<Rightarrow> bool" where
  "serial_enabled Run_queue y = (so_posted y \<noteq> [])"
| "serial_enabled (Run_port idx t) y = (find (\<lambda>p. fst p = idx) (so_strands y) = Some (idx, t))"
| "serial_enabled (Read_done idx late err) y = (Reading idx late \<in> set (so_ops y) \<and> (late \<longrightarrow> err))"
| "serial_enabled (Write_done idx msg) y = (Writing idx msg \<in> set (so_ops y))"
| "serial_enabled _ y = True"

fun serial_step :: "serial_event \<Rightarrow> serial_os \<Rightarrow> serial_os" where
  "serial_step (Call_start num) y = y\<lparr>so_strands := so_strands y @ map (\<lambda>i. (i, Begin_read)) [0..<num]\<rparr>"
| "serial_step (Call_stop num) y = y\<lparr>so_strands := so_strands y @ map (\<lambda>i. (i, Stop_port)) [0..<num]\<rparr>"
| "serial_step (Call_write msg) y = y\<lparr>so_posted := so_posted y @ [msg]\<rparr>"
| "serial_step Run_queue y = queue_message (hd (so_posted y)) (y\<lparr>so_posted := tl (so_posted y)\<rparr>)"
| "serial_step (Run_port idx t) y = run_port_task idx t (y\<lparr>so_strands := remove1 (idx, t) (so_strands y)\<rparr>)"
| "serial_step (Read_done idx late err) y =
    y\<lparr>so_ops := remove1 (Reading idx late) (so_ops y) @ (if err then [] else [Reading idx (idx \<in> set (so_closed y))])\<rparr>"
| "serial_step (Write_done idx msg) y = end_write idx msg (y\<lparr>so_ops := remove1 (Writing idx msg) (so_ops y)\<rparr>)"

fun calls_on :: "nat \<Rightarrow> serial_event \<Rightarrow> bool" where
  "calls_on num (Call_start n) = (n = num)"
| "calls_on num (Call_stop n) = (n = num)"
| "calls_on num _ = True"

inductive serial_os_reach :: "nat \<Rightarrow> nat \<Rightarrow> serial_os \<Rightarrow> bool" for num mq where
  new: "serial_os_reach num mq (new_serial_os num mq)"
| step: "serial_os_reach num mq y \<Longrightarrow> serial_enabled e y \<Longrightarrow> calls_on num e \<Longrightarrow> serial_os_reach num mq (serial_step e y)"

section \<open>The writes in flight\<close>

fun task_write :: "nat \<times> port_task \<Rightarrow> (nat \<times> u8 list) list" where
  "task_write (idx, Begin_write msg) = [(idx, msg)]"
| "task_write _ = []"

fun op_write :: "port_op \<Rightarrow> (nat \<times> u8 list) list" where
  "op_write (Writing idx msg) = [(idx, msg)]"
| "op_write (Reading _ _) = []"

fun op_port :: "port_op \<Rightarrow> nat" where
  "op_port (Reading idx late) = idx"
| "op_port (Writing idx msg) = idx"

definition in_flight :: "serial_os \<Rightarrow> (nat \<times> u8 list) multiset" where
  "in_flight y = mset (concat (map task_write (so_strands y))) + mset (concat (map op_write (so_ops y)))"

text \<open>Strands and operations together hold exactly the writes that are one step of \<open>SerialPorts\<close>, and what
  is on a strand or in flight belongs to a port that exists.\<close>

definition os_inv :: "nat \<Rightarrow> nat \<Rightarrow> serial_os \<Rightarrow> bool" where
  "os_inv num mq y \<longleftrightarrow> serial_reach num mq (so_sys y) \<and> mset (ss_busy (so_sys y)) = in_flight y
    \<and> list_all (\<lambda>p. fst p < num) (so_strands y) \<and> list_all (\<lambda>op. op_port op < num) (so_ops y)"

lemma mset_concat_remove1:
  "x \<in> set xs \<Longrightarrow> mset (concat (map f (remove1 x xs))) + mset (f x) = mset (concat (map f xs))"
  by (induction xs) auto

lemma concat_start_writes [simp]: "concat (map task_write (start_writes ws)) = ws"
  by (induction ws) (auto simp: start_writes_def)

lemma list_all_remove1: "list_all P xs \<Longrightarrow> list_all P (remove1 x xs)"
  by (auto simp: list_all_iff dest: notin_set_remove1)

lemma found_in: "find (\<lambda>p. fst p = idx) xs = Some p \<Longrightarrow> p \<in> set xs"
  by (metis find_Some_iff nth_mem)

lemma busy_port:
  assumes "serial_reach num mq s" "w \<in> set (ss_busy s)"
  shows "fst w < num"
proof -
  have "image_mset fst (mset (ss_busy s)) \<subseteq># mset [0..<num]"
    using serial_reach_inv [OF assms(1)] unfolding serial_inv_def by (metis mset_subset_eq_add_right)
  then have "fst ` set (ss_busy s) \<subseteq> set [0..<num]" by (metis set_image_mset set_mset_mono set_mset_mset)
  then show ?thesis using assms(2) by auto
qed

lemma start_writes_ports:
  assumes "serial_reach num mq \<lparr>ss_mgr = m, ss_busy = bs @ ws, ss_started = st, ss_accepted = ac\<rparr>"
  shows "list_all (\<lambda>p. fst p < num) (start_writes ws)"
  using busy_port [OF assms] by (fastforce simp: start_writes_def list_all_iff)

lemma queue_message_inv:
  assumes "os_inv num mq y"
  shows "os_inv num mq (queue_message msg y)"
proof -
  let ?s = "so_sys y"
  obtain ws m where w: "serial_write msg (ss_mgr ?s) = (ws, m)" by fastforce
  have r: "serial_reach num mq \<lparr>ss_mgr = m, ss_busy = ss_busy ?s @ ws, ss_started = ss_started ?s @ ws,
      ss_accepted = ss_accepted ?s @ [msg]\<rparr>"
    using assms w by (intro serial_reach.accept) (simp_all add: os_inv_def)
  then show ?thesis using assms start_writes_ports [OF r]
    by (simp add: os_inv_def queue_message_def w in_flight_def Let_def)
qed

lemma end_write_inv:
  assumes "os_inv num mq y" "Writing idx msg \<in> set (so_ops y)"
  shows "os_inv num mq (end_write idx msg (y\<lparr>so_ops := remove1 (Writing idx msg) (so_ops y)\<rparr>))"
proof -
  let ?s = "so_sys y"
  obtain ws m where w: "serial_written idx (ss_mgr ?s) = (ws, m)" by fastforce
  have fl: "mset (concat (map op_write (remove1 (Writing idx msg) (so_ops y)))) + {#(idx, msg)#}
      = mset (concat (map op_write (so_ops y)))"
    using mset_concat_remove1 [OF assms(2), of op_write] by simp
  have b: "mset (ss_busy ?s) = in_flight y" using assms(1) by (simp add: os_inv_def)
  then have "(idx, msg) \<in># mset (ss_busy ?s)" by (simp add: in_flight_def flip: fl)
  then have busy: "(idx, msg) \<in> set (ss_busy ?s)" by simp
  then have r: "serial_reach num mq (?s\<lparr>ss_mgr := m, ss_busy := remove1 (idx, msg) (ss_busy ?s) @ ws,
      ss_started := ss_started ?s @ ws\<rparr>)"
    using assms(1) w by (intro serial_reach.written) (simp_all add: os_inv_def)
  then have "list_all (\<lambda>p. fst p < num) (start_writes ws)"
    using start_writes_ports [of num mq m "remove1 (idx, msg) (ss_busy ?s)" ws] by (cases ?s) simp
  moreover have "mset (remove1 (idx, msg) (ss_busy ?s)) + {#(idx, msg)#} = mset (ss_busy ?s)"
    using busy by simp
  then have "mset (remove1 (idx, msg) (ss_busy ?s)) + {#(idx, msg)#}
      = mset (concat (map task_write (so_strands y))) + mset (concat (map op_write (so_ops y)))"
    unfolding b by (simp add: in_flight_def)
  then have "mset (remove1 (idx, msg) (ss_busy ?s)) = mset (concat (map task_write (so_strands y)))
      + mset (concat (map op_write (remove1 (Writing idx msg) (so_ops y))))"
    unfolding fl [symmetric] by simp
  ultimately show ?thesis using assms(1) r
    by (simp add: os_inv_def end_write_def w in_flight_def Let_def list_all_remove1)
qed

lemma run_port_inv:
  assumes "os_inv num mq y" "(idx, t) \<in> set (so_strands y)"
  shows "os_inv num mq (run_port_task idx t (y\<lparr>so_strands := remove1 (idx, t) (so_strands y)\<rparr>))"
proof -
  have "idx < num" using assms by (auto simp: os_inv_def list_all_iff)
  then show ?thesis using assms(1) mset_concat_remove1 [OF assms(2), of task_write]
    by (cases t) (auto simp: os_inv_def in_flight_def list_all_remove1 simp flip: add.assoc)
qed

lemma read_done_inv:
  assumes "os_inv num mq y" "Reading idx late \<in> set (so_ops y)"
  shows "os_inv num mq (serial_step (Read_done idx late err) y)"
proof -
  have "idx < num" using assms by (auto simp: os_inv_def list_all_iff)
  then show ?thesis using assms(1) mset_concat_remove1 [OF assms(2), of op_write]
    by (auto simp: os_inv_def in_flight_def list_all_remove1)
qed

lemma serial_step_inv:
  assumes "os_inv num mq y" "serial_enabled e y" "calls_on num e"
  shows "os_inv num mq (serial_step e y)"
proof (cases e)
  case Run_queue
  have "os_inv num mq (y\<lparr>so_posted := tl (so_posted y)\<rparr>)" using assms(1) by (simp add: os_inv_def in_flight_def)
  then show ?thesis using Run_queue queue_message_inv by simp
next
  case (Run_port idx t)
  then show ?thesis using assms run_port_inv found_in by fastforce
next
  case (Read_done idx late err)
  then show ?thesis using assms read_done_inv by auto
next
  case (Write_done idx msg)
  then show ?thesis using assms end_write_inv by simp
next
  case (Call_start n)
  have "concat (map (task_write \<circ> (\<lambda>i. (i, Begin_read))) [0..<num]) = []" by simp
  then show ?thesis using Call_start assms by (auto simp: os_inv_def in_flight_def list_all_iff)
next
  case (Call_stop n)
  have "concat (map (task_write \<circ> (\<lambda>i. (i, Stop_port))) [0..<num]) = []" by simp
  then show ?thesis using Call_stop assms by (auto simp: os_inv_def in_flight_def list_all_iff)
next
  case (Call_write msg)
  then show ?thesis using assms(1) by (simp add: os_inv_def in_flight_def)
qed

text \<open>So the detailed runs refine those of \<open>SerialPorts\<close>.\<close>

lemma serial_os_inv: "serial_os_reach num mq y \<Longrightarrow> os_inv num mq y"
proof (induction rule: serial_os_reach.induct)
  case new
  show ?case by (simp add: os_inv_def new_serial_os_def in_flight_def serial_reach.start)
qed (rule serial_step_inv)

section \<open>The destructor\<close>

definition serial_expired :: "serial_os \<Rightarrow> bool" where
  "serial_expired y \<longleftrightarrow> so_posted y = [] \<and> so_strands y = [] \<and> so_ops y = []"

definition serial_waits :: "bool \<Rightarrow> serial_os \<Rightarrow> bool" where
  "serial_waits ioc_stopped y \<longleftrightarrow> \<not> serial_expired y \<and> \<not> ioc_stopped"

fun is_call :: "serial_event \<Rightarrow> bool" where
  "is_call (Call_start _) = True"
| "is_call (Call_write _) = True"
| "is_call (Call_stop _) = True"
| "is_call _ = False"

fun serial_destructor_run :: "serial_event list \<Rightarrow> serial_os \<Rightarrow> serial_os option" where
  "serial_destructor_run [] y = Some y"
| "serial_destructor_run (e # es) y =
    (if serial_waits False y \<and> serial_enabled e y \<and> \<not> is_call e then serial_destructor_run es (serial_step e y) else None)"

text \<open>The handlers that are left to run, a message in the queue and one still to be queued included. Reads
  that bring data are not counted: each starts the next.\<close>

fun port_task_cost :: "port_task \<Rightarrow> nat" where
  "port_task_cost Stop_port = 1"
| "port_task_cost _ = 2"

definition serial_work :: "serial_os \<Rightarrow> nat" where
  "serial_work y = 3 * length (so_posted y) + 2 * length (sm_write_q (ss_mgr (so_sys y)))
    + sum_list (map (port_task_cost \<circ> snd) (so_strands y)) + length (so_ops y)"

fun brings_data :: "serial_event \<Rightarrow> bool" where
  "brings_data (Read_done idx late err) = (\<not> err)"
| "brings_data _ = False"

text \<open>Once the ports are closed, only the reads started before can still bring data.\<close>

fun early_read :: "port_op \<Rightarrow> bool" where
  "early_read (Reading idx late) = (\<not> late)"
| "early_read (Writing idx msg) = False"

definition early_reads :: "serial_os \<Rightarrow> nat" where
  "early_reads y = length (filter early_read (so_ops y))"

definition all_closed :: "nat \<Rightarrow> serial_os \<Rightarrow> bool" where
  "all_closed num y \<longleftrightarrow> list_all (\<lambda>i. i \<in> set (so_closed y)) [0..<num]"

text \<open>After \<open>Stop\<close> every port is closed, or the handler that closes it waits on its strand.\<close>

definition stopped :: "nat \<Rightarrow> serial_os \<Rightarrow> bool" where
  "stopped num y \<longleftrightarrow> list_all (\<lambda>i. i \<in> set (so_closed y) \<or> (i, Stop_port) \<in> set (so_strands y)) [0..<num]"

lemma stop_stops: "stopped num (serial_step (Call_stop num) y)"
  by (simp add: stopped_def list_all_iff)

lemma strands_kept: "so_strands (queue_message msg y) = so_strands y @ start_writes (fst (serial_write msg (ss_mgr (so_sys y))))"
  "so_strands (end_write idx msg y) = so_strands y @ start_writes (fst (serial_written idx (ss_mgr (so_sys y))))"
  by (simp_all add: queue_message_def end_write_def Let_def split: prod.split)

lemma others_kept [simp]:
  "so_posted (queue_message msg y) = so_posted y" "so_posted (end_write idx msg y) = so_posted y"
  "so_ops (queue_message msg y) = so_ops y" "so_ops (end_write idx msg y) = so_ops y"
  "so_closed (queue_message msg y) = so_closed y" "so_closed (end_write idx msg y) = so_closed y"
  by (simp_all add: queue_message_def end_write_def Let_def split: prod.split)

lemma closed_grows: "set (so_closed y) \<subseteq> set (so_closed (serial_step e y))"
proof (cases e)
  case (Run_port idx t)
  then show ?thesis by (cases t) auto
qed auto

lemma stopped_step:
  assumes "stopped num y" "serial_enabled e y"
  shows "stopped num (serial_step e y)"
proof -
  have "(i, Stop_port) \<in> set (so_strands (serial_step e y)) \<or> i \<in> set (so_closed (serial_step e y))"
    if "(i, Stop_port) \<in> set (so_strands y)" for i
  proof (cases e)
    case (Run_port idx t)
    then show ?thesis using that by (cases "(idx, t) = (i, Stop_port)"; cases t) auto
  qed (use that in \<open>auto simp: strands_kept\<close>)
  then show ?thesis using assms(1) closed_grows [of y e] by (auto simp: stopped_def list_all_iff)
qed

lemma all_closed_step: "all_closed num y \<Longrightarrow> all_closed num (serial_step e y)"
  using closed_grows [of y e] by (auto simp: all_closed_def list_all_iff)

lemma sum_list_remove1:
  "x \<in> set xs \<Longrightarrow> sum_list (map f xs) = f x + sum_list (map f (remove1 x xs))" for f :: "_ \<Rightarrow> nat"
  by (rule sum_list_map_remove1)

lemma queue_message_work:
  "serial_work (queue_message msg y) \<le> serial_work y + 2"
  by (auto simp: serial_work_def queue_message_def serial_write_def start_writes_def enqueue_def Let_def split: list.split)

lemma end_write_work:
  "serial_work (end_write idx msg y) \<le> serial_work y"
  by (auto simp: serial_work_def end_write_def serial_written_def start_writes_def Let_def split: list.split)

lemma serial_step_work:
  assumes "serial_enabled e y" "\<not> is_call e"
  shows "serial_work (serial_step e y) + (if brings_data e then 0 else 1) \<le> serial_work y"
proof (cases e)
  case Run_queue
  have "serial_work (y\<lparr>so_posted := tl (so_posted y)\<rparr>) + 3 = serial_work y"
    using assms(1) Run_queue by (cases "so_posted y") (simp_all add: serial_work_def)
  then show ?thesis
    using Run_queue queue_message_work [of "hd (so_posted y)" "y\<lparr>so_posted := tl (so_posted y)\<rparr>"] by simp
next
  case (Run_port idx t)
  then have "(idx, t) \<in> set (so_strands y)" using assms(1) found_in by fastforce
  from sum_list_remove1 [OF this, of "port_task_cost \<circ> snd"] show ?thesis
    using Run_port by (cases t) (simp_all add: serial_work_def)
next
  case (Read_done idx late err)
  then have "Reading idx late \<in> set (so_ops y)" using assms(1) by simp
  then have "0 < length (so_ops y)" by (cases "so_ops y") auto
  then show ?thesis using Read_done assms(1) by (simp add: serial_work_def length_remove1)
next
  case (Write_done idx msg)
  let ?y = "y\<lparr>so_ops := remove1 (Writing idx msg) (so_ops y)\<rparr>"
  have w: "Writing idx msg \<in> set (so_ops y)" using assms(1) Write_done by simp
  then have "0 < length (so_ops y)" by (cases "so_ops y") auto
  then have "serial_work ?y + 1 = serial_work y" using w by (simp add: serial_work_def length_remove1)
  then show ?thesis using Write_done end_write_work [of idx msg ?y] by simp
qed (use assms in auto)

lemma filter_remove1_length:
  "x \<in> set xs \<Longrightarrow> P x \<Longrightarrow> length (filter P xs) = Suc (length (filter P (remove1 x xs)))"
  by (induction xs) auto

lemma filter_remove1_le: "length (filter P (remove1 x xs)) \<le> length (filter P xs)"
  by (induction xs) auto

lemma early_reads_step:
  assumes "all_closed num y" "os_inv num mq y" "serial_enabled e y" "\<not> is_call e"
  shows "early_reads (serial_step e y) + (if brings_data e then 1 else 0) \<le> early_reads y"
proof (cases e)
  case (Run_port idx t)
  then have "(idx, t) \<in> set (so_strands y)" using assms(3) found_in by fastforce
  then have "idx \<in> set (so_closed y)" using assms(1,2) by (auto simp: os_inv_def all_closed_def list_all_iff)
  then show ?thesis using Run_port by (cases t) (simp_all add: early_reads_def)
next
  case (Read_done idx late err)
  then have r: "Reading idx late \<in> set (so_ops y)" "late \<longrightarrow> err" using assms(3) by simp_all
  then have "idx \<in> set (so_closed y)" using assms(1,2) by (fastforce simp: os_inv_def all_closed_def list_all_iff)
  then show ?thesis
    using Read_done r filter_remove1_le [of early_read "Reading idx late" "so_ops y"]
      filter_remove1_length [OF r(1), of early_read] by (auto simp: early_reads_def)
next
  case (Write_done idx msg)
  then show ?thesis
    using filter_remove1_le [of early_read "Writing idx msg" "so_ops y"] by (simp add: early_reads_def)
qed (use assms in \<open>auto simp: early_reads_def\<close>)

lemma destructor_run_inv:
  assumes "os_inv num mq y" "stopped num y" "serial_destructor_run es y = Some z"
  shows "os_inv num mq z \<and> stopped num z
    \<and> length (filter (\<lambda>e. \<not> brings_data e) es) + serial_work z \<le> serial_work y"
  using assms
proof (induction es arbitrary: y)
  case (Cons e es)
  then have e: "serial_enabled e y" "\<not> is_call e" "serial_destructor_run es (serial_step e y) = Some z"
    by (simp_all split: if_splits)
  have "os_inv num mq (serial_step e y)" using Cons.prems(1) e(1,2) by (intro serial_step_inv) (cases e; simp)+
  from Cons.IH [OF this stopped_step [OF Cons.prems(2) e(1)] e(3)] serial_step_work [OF e(1,2)]
  show ?case by auto
qed simp

lemma destructor_run_closed:
  assumes "os_inv num mq y" "all_closed num y" "serial_destructor_run es y = Some z"
  shows "length (filter brings_data es) + early_reads z \<le> early_reads y"
  using assms
proof (induction es arbitrary: y)
  case (Cons e es)
  then have e: "serial_enabled e y" "\<not> is_call e" "serial_destructor_run es (serial_step e y) = Some z"
    by (simp_all split: if_splits)
  have "os_inv num mq (serial_step e y)" using Cons.prems(1) e(1,2) by (intro serial_step_inv) (cases e; simp)+
  from Cons.IH [OF this all_closed_step [OF Cons.prems(2)] e(3)] early_reads_step [OF Cons.prems(2,1) e(1,2)]
  show ?case by auto
qed simp

text \<open>A handler that can run whatever the other end of the line does: one that is posted, or the end of an
  operation on a closed port, which was aborted.\<close>

fun runs_alone :: "serial_os \<Rightarrow> serial_event \<Rightarrow> bool" where
  "runs_alone y Run_queue = True"
| "runs_alone y (Run_port idx t) = True"
| "runs_alone y (Read_done idx late err) = (err \<and> idx \<in> set (so_closed y))"
| "runs_alone y (Write_done idx msg) = (idx \<in> set (so_closed y))"
| "runs_alone y _ = False"

lemma serial_progress:
  assumes "os_inv num mq y" "stopped num y" "\<not> serial_expired y"
  shows "\<exists>e. serial_enabled e y \<and> runs_alone y e"
proof (cases "so_posted y = [] \<and> so_strands y = []")
  case True
  then obtain op where op: "op \<in> set (so_ops y)" using assms(3) by (cases "so_ops y") (auto simp: serial_expired_def)
  then have "op_port op \<in> set (so_closed y)"
    using assms(1,2) True by (fastforce simp: os_inv_def stopped_def list_all_iff)
  then show ?thesis
    using op by (cases op) (auto intro: exI [of _ "Read_done i b True" for i b] exI [of _ "Write_done i m" for i m])
next
  case False
  show ?thesis
  proof (cases "so_strands y")
    case Nil
    then show ?thesis using False by (intro exI [of _ Run_queue]) simp
  next
    case (Cons p ps)
    then show ?thesis by (intro exI [of _ "Run_port (fst p) (snd p)"]) simp
  qed
qed

lemma expired_flushed:
  assumes "os_inv num mq z" "serial_expired z" "0 < num"
  shows "sm_write_q (ss_mgr (so_sys z)) = [] \<and> mset (sm_idle (ss_mgr (so_sys z))) = mset [0..<num]"
proof -
  have "ss_busy (so_sys z) = []" using assms(1,2) by (simp add: os_inv_def serial_expired_def in_flight_def)
  moreover have inv: "serial_inv num mq (so_sys z)" using assms(1) by (simp add: os_inv_def serial_reach_inv)
  ultimately have idle: "mset (sm_idle (ss_mgr (so_sys z))) = mset [0..<num]" by (simp add: serial_inv_def)
  then have "length (sm_idle (ss_mgr (so_sys z))) = num" by (metis diff_zero length_upt size_mset)
  then have "sm_idle (ss_mgr (so_sys z)) \<noteq> []" using assms(3) by auto
  then show ?thesis using inv idle by (auto simp: serial_inv_def)
qed

text \<open>
  C35. The destructor of the serial manager returns and writes out the queue. Once \<open>Stop\<close> was called, apart
  from reads that bring data it runs at most \<open>serial_work\<close> handlers, and when the ports are closed at most one
  such read for each in flight; while it waits, there is a handler it can run whatever the other end of the
  line does. When no handler is left, the queue is empty and every port idle: each message accepted was
  given to a port, in order, but for those dropped at overflow.
\<close>

theorem serial_destructor_returns:
  assumes "serial_os_reach num mq y" "stopped num y" "0 < num" "serial_destructor_run es y = Some z"
  shows "length (filter (\<lambda>e. \<not> brings_data e) es) \<le> serial_work y
    \<and> (all_closed num y \<longrightarrow> length es \<le> serial_work y + early_reads y)
    \<and> (serial_waits False z \<longrightarrow> (\<exists>e. serial_enabled e z \<and> runs_alone z e))
    \<and> (\<not> serial_waits False z \<longrightarrow> sm_write_q (ss_mgr (so_sys z)) = [] \<and> mset (sm_idle (ss_mgr (so_sys z))) = mset [0..<num]
         \<and> subseq (map snd (ss_started (so_sys z))) (ss_accepted (so_sys z))
         \<and> (length (ss_accepted (so_sys z)) \<le> mq \<longrightarrow> map snd (ss_started (so_sys z)) = ss_accepted (so_sys z)))"
proof -
  have y: "os_inv num mq y" by (rule serial_os_inv [OF assms(1)])
  from destructor_run_inv [OF this assms(2,4)] have z: "os_inv num mq z" "stopped num z"
    and work: "length (filter (\<lambda>e. \<not> brings_data e) es) \<le> serial_work y" by auto
  have inv: "serial_inv num mq (so_sys z)" using z(1) by (simp add: os_inv_def serial_reach_inv)
  have "length es \<le> serial_work y + early_reads y" if "all_closed num y"
    using destructor_run_closed [OF y that assms(4)] work sum_length_filter_compl [of brings_data es] by simp
  moreover have "\<exists>e. serial_enabled e z \<and> runs_alone z e" if "serial_waits False z"
    using serial_progress [OF z] that by (simp add: serial_waits_def)
  ultimately show ?thesis using work inv expired_flushed [OF z(1) _ assms(3)]
    by (auto simp: serial_waits_def serial_inv_def)
qed

text \<open>One port, two messages, the second queued while the first is written, and \<open>Stop\<close>.\<close>

definition stop_demo :: serial_os where
  "stop_demo = fold serial_step [Call_start 1, Run_port 0 Begin_read, Call_write [1], Run_queue, Call_write [2], Run_queue,
    Call_stop 1] (new_serial_os 1 5)"

lemmas serial_run_simps = new_serial_os_def new_serial_mgr_def queue_message_def serial_write_def end_write_def
  serial_written_def start_writes_def enqueue_def serial_waits_def serial_expired_def Let_def

lemma stop_demo_reach: "serial_os_reach 1 5 stop_demo"
  unfolding stop_demo_def fold.simps comp_apply id_apply
  by (intro serial_os_reach.step serial_os_reach.new) (simp_all add: serial_run_simps)

theorem serial_destructor_returns_witness:
  "case serial_destructor_run [Run_port 0 (Begin_write [1]), Run_port 0 Stop_port, Read_done 0 False True, Write_done 0 [1],
      Run_port 0 (Begin_write [2]), Write_done 0 [2]] stop_demo of
     None \<Rightarrow> False
   | Some z \<Rightarrow> sm_write_q (ss_mgr (so_sys z)) = [] \<and> map snd (ss_started (so_sys z)) = [[1], [2]]"
proof -
  let ?es = "[Run_port 0 (Begin_write [1]), Run_port 0 Stop_port, Read_done 0 False True, Write_done 0 [1],
      Run_port 0 (Begin_write [2]), Write_done 0 [2]]"
  have "stopped 1 stop_demo" by (simp add: stopped_def stop_demo_def serial_run_simps)
  moreover obtain z where "serial_destructor_run ?es stop_demo = Some z" "\<not> serial_waits False z"
      "ss_accepted (so_sys z) = [[1], [2]]"
    by (simp add: stop_demo_def serial_run_simps)
  ultimately show ?thesis using serial_destructor_returns [OF stop_demo_reach, of ?es z] by simp
qed

end
