(* ===== verification/PrioQueue.thy ===== *)
theory PrioQueue
  imports Prelude
begin

text \<open>
  \<open>std::priority_queue\<close> with a comparison object, as the fragment handlers of ProtoConv use it. A heap
  keeps its contents as a bag; which element is at the top is determined by the comparison as long
  as it orders the contents strictly. The model keeps the elements in the order of insertion and
  finds the top by a scan; what the handlers' proofs use of it is the interface \<open>prio_queue\<close>, which every
  heap satisfies.
\<close>

section \<open>The queue\<close>

definition pq_push :: "'a \<Rightarrow> 'a list \<Rightarrow> 'a list" where
  "pq_push x q = q @ [x]"

text \<open>\<open>cmp x y\<close>: \<open>x\<close> has lower priority than \<open>y\<close>.\<close>

fun pq_scan :: "('a \<Rightarrow> 'a \<Rightarrow> bool) \<Rightarrow> 'a \<Rightarrow> 'a list \<Rightarrow> 'a" where
  "pq_scan cmp best [] = best"
| "pq_scan cmp best (y # ys) = pq_scan cmp (if cmp best y then y else best) ys"

definition pq_top :: "('a \<Rightarrow> 'a \<Rightarrow> bool) \<Rightarrow> 'a list \<Rightarrow> 'a" where
  "pq_top cmp q = pq_scan cmp (hd q) (tl q)"

definition pq_pop :: "('a \<Rightarrow> 'a \<Rightarrow> bool) \<Rightarrow> 'a list \<Rightarrow> 'a list" where
  "pq_pop cmp q = remove1 (pq_top cmp q) q"

lemma pq_scan_in: "pq_scan cmp best ys \<in> insert best (set ys)"
proof (induction ys arbitrary: best)
  case (Cons y ys)
  show ?case using Cons.IH [of "if cmp best y then y else best"] by (auto split: if_splits)
qed simp

lemma pq_top_in: "q \<noteq> [] \<Longrightarrow> pq_top cmp q \<in> set q"
  using pq_scan_in [of cmp "hd q" "tl q"] by (cases q) (auto simp: pq_top_def)

lemma length_pq_pop [termination_simp]: "q \<noteq> [] \<Longrightarrow> length (pq_pop cmp q) < length q"
  by (simp add: pq_pop_def length_remove1 pq_top_in)

lemma pq_scan_least:
  fixes r :: "'a \<Rightarrow> nat"
  assumes "\<And>x y. x \<in> insert best (set ys) \<Longrightarrow> y \<in> insert best (set ys) \<Longrightarrow> x \<noteq> y \<Longrightarrow> cmp x y \<longleftrightarrow> r y < r x"
  shows "\<forall>y \<in> insert best (set ys). r (pq_scan cmp best ys) \<le> r y"
  using assms
proof (induction ys arbitrary: best)
  case (Cons z zs)
  let ?b = "if cmp best z then z else best"
  have "\<forall>y \<in> insert ?b (set zs). r (pq_scan cmp ?b zs) \<le> r y"
    using Cons.prems by (intro Cons.IH) (auto split: if_splits)
  moreover have "r ?b \<le> r best \<and> r ?b \<le> r z"
    using Cons.prems [of best z] by (cases "best = z") (auto simp: not_less)
  ultimately show ?case by auto
qed simp

section \<open>The interface\<close>

text \<open>
  What the clients rely on: pushing and popping change the bag by the element pushed and the top; the
  top is the least element whenever the comparison is the order of some rank on the (distinct)
  contents. \<open>cmp x x\<close> is never asked.
\<close>

locale prio_queue =
  fixes elems :: "'q \<Rightarrow> 'a multiset" and cmp :: "'a \<Rightarrow> 'a \<Rightarrow> bool"
    and push :: "'a \<Rightarrow> 'q \<Rightarrow> 'q" and top_elem :: "'q \<Rightarrow> 'a" and pop :: "'q \<Rightarrow> 'q"
  assumes elems_push: "elems (push x q) = add_mset x (elems q)"
    and top_in: "elems q \<noteq> {#} \<Longrightarrow> top_elem q \<in># elems q"
    and elems_pop: "elems q \<noteq> {#} \<Longrightarrow> elems (pop q) = elems q - {#top_elem q#}"
    and top_least: "elems q \<noteq> {#} \<Longrightarrow>
      (\<And>x y. x \<in># elems q \<Longrightarrow> y \<in># elems q \<Longrightarrow> x \<noteq> y \<Longrightarrow> cmp x y \<longleftrightarrow> r y < (r x :: nat)) \<Longrightarrow>
      y \<in># elems q \<Longrightarrow> r (top_elem q) \<le> r y"
begin

text \<open>The contents are numbered by \<open>S\<close>, in the order of the comparison.\<close>

definition indexed :: "(nat \<Rightarrow> 'a) \<Rightarrow> nat set \<Rightarrow> 'q \<Rightarrow> bool" where
  "indexed F S q \<longleftrightarrow> finite S \<and> inj_on F S \<and> elems q = image_mset F (mset_set S)
    \<and> (\<forall>i \<in> S. \<forall>j \<in> S. i \<noteq> j \<longrightarrow> (cmp (F j) (F i) \<longleftrightarrow> i < j))"

lemma indexed_top:
  assumes "indexed F S q" "S \<noteq> {}"
  shows "top_elem q = F (Min S)"
proof -
  have fin: "finite S" and inj: "inj_on F S" and el: "elems q = image_mset F (mset_set S)"
    using assms(1) by (auto simp: indexed_def)
  define r where "r = the_inv_into S F"
  have r: "r (F i) = i" if "i \<in> S" for i using inj that by (simp add: r_def the_inv_into_f_f)
  have ne: "elems q \<noteq> {#}" using el fin assms(2) by (simp add: mset_set_empty_iff)
  have set: "set_mset (elems q) = F ` S" using el fin by simp
  have "r (top_elem q) \<le> r (F (Min S))"
  proof (rule top_least [OF ne])
    show "cmp x y \<longleftrightarrow> r y < r x" if xy: "x \<in># elems q" "y \<in># elems q" "x \<noteq> y" for x y
    proof -
      obtain i j where "i \<in> S" "j \<in> S" "x = F i" "y = F j" using xy(1,2) unfolding set by auto
      then show ?thesis using assms(1) xy(3) r unfolding indexed_def by metis
    qed
    show "F (Min S) \<in># elems q" unfolding set using fin assms(2) by simp
  qed
  moreover obtain i where i: "i \<in> S" "top_elem q = F i" using top_in [OF ne] unfolding set by auto
  moreover have "Min S \<in> S" using fin assms(2) by simp
  ultimately have "i \<le> Min S" by (simp add: r)
  then have "i = Min S" using i(1) fin by (simp add: order_antisym)
  then show ?thesis using i(2) by simp
qed

lemma indexed_pop:
  assumes "indexed F S q" "S \<noteq> {}"
  shows "indexed F (S - {Min S}) (pop q)"
proof -
  have fin: "finite S" and el: "elems q = image_mset F (mset_set S)" and m: "Min S \<in> S"
    using assms by (auto simp: indexed_def)
  have "elems q \<noteq> {#}" using el fin assms(2) by (simp add: mset_set_empty_iff)
  then have "elems (pop q) = elems q - {#F (Min S)#}" using elems_pop indexed_top [OF assms] by simp
  also have "\<dots> = image_mset F (mset_set (S - {Min S}))"
    using fin m by (simp add: el mset_set_Diff image_mset_Diff)
  finally show ?thesis using assms(1) by (auto simp: indexed_def inj_on_diff)
qed

lemma indexed_push:
  assumes "indexed F S q" "i \<notin> S" "inj_on F (insert i S)"
    "\<And>j. j \<in> S \<Longrightarrow> (cmp (F j) (F i) \<longleftrightarrow> i < j) \<and> (cmp (F i) (F j) \<longleftrightarrow> j < i)"
  shows "indexed F (insert i S) (push (F i) q)"
  using assms by (auto simp: indexed_def elems_push)

lemma indexed_empty: "elems q = {#} \<Longrightarrow> indexed F {} q"
  by (simp add: indexed_def)

lemma indexed_elems: "indexed F S q \<Longrightarrow> elems q = {#} \<longleftrightarrow> S = {}"
  by (auto simp: indexed_def mset_set_empty_iff)

lemma indexed_size: "indexed F S q \<Longrightarrow> size (elems q) = card S"
  by (auto simp: indexed_def)

end

interpretation pq: prio_queue mset cmp pq_push "pq_top cmp" "pq_pop cmp" for cmp
proof
  show "mset (pq_push x q) = add_mset x (mset q)" for x and q :: "'a list"
    by (simp add: pq_push_def)
  show "mset q \<noteq> {#} \<Longrightarrow> pq_top cmp q \<in># mset q" for q by (simp add: pq_top_in)
  show "mset q \<noteq> {#} \<Longrightarrow> mset (pq_pop cmp q) = mset q - {#pq_top cmp q#}" for q
    by (simp add: pq_pop_def)
  show "r (pq_top cmp q) \<le> r y"
    if "mset q \<noteq> {#}" "\<And>x y. x \<in># mset q \<Longrightarrow> y \<in># mset q \<Longrightarrow> x \<noteq> y \<Longrightarrow> cmp x y \<longleftrightarrow> r y < r x" "y \<in># mset q"
    for q and r :: "'a \<Rightarrow> nat" and y
  proof -
    have "q \<noteq> []" using that(1) by simp
    then have q: "insert (hd q) (set (tl q)) = set q" by (cases q) auto
    have "\<forall>y \<in> insert (hd q) (set (tl q)). r (pq_scan cmp (hd q) (tl q)) \<le> r y"
      using that(2) by (intro pq_scan_least) (simp add: q)
    then show ?thesis using that(3) q by (simp add: pq_top_def)
  qed
qed

lemma length_indexed: "pq.indexed cmp F S q \<Longrightarrow> length q = card S"
  using pq.indexed_size [of cmp F S q] by simp

lemma Nil_indexed: "pq.indexed cmp F S q \<Longrightarrow> q = [] \<longleftrightarrow> S = {}"
  using pq.indexed_elems [of cmp F S q] by simp

end
