(* ===== verification/DelimFrame.thy ===== *)
theory DelimFrame
  imports Framing Crc
begin

text \<open>
  Stream delimiters: the trailer \<open>ProtoConv::AddDelim\<close> puts behind every datagram
  (\<open>src/src/ProtoConv/ProtoConv.cpp\<close>) and the checker that finds it again
  (\<open>src/src/ProtoConv/DelimFrameChecker.h\<close>). The trailer is the 32-bit delimiter, a 32-bit sequence
  number and the CRC-CCITT of these eight bytes, each in memory order.
\<close>

section \<open>Writing\<close>

definition trailer :: "u32 \<Rightarrow> u32 \<Rightarrow> u8 list" where
  "trailer delim seq =
    (let head = le_bytes 4 (ucast delim) @ le_bytes 4 (ucast seq)
     in head @ le_bytes 2 (ucast (crc_ccitt head)))"

text \<open>The second component is \<open>DelimSeq\<close>.\<close>

definition add_delim :: "u32 \<Rightarrow> u8 list \<Rightarrow> u32 \<Rightarrow> u8 list \<times> u32" where
  "add_delim delim data seq = (if delim = 0 then (data, seq) else (data @ trailer delim seq, seq + 1))"

section \<open>Checking\<close>

text \<open>The loop over the buffer: \<open>xs\<close> is the buffer from the byte \<open>byte_it - 3\<close> on.\<close>

function delim_scan :: "u32 \<Rightarrow> nat \<Rightarrow> u8 list \<Rightarrow> frame" where
  "delim_scan delim frame_len xs =
    (if length xs < 10 then raw_frame 0
     else if take 4 xs = le_bytes 4 (ucast delim)
       \<and> ucast (le_val (take 2 (drop 8 xs))) = crc_ccitt (take 8 xs)
       then mk_frame frame_len True True 1 (unat (le_val (take 4 (drop 4 xs))))
     else if frame_len \<ge> 64 * 1024 then mk_frame frame_len True True 0 0
     else delim_scan delim (frame_len + 1) (tl xs))"
  by auto
termination by (relation "measure (\<lambda>(d, n, xs). length xs)") auto

declare delim_scan.simps [simp del]

definition delim_check :: "u32 \<Rightarrow> u8 list \<Rightarrow> frame" where
  "delim_check delim readbuf =
    (if length readbuf < 10 then raw_frame 0 else delim_scan delim 10 readbuf)"

section \<open>The scan\<close>

text \<open>A valid trailer at the head of the bytes.\<close>

definition trailer_at :: "u32 \<Rightarrow> u8 list \<Rightarrow> bool" where
  "trailer_at delim xs \<longleftrightarrow> 10 \<le> length xs \<and> take 4 xs = le_bytes 4 (ucast delim)
    \<and> ucast (le_val (take 2 (drop 8 xs))) = crc_ccitt (take 8 xs)"

definition seq_at :: "u8 list \<Rightarrow> nat" where
  "seq_at xs = unat (le_val (take 4 (drop 4 xs)))"

lemma delim_check_scan: "delim_check delim xs = delim_scan delim 10 xs"
  by (simp add: delim_check_def delim_scan.simps)

lemma delim_scan_cases:
  "delim_scan delim n xs =
    (if length xs < 10 then raw_frame 0
     else if trailer_at delim xs then mk_frame n True True 1 (seq_at xs)
     else if n \<ge> 64 * 1024 then mk_frame n True True 0 0
     else delim_scan delim (n + 1) (tl xs))"
  by (subst delim_scan.simps) (auto simp: trailer_at_def seq_at_def)

lemma delim_scan_le: "10 \<le> n \<Longrightarrow> fr_len (delim_scan delim n xs) \<le> n + length xs - 10"
proof (induction delim n xs rule: delim_scan.induct)
  case (1 delim n xs)
  show ?case
  proof (cases "length xs < 10 \<or> trailer_at delim xs \<or> n \<ge> 64 * 1024")
    case True
    then show ?thesis using "1.prems" by (subst delim_scan_cases) auto
  next
    case False
    then have "fr_len (delim_scan delim (n + 1) (tl xs)) \<le> n + 1 + length (tl xs) - 10"
      using "1.IH" "1.prems" by (simp add: trailer_at_def)
    then show ?thesis using False by (subst delim_scan_cases) auto
  qed
qed

lemma trailer_at_append: "10 \<le> length xs \<Longrightarrow> trailer_at delim (xs @ ys) \<longleftrightarrow> trailer_at delim xs"
  by (simp add: trailer_at_def)

lemma seq_at_append: "10 \<le> length xs \<Longrightarrow> seq_at (xs @ ys) = seq_at xs"
  by (simp add: seq_at_def)

lemma delim_scan_stable:
  "fr_len (delim_scan delim n xs) \<noteq> 0 \<Longrightarrow> delim_scan delim n (xs @ ys) = delim_scan delim n xs"
proof (induction delim n xs rule: delim_scan.induct)
  case (1 delim n xs)
  have len: "\<not> length xs < 10" using "1.prems" by (auto simp: delim_scan_cases [of _ _ xs])
  then have "tl (xs @ ys) = tl xs @ ys" by (cases xs) auto
  then show ?case
    using "1.IH" "1.prems" len
    by (subst (1 2) delim_scan_cases)
      (auto simp: trailer_at_append seq_at_append delim_scan_cases [of delim n xs] trailer_at_def
        split: if_splits)
qed

interpretation delim: stable_checker "delim_check d" for d
proof
  show "fr_len (delim_check d buf) \<le> length buf" for buf
  proof (cases "length buf < 10")
    case False
    then show ?thesis using delim_scan_le [of 10 d buf] by (simp add: delim_check_scan)
  qed (simp add: delim_check_def)
  show "fr_len (delim_check d buf) \<noteq> 0 \<Longrightarrow> delim_check d (buf @ more) = delim_check d buf" for buf more
    by (simp add: delim_check_scan delim_scan_stable)
qed

section \<open>What is written is found\<close>

lemma trailer_parts:
  "length (trailer d s) = 10" "take 4 (trailer d s) = le_bytes 4 (ucast d)"
  "take 4 (drop 4 (trailer d s)) = le_bytes 4 (ucast s)"
  "take 2 (drop 8 (trailer d s)) = le_bytes 2 (ucast (crc_ccitt (take 8 (trailer d s))))"
  by (simp_all add: trailer_def Let_def)

lemma ucast_le_val_2: "ucast (le_val (le_bytes 2 (ucast (c :: u16)))) = c"
  by (rule bit_word_eqI) (simp add: le_val_le_bytes bit_simps)

lemma unat_le_val_4: "unat (le_val (le_bytes 4 (ucast (s :: u32)))) = unat s"
proof -
  have "take_bit 32 (ucast s :: u64) = ucast s"
    by (rule bit_word_eqI) (auto simp: bit_simps dest: bit_imp_le_length)
  moreover have "uint s < 2 ^ LENGTH(32)" by (rule uint_lt2p)
  then have "take_bit 64 (uint s) = uint s" by (intro take_bit_int_eq_self) simp_all
  then have "uint (ucast s :: u64) = uint s" by (simp add: unsigned_ucast_eq)
  then have "unat (ucast s :: u64) = unat s" by (simp only: unat_eq_nat_uint)
  ultimately show ?thesis by (simp add: le_val_le_bytes)
qed

lemma trailer_found: "trailer_at d (trailer d s @ ys)" "seq_at (trailer d s @ ys) = unat s"
proof -
  have len: "length (trailer d s) = 10" by (rule trailer_parts(1))
  then have "trailer_at d (trailer d s)"
    using trailer_parts(2,4) [of d s] by (simp add: trailer_at_def ucast_le_val_2)
  then show "trailer_at d (trailer d s @ ys)" using len by (simp add: trailer_at_append)
  show "seq_at (trailer d s @ ys) = unat s"
    using len trailer_parts(3) [of d s] by (simp add: seq_at_append) (simp add: seq_at_def unat_le_val_4)
qed

text \<open>A datagram in which no trailer seems to be before its own.\<close>

definition clean :: "u32 \<Rightarrow> u32 \<Rightarrow> u8 list \<Rightarrow> bool" where
  "clean d s data \<longleftrightarrow> length data + 10 \<le> 64 * 1024
    \<and> (\<forall>i < length data. \<not> trailer_at d (drop i (data @ trailer d s)))"

lemma delim_scan_finds:
  assumes "\<forall>i < length data. \<not> trailer_at d (drop i (data @ trailer d s))" "n + length data \<le> 64 * 1024"
  shows "delim_scan d n (data @ trailer d s @ ys) = mk_frame (n + length data) True True 1 (unat s)"
  using assms
proof (induction data arbitrary: n)
  case Nil
  then show ?case
    using trailer_found [of d s ys] trailer_parts(1) [of d s] by (subst delim_scan_cases) simp
next
  case (Cons b data)
  have "\<not> trailer_at d ((b # data) @ trailer d s)" using Cons.prems(1) by fastforce
  then have "\<not> trailer_at d ((b # data) @ trailer d s @ ys)"
    using trailer_at_append [of "(b # data) @ trailer d s" d ys] trailer_parts(1) [of d s] by simp
  moreover have "\<forall>i < length data. \<not> trailer_at d (drop i (data @ trailer d s))"
  proof (intro allI impI)
    fix i assume "i < length data"
    then show "\<not> trailer_at d (drop i (data @ trailer d s))" using Cons.prems(1) [rule_format, of "Suc i"] by simp
  qed
  ultimately show ?case
    using Cons.IH [of "n + 1"] Cons.prems(2) trailer_parts(1) [of d s]
    by (subst delim_scan_cases) simp
qed

lemma delim_check_finds:
  "clean d s data \<Longrightarrow>
    delim_check d (data @ trailer d s @ ys) = mk_frame (length data + 10) True True 1 (unat s)"
  using delim_scan_finds [of data d s 10 ys] by (simp add: delim_check_scan clean_def add.commute)

text \<open>A run of the writer: the bytes of a sequence of datagrams, the sequence counter after it, and
  the frames it stands for.\<close>

fun delim_run :: "u32 \<Rightarrow> u32 \<Rightarrow> u8 list list \<Rightarrow> u8 list" where
  "delim_run d s [] = []"
| "delim_run d s (x # xs) = (case add_delim d x s of (bytes, s') \<Rightarrow> bytes @ delim_run d s' xs)"

fun delim_frames :: "u32 \<Rightarrow> u32 \<Rightarrow> u8 list list \<Rightarrow> frame list" where
  "delim_frames d s [] = []"
| "delim_frames d s (x # xs) =
    (mk_frame (length x + 10) True True 1 (unat s))\<lparr>fr_buf := x @ trailer d s\<rparr> # delim_frames d (s + 1) xs"

fun clean_run :: "u32 \<Rightarrow> u32 \<Rightarrow> u8 list list \<Rightarrow> bool" where
  "clean_run d s [] = True"
| "clean_run d s (x # xs) \<longleftrightarrow> clean d s x \<and> clean_run d (s + 1) xs"

text \<open>One datagram at the head of the stream.\<close>

lemma rcv_stream_delim_cons:
  assumes "clean d s x"
  shows "rcv_stream (delim_check d) (x @ trailer d s @ rest) =
    Option.bind (rcv_stream (delim_check d) rest) (\<lambda>(fs, rest').
      Some ((mk_frame (length x + 10) True True 1 (unat s))\<lparr>fr_buf := x @ trailer d s\<rparr> # fs, rest'))"
proof -
  have chk: "delim_check d (x @ trailer d s @ rest) = mk_frame (length x + 10) True True 1 (unat s)"
    by (rule delim_check_finds [OF assms])
  have cut: "cut_frame (mk_frame (length x + 10) True True 1 (unat s)) (x @ trailer d s @ rest) =
      (mk_frame (length x + 10) True True 1 (unat s))\<lparr>fr_buf := x @ trailer d s\<rparr>"
    using trailer_parts(1) [of d s] by (simp add: cut_frame_def Let_def min_def mk_frame_def)
  show ?thesis using cut trailer_parts(1) [of d s] by (subst rcv_stream_some) (simp_all add: chk)
qed

lemma rcv_stream_delim_run:
  assumes "d \<noteq> 0" "clean_run d s xs"
  shows "rcv_stream (delim_check d) (delim_run d s xs) = Some (delim_frames d s xs, [])"
  using assms(2)
proof (induction xs arbitrary: s)
  case Nil
  show ?case by (simp add: rcv_stream_none delim_check_def)
next
  case (Cons x xs)
  have "delim_run d s (x # xs) = x @ trailer d s @ delim_run d (s + 1) xs"
    using assms(1) by (simp add: add_delim_def)
  then show ?case using Cons rcv_stream_delim_cons [of d s x "delim_run d (s + 1) xs"] by simp
qed

section \<open>Properties\<close>

text \<open>
  Delimited datagrams survive the stream: the bytes the writer makes of any sequence of
  datagrams come back as exactly these datagrams with their trailers and consecutive sequence
  numbers, and nothing is left in the buffer, however the stream is cut into reads, provided no
  datagram is too long or contains bytes that are themselves a valid trailer.
\<close>

theorem delim_roundtrip:
  assumes "d \<noteq> 0" "clean_run d s xs" "concat chunks = delim_run d s xs"
  shows "rcv_chunks (delim_check d) [] chunks = Some (delim_frames d s xs, [])"
  using delim.rcv_chunks_stream [OF delim.check_Nil, of d chunks] rcv_stream_delim_run [OF assms(1,2)] assms(3)
  by simp

theorem delim_roundtrip_witness:
  "rcv_chunks (delim_check 7) [] [delim_run 7 0 [[], []]] = Some (delim_frames 7 0 [[], []], [])"
  by (rule delim_roundtrip) (simp_all add: clean_def)


end
