(* ===== verification/DelimFrag.thy ===== *)
theory DelimFrag
  imports PrioQueue DelimFrame
begin

text \<open>
  What ProtoConv does with frames on their way to UDP when stream delimiters are in use:
  \<open>src/src/ProtoConv/NopFragHandler.h\<close> and the reordering queue of
  \<open>src/src/ProtoConv/DelimFragHandler.h\<close>. A call of the write handler is the list of bytes written.
  The steady clock counts nanoseconds; a handler reads it at most twice.
\<close>

section \<open>State and operations\<close>

definition write_frame :: "frame \<Rightarrow> nat \<Rightarrow> u8 list" where
  "write_frame f n = take n (fr_buf f)"

definition nop_handle :: "frame \<Rightarrow> u8 list list" where
  "nop_handle f = [write_frame f (fr_len f)]"

text \<open>\<open>FrameCmp\<close>: lower priority, sequence numbers compared around the circle of 32 bits.\<close>

definition frame_cmp :: "frame \<Rightarrow> frame \<Rightarrow> bool" where
  "frame_cmp l r =
    (if fr_seq l > fr_seq r then fr_seq l - fr_seq r < 4294967295 div 2
     else \<not> fr_seq r - fr_seq l < 4294967295 div 2)"

record delim_frag =
  df_max_q :: nat
  df_max_ms :: nat
  df_expected :: u32
  df_q :: "frame list"
  df_top_change :: nat
  df_last_top :: u32

definition new_delim_frag :: "nat \<Rightarrow> nat \<Rightarrow> nat \<Rightarrow> delim_frag" where
  "new_delim_frag max_q max_ms now =
    \<lparr>df_max_q = max_q, df_max_ms = max_ms, df_expected = 0, df_q = [], df_top_change = now, df_last_top = - 1\<rparr>"

abbreviation top_seq :: "frame list \<Rightarrow> nat" where
  "top_seq q \<equiv> fr_seq (pq_top frame_cmp q)"

text \<open>The loop that writes every frame that is due.\<close>

function drain :: "frame list \<Rightarrow> u32 \<Rightarrow> u8 list list \<times> frame list \<times> u32" where
  "drain q e =
    (if q \<noteq> [] \<and> top_seq q = unat e then
       (let f = pq_top frame_cmp q; (out, q', e') = drain (pq_pop frame_cmp q) (e + 1)
        in (write_frame f (fr_len f - 10) # out, q', e'))
     else ([], q, e))"
  by auto
termination by (relation "measure (\<lambda>(q, e). length q)") (auto simp: length_pq_pop)

declare drain.simps [simp del]

text \<open>The handler posted on the strand. \<open>SeqMaxTms\<close> in nanoseconds does not overflow here.\<close>

definition delim_post :: "nat \<times> nat \<Rightarrow> frame \<Rightarrow> delim_frag \<Rightarrow> u8 list list \<times> delim_frag" where
  "delim_post t f s =
    (let q = pq_push f (df_q s);
         s1 = (if top_seq q \<noteq> unat (df_last_top s)
           then s\<lparr>df_top_change := fst t, df_last_top := of_nat (top_seq q)\<rparr> else s);
         e = (if top_seq q \<noteq> unat (df_expected s) then
                let top_latency = snd t - df_top_change s1
                in if length q > df_max_q s then of_nat (top_seq q)
                   else if top_latency > df_max_ms s * 1000000 then of_nat (top_seq q)
                   else df_expected s
              else df_expected s);
         (out, q', e') = drain q e
     in (out, s1\<lparr>df_q := q', df_expected := e'\<rparr>))"

definition delim_handle :: "nat \<times> nat \<Rightarrow> frame \<Rightarrow> delim_frag \<Rightarrow> u8 list list \<times> delim_frag" where
  "delim_handle t f s =
    (if fr_flow f \<noteq> 1 \<or> fr_len f < 10 then ([write_frame f (fr_len f)], s) else delim_post t f s)"

fun delim_handle_all :: "((nat \<times> nat) \<times> frame) list \<Rightarrow> delim_frag \<Rightarrow> u8 list list \<times> delim_frag" where
  "delim_handle_all [] s = ([], s)"
| "delim_handle_all ((t, f) # fs) s =
    (case delim_handle t f s of (out, s1) \<Rightarrow> case delim_handle_all fs s1 of (outs, s2) \<Rightarrow> (out @ outs, s2))"

section \<open>The circle of sequence numbers\<close>

lemma unat_add_offset:
  fixes e :: u32
  assumes "d < 2 ^ 32"
  shows "unat (e + of_nat d) = (if unat e + d < 4294967296 then unat e + d else unat e + d - 4294967296)"
proof -
  have "unat (of_nat d :: u32) = d" using assms by (simp add: unat_of_nat)
  moreover have "unat e < 4294967296" using unsigned_less [of e] by simp
  ultimately show ?thesis
    using assms by (simp add: unat_word_ariths(1) mod_if)
qed

text \<open>Within half the circle the comparison is the order of the positions.\<close>

lemma frame_cmp_window:
  fixes e :: u32
  assumes "fr_seq x = unat (e + of_nat i)" "fr_seq y = unat (e + of_nat j)" "i < j" "j - i < 2147483647"
  shows "frame_cmp y x \<and> \<not> frame_cmp x y"
proof -
  have "e + of_nat j = (e + of_nat i) + of_nat (j - i)"
    using assms(3) by (simp add: add.assoc flip: of_nat_add)
  then have "fr_seq y = (if fr_seq x + (j - i) < 4294967296 then fr_seq x + (j - i) else fr_seq x + (j - i) - 4294967296)"
    using unat_add_offset [of "j - i" "e + of_nat i"] assms by simp
  then show ?thesis using assms(3,4) by (auto simp: frame_cmp_def split: if_splits)
qed

lemma seq_distinct:
  fixes e :: u32
  assumes "i \<le> j" "j - i < 2 ^ 32" "unat (e + of_nat i) = unat (e + of_nat j)"
  shows "i = j"
proof -
  have "e + of_nat j = (e + of_nat i) + of_nat (j - i)"
    using assms(1) by (simp add: add.assoc flip: of_nat_add)
  then show ?thesis
    using unat_add_offset [of "j - i" "e + of_nat i"] assms by (auto split: if_splits)
qed

section \<open>A window of frames\<close>

text \<open>Frames numbered from the sequence number \<open>e\<close> on, in half the circle.\<close>

definition numbered :: "u32 \<Rightarrow> nat \<Rightarrow> (nat \<Rightarrow> frame) \<Rightarrow> bool" where
  "numbered e n F \<longleftrightarrow> n \<le> 2147483647 \<and> (\<forall>i < n. fr_seq (F i) = unat (e + of_nat i))"

lemma numbered_cmp:
  assumes "numbered e n F" "i < n" "j < n" "i \<noteq> j"
  shows "frame_cmp (F j) (F i) \<longleftrightarrow> i < j"
proof -
  have seq: "fr_seq (F i) = unat (e + of_nat i)" "fr_seq (F j) = unat (e + of_nat j)" "n \<le> 2147483647"
    using assms by (simp_all add: numbered_def)
  show ?thesis
  proof (cases "i < j")
    case True
    then have "j - i < 2147483647" using seq(3) assms(3) by linarith
    then show ?thesis using frame_cmp_window [OF seq(1,2)] True by simp
  next
    case False
    then have "j < i" "i - j < 2147483647" using seq(3) assms(2,4) by linarith+
    then show ?thesis using frame_cmp_window [OF seq(2,1)] by simp
  qed
qed

lemma numbered_inj: "numbered e n F \<Longrightarrow> inj_on F {..<n}"
proof (intro inj_onI, rule ccontr)
  fix i j assume "numbered e n F" "i \<in> {..<n}" "j \<in> {..<n}" "F i = F j" "i \<noteq> j"
  then show False
    using numbered_cmp [of e n F i j] numbered_cmp [of e n F j i] by (cases i j rule: linorder_cases) auto
qed

lemma numbered_due:
  assumes "numbered e n F" "i < n" "k \<le> n"
  shows "fr_seq (F i) = unat (e + of_nat k) \<longleftrightarrow> i = k"
proof -
  have seq: "fr_seq (F i) = unat (e + of_nat i)" "n \<le> 2147483647" using assms by (simp_all add: numbered_def)
  have "k - i < 2 ^ 32" "i - k < 2 ^ 32" using seq(2) assms(2,3) by simp_all
  then show ?thesis
    using seq_distinct [of i k e] seq_distinct [of k i e] seq(1) by (cases "i \<le> k") auto
qed

lemma indexed_arrive:
  assumes "numbered e n F" "pq.indexed frame_cmp F S q" "S \<subseteq> {..<n}" "p < n" "p \<notin> S"
  shows "pq.indexed frame_cmp F (insert p S) (pq_push (F p) q)"
proof (rule pq.indexed_push [OF assms(2,5)])
  show "inj_on F (insert p S)"
    using numbered_inj [OF assms(1)] by (rule inj_on_subset) (use assms in auto)
  fix j assume "j \<in> S"
  then show "(frame_cmp (F j) (F p) \<longleftrightarrow> p < j) \<and> (frame_cmp (F p) (F j) \<longleftrightarrow> j < p)"
    using numbered_cmp [OF assms(1), of p j] numbered_cmp [OF assms(1), of j p] assms(3-5) by blast
qed

abbreviation payload :: "frame \<Rightarrow> u8 list" where
  "payload f \<equiv> write_frame f (fr_len f - 10)"

lemma drain_indexed:
  assumes "numbered e n F" "pq.indexed frame_cmp F S q" "S \<subseteq> {k..<n}" "k \<le> n"
  shows "\<exists>m q'. drain q (e + of_nat k) = (map (\<lambda>i. payload (F i)) [k..<m], q', e + of_nat m)
    \<and> k \<le> m \<and> m \<le> n \<and> {k..<m} \<subseteq> S \<and> m \<notin> S \<and> pq.indexed frame_cmp F (S - {k..<m}) q'"
  using assms(2-)
proof (induction "n - k" arbitrary: k S q)
  case 0
  then have "S = {}" by auto
  then have "q = []" using 0 Nil_indexed by blast
  then show ?case using 0 \<open>S = {}\<close> by (intro exI [of _ k] exI [of _ q]) (simp add: drain.simps)
next
  case (Suc d)
  have fin: "finite S" using Suc.prems(2) finite_subset by blast
  show ?case
  proof (cases "k \<in> S")
    case True
    have min: "Min S = k" using Suc.prems(2) fin True by (intro Min_eqI) auto
    have top: "pq_top frame_cmp q = F k"
      using pq.indexed_top [OF Suc.prems(1)] True min by auto
    have popped: "pq.indexed frame_cmp F (S - {k}) (pq_pop frame_cmp q)"
      using pq.indexed_pop [OF Suc.prems(1)] True min by auto
    have le: "d = n - Suc k" "S - {k} \<subseteq> {Suc k..<n}" "Suc k \<le> n" using Suc.prems(2) Suc.hyps(2) by auto
    obtain m q' where m: "drain (pq_pop frame_cmp q) (e + of_nat (Suc k)) =
        (map (\<lambda>i. payload (F i)) [Suc k..<m], q', e + of_nat m)"
      "Suc k \<le> m" "m \<le> n" "{Suc k..<m} \<subseteq> S - {k}" "m \<notin> S - {k}"
      "pq.indexed frame_cmp F (S - {k} - {Suc k..<m}) q'"
      using Suc.hyps(1) [of "Suc k", OF _ popped] le by blast
    have "q \<noteq> []" "fr_seq (F k) = unat (e + of_nat k)"
      using True Nil_indexed [OF Suc.prems(1)] numbered_due [OF assms(1), of k k] Suc.prems(2) by auto
    moreover have "e + of_nat k + 1 = e + of_nat (Suc k)" by simp
    note due = m(1) [folded this]
    ultimately have "drain q (e + of_nat k) = (map (\<lambda>i. payload (F i)) [k..<m], q', e + of_nat m)"
      using m(2) top by (subst drain.simps) (simp add: upt_conv_Cons due Let_def)
    moreover have "{k..<m} = insert k {Suc k..<m}" using m(2) by auto
    then have "S - {k} - {Suc k..<m} = S - {k..<m}" "{k..<m} \<subseteq> S" "m \<notin> S"
      using m(2,4,5) True by auto
    ultimately show ?thesis using m by (intro exI [of _ m] exI [of _ q']) auto
  next
    case False
    have "\<not> (q \<noteq> [] \<and> top_seq q = unat (e + of_nat k))"
    proof
      assume due: "q \<noteq> [] \<and> top_seq q = unat (e + of_nat k)"
      then have ne: "S \<noteq> {}" using Nil_indexed [OF Suc.prems(1)] by blast
      then have "Min S \<in> S" using fin by simp
      then show False
        using due False pq.indexed_top [OF Suc.prems(1) ne] numbered_due [OF assms(1), of "Min S" k] Suc.prems(2,3)
        by auto
    qed
    then have "drain q (e + of_nat k) = ([], q, e + of_nat k)"
      by (subst drain.simps) (simp only: if_False)
    then show ?thesis using False Suc.prems by (intro exI [of _ k] exI [of _ q]) simp
  qed
qed

section \<open>A run over a window\<close>

text \<open>The top last seen has been written: it is behind the number \<open>e\<close> that is due.\<close>

definition behind :: "u32 \<Rightarrow> delim_frag \<Rightarrow> bool" where
  "behind e s \<longleftrightarrow> (\<exists>j. 0 < j \<and> j \<le> 2147483647 \<and> df_last_top s = e - of_nat j)"

lemma behind_other:
  assumes "behind e s" "i < 2147483647"
  shows "e + of_nat i \<noteq> df_last_top s"
proof
  obtain j where j: "0 < j" "j \<le> 2147483647" "df_last_top s = e - of_nat j" using assms(1) by (auto simp: behind_def)
  assume "e + of_nat i = df_last_top s"
  then have "(of_nat (i + j) :: u32) = 0" using j(3) by (simp add: algebra_simps)
  then have "2 ^ 32 dvd i + j" by (simp add: word_of_nat_eq_0_iff del: of_nat_add)
  then show False using j(1,2) assms(2) by (auto dest: dvd_imp_le)
qed

lemma behind_written: "df_last_top s = e + of_nat i \<Longrightarrow> i < n \<Longrightarrow> n \<le> 2147483647 \<Longrightarrow> behind (e + of_nat n) s"
  unfolding behind_def by (intro exI [of _ "n - i"]) (auto simp: of_nat_diff)

text \<open>Nothing waits, and the next number is \<open>e\<close>; no matter since when.\<close>

definition delim_idle :: "u32 \<Rightarrow> delim_frag \<Rightarrow> bool" where
  "delim_idle e s \<longleftrightarrow> df_q s = [] \<and> df_expected s = e \<and> behind e s"

lemma new_delim_idle: "delim_idle 0 (new_delim_frag m k now)"
  unfolding delim_idle_def behind_def by (intro conjI exI [of _ "1 :: nat"]) (simp_all add: new_delim_frag_def)

text \<open>The state after the frames in \<open>P\<close> have arrived: the first \<open>k\<close> are written, the others wait. The first arrival
  changes the top, and so restarts the time of the top.\<close>

definition window_state :: "u32 \<Rightarrow> (nat \<Rightarrow> frame) \<Rightarrow> nat set \<Rightarrow> nat \<Rightarrow> nat \<Rightarrow> delim_frag \<Rightarrow> bool" where
  "window_state e F P k t0 s \<longleftrightarrow> {..<k} \<subseteq> P \<and> k \<notin> P \<and> df_expected s = e + of_nat k
    \<and> pq.indexed frame_cmp F (P - {..<k}) (df_q s)
    \<and> (if P = {} then behind e s else t0 \<le> df_top_change s \<and> df_last_top s \<in> (\<lambda>i. e + of_nat i) ` P)"

lemma window_start: "delim_idle e s \<Longrightarrow> window_state e F {} 0 t0 s"
  by (simp add: window_state_def delim_idle_def pq.indexed_empty)

text \<open>Frames the handler queues.\<close>

definition framed :: "nat \<Rightarrow> (nat \<Rightarrow> frame) \<Rightarrow> bool" where
  "framed n F \<longleftrightarrow> (\<forall>i < n. fr_flow (F i) = 1 \<and> 10 \<le> fr_len (F i))"

text \<open>While the queue is within its limit and the clock within its time, the next expected number moves
  only by writing.\<close>

lemma delim_post_patient:
  assumes "length (df_q s) < df_max_q s \<or> top_seq (pq_push f (df_q s)) = unat (df_expected s)"
    and "t0 \<le> df_top_change s \<or> top_seq (pq_push f (df_q s)) \<noteq> unat (df_last_top s)"
    and "t0 \<le> fst t" "snd t \<le> t0 + df_max_ms s * 1000000"
  shows "\<exists>s1. t0 \<le> df_top_change s1 \<and> df_max_q s1 = df_max_q s \<and> df_max_ms s1 = df_max_ms s
    \<and> df_last_top s1 = of_nat (top_seq (pq_push f (df_q s)))
    \<and> delim_post t f s = (case drain (pq_push f (df_q s)) (df_expected s) of
      (out, q', e') \<Rightarrow> (out, s1\<lparr>df_q := q', df_expected := e'\<rparr>))"
proof -
  let ?q = "pq_push f (df_q s)"
  let ?s1 = "if top_seq ?q \<noteq> unat (df_last_top s)
    then s\<lparr>df_top_change := fst t, df_last_top := of_nat (top_seq ?q)\<rparr> else s"
  have "t0 \<le> df_top_change ?s1" using assms(2,3) by auto
  moreover from this have "\<not> df_max_ms s * 1000000 < snd t - df_top_change ?s1" using assms(4) by linarith
  moreover have "length ?q = Suc (length (df_q s))" by (simp add: pq_push_def)
  ultimately show ?thesis
    using assms(1) by (intro exI [of _ ?s1]) (auto simp: delim_post_def Let_def split: prod.splits)
qed

lemma window_step:
  assumes F: "numbered e n F" "framed n F" and s: "window_state e F P k t0 s" and P: "P \<subseteq> {..<n}"
    and p: "p < n" "p \<notin> P" and q: "card P < df_max_q s \<or> p = k"
    and t: "t0 \<le> fst t" "snd t \<le> t0 + df_max_ms s * 1000000"
  shows "\<exists>m s'. delim_handle t (F p) s = (map (\<lambda>i. payload (F i)) [k..<m], s') \<and> k \<le> m
    \<and> window_state e F (insert p P) m t0 s' \<and> df_max_q s' = df_max_q s \<and> df_max_ms s' = df_max_ms s"
proof -
  have st: "{..<k} \<subseteq> P" "k \<notin> P" "df_expected s = e + of_nat k"
    "pq.indexed frame_cmp F (P - {..<k}) (df_q s)"
    "if P = {} then behind e s else t0 \<le> df_top_change s \<and> df_last_top s \<in> (\<lambda>i. e + of_nat i) ` P"
    using s by (auto simp: window_state_def)
  have fin: "finite P" using P finite_subset by blast
  have kp: "k \<le> p" using st(1) p(2) by (meson lessThan_iff not_less subsetD)
  have "k \<le> n" using kp p(1) by linarith
  define S where "S = insert p (P - {..<k})"
  have S: "S \<subseteq> {k..<n}" using P p(1) kp unfolding S_def by auto
  have arrived: "pq.indexed frame_cmp F S (pq_push (F p) (df_q s))"
    unfolding S_def using indexed_arrive [OF F(1) st(4)] P p by auto
  have Min: "Min S \<in> S" using finite_subset [OF S] by (intro Min_in) (auto simp: S_def)
  then have "Min S < n" "S \<noteq> {}" using S by auto
  then have top: "top_seq (pq_push (F p) (df_q s)) = unat (e + of_nat (Min S))" "Min S < n"
    using pq.indexed_top [OF arrived] F(1) by (simp_all add: numbered_def)
  have "n \<le> 2147483647" using F(1) by (simp add: numbered_def)
  then have time: "t0 \<le> df_top_change s \<or> top_seq (pq_push (F p) (df_q s)) \<noteq> unat (df_last_top s)"
    using st(5) behind_other [of e s "Min S"] top by (cases "P = {}") (auto simp: word_unat_eq_iff)
  have "length (df_q s) < df_max_q s \<or> top_seq (pq_push (F p) (df_q s)) = unat (df_expected s)"
  proof (cases "p = k")
    case True
    then have "Min S = k" using S finite_subset [OF S] by (intro Min_eqI) (auto simp: S_def)
    moreover have "S \<noteq> {}" by (simp add: S_def)
    ultimately show ?thesis
      using pq.indexed_top [OF arrived] numbered_due [OF F(1), of k k] st(3) p True by simp
  next
    case False
    have "length (df_q s) = card (P - {..<k})" using length_indexed st(4) by blast
    also have "\<dots> \<le> card P" using fin by (intro card_mono) auto
    finally show ?thesis using q False by simp
  qed
  from delim_post_patient [OF this time t] obtain s1 where s1: "t0 \<le> df_top_change s1"
    "df_max_q s1 = df_max_q s" "df_max_ms s1 = df_max_ms s"
    "df_last_top s1 = of_nat (top_seq (pq_push (F p) (df_q s)))"
    "delim_post t (F p) s = (case drain (pq_push (F p) (df_q s)) (df_expected s) of
      (out, q', e') \<Rightarrow> (out, s1\<lparr>df_q := q', df_expected := e'\<rparr>))" by blast
  obtain m q' where m: "drain (pq_push (F p) (df_q s)) (e + of_nat k) =
      (map (\<lambda>i. payload (F i)) [k..<m], q', e + of_nat m)"
    "k \<le> m" "{k..<m} \<subseteq> S" "m \<notin> S" "pq.indexed frame_cmp F (S - {k..<m}) q'"
    using drain_indexed [OF F(1) arrived S \<open>k \<le> n\<close>] by blast
  have "{..<m} = {..<k} \<union> {k..<m}" using m(2) by auto
  then have rest: "S - {k..<m} = insert p P - {..<m}" "{..<m} \<subseteq> insert p P" "m \<notin> insert p P"
    using m(2-4) st(1) kp unfolding S_def by auto
  have "delim_handle t (F p) s = delim_post t (F p) s"
    using F(2) p(1) by (simp add: delim_handle_def framed_def leD)
  moreover have "df_last_top s1 = e + of_nat (Min S)" "Min S \<in> insert p P"
    using s1(4) top(1) Min by (auto simp: S_def)
  ultimately show ?thesis
    using s1 m(1,2,5) st(3) rest
    by (intro exI [of _ m] exI [of _ "s1\<lparr>df_q := q', df_expected := e + of_nat m\<rparr>"])
      (simp add: window_state_def image_eqI [of _ _ "Min S"] del: insert_iff image_insert)
qed

text \<open>The queue reaches its limit only with the frame that is due.\<close>

lemma last_missing:
  assumes "P \<subseteq> {..<n}" "{..<k} \<subseteq> P" "k \<notin> P" "p < n" "p \<notin> P" "n \<le> q + 1"
  shows "card P < q \<or> p = k"
proof (cases "p = k")
  case False
  have "{..<k} \<subseteq> {..<n}" using assms(1,2) by (rule order_trans [rotated])
  then have "k \<le> n" by (simp only: lessThan_subset_iff)
  moreover have "k \<noteq> n" using assms(2,4,5) by auto
  ultimately have "P \<subseteq> {..<n} - {p, k}" "{p, k} \<subseteq> {..<n}" using assms by auto
  then have "card P \<le> n - card {p, k}"
    using card_mono [of "{..<n} - {p, k}" P] card_Diff_subset [of "{p, k}" "{..<n}"] by simp
  moreover have "card {p, k} = 2" using False by simp
  moreover have "2 \<le> n" using \<open>{p, k} \<subseteq> {..<n}\<close> False by auto
  ultimately have "card P < q" using assms(6) by linarith
  then show ?thesis ..
qed simp

lemma window_run:
  assumes F: "numbered e n F" "framed n F"
    and "window_state e F P k t0 s" "P \<subseteq> {..<n}" "distinct (map snd ps)" "set (map snd ps) \<inter> P = {}"
    and "P \<union> set (map snd ps) = {..<n}" "n \<le> df_max_q s + 1"
    and "list_all (\<lambda>(t, p). t0 \<le> fst t \<and> snd t \<le> t0 + df_max_ms s * 1000000) ps"
  shows "\<exists>s'. delim_handle_all (map (\<lambda>(t, p). (t, F p)) ps) s = (map (\<lambda>i. payload (F i)) [k..<n], s')
    \<and> delim_idle (e + of_nat n) s'"
  using assms(3-)
proof (induction ps arbitrary: s P k)
  case Nil
  then have "P = {..<n}" by simp
  moreover have "{..<k} \<subseteq> P" "k \<notin> P" using Nil.prems(1) by (auto simp: window_state_def)
  ultimately have "k = n" by (metis lessThan_iff lessThan_subset_iff not_less order_antisym)
  then have "pq.indexed frame_cmp F {} (df_q s)" "df_expected s = e + of_nat n"
    using Nil.prems(1) \<open>P = {..<n}\<close> by (simp_all add: window_state_def)
  moreover have "behind (e + of_nat n) s"
  proof (cases "n = 0")
    case True
    then show ?thesis using Nil.prems(1) \<open>P = {..<n}\<close> by (simp add: window_state_def)
  next
    case False
    then obtain i where "i < n" "df_last_top s = e + of_nat i"
      using Nil.prems(1) \<open>P = {..<n}\<close> by (auto simp: window_state_def lessThan_empty_iff)
    moreover have "n \<le> 2147483647" using F(1) by (simp add: numbered_def)
    ultimately show ?thesis by (intro behind_written)
  qed
  ultimately show ?case using \<open>k = n\<close> Nil_indexed by (intro exI [of _ s]) (auto simp: delim_idle_def)
next
  case (Cons tp ps)
  obtain t p where tp: "tp = (t, p)" by (cases tp)
  have p: "p < n" "p \<notin> P" "distinct (map snd ps)" "p \<notin> set (map snd ps)"
    using Cons.prems(3-5) by (auto simp: tp)
  have "{..<k} \<subseteq> P" "k \<notin> P" using Cons.prems(1) by (auto simp: window_state_def)
  then have q: "card P < df_max_q s \<or> p = k" using last_missing Cons.prems(2,6) p(1,2) by blast
  have now: "t0 \<le> fst t" "snd t \<le> t0 + df_max_ms s * 1000000" using Cons.prems(7) by (simp_all add: tp)
  obtain m s1 where m: "delim_handle t (F p) s = (map (\<lambda>i. payload (F i)) [k..<m], s1)" "k \<le> m"
    "window_state e F (insert p P) m t0 s1" "df_max_q s1 = df_max_q s" "df_max_ms s1 = df_max_ms s"
    using window_step [OF F Cons.prems(1,2) p(1,2) q now] by blast
  have sub: "insert p P \<subseteq> {..<n}" using Cons.prems(2) p(1) by simp
  then have "m \<le> n" using m(3) unfolding window_state_def
    by (meson lessThan_subset_iff order_trans)
  moreover have "\<exists>s'. delim_handle_all (map (\<lambda>(t, p). (t, F p)) ps) s1 = (map (\<lambda>i. payload (F i)) [m..<n], s')
      \<and> delim_idle (e + of_nat n) s'"
    using Cons.prems(4-7) p m(4,5) sub by (intro Cons.IH [OF m(3)]) (auto simp: tp)
  moreover have "[k..<n] = [k..<m] @ [m..<n]" using m(2) \<open>m \<le> n\<close> upt_add_eq_append [of k m "n - m"] by simp
  ultimately show ?case using m(1) by (auto simp: tp)
qed

section \<open>Frames in order\<close>

lemma delim_frames_handled:
  assumes "length ts = length xs" "df_q s = []" "df_expected s = e"
  shows "\<exists>s'. delim_handle_all (zip ts (delim_frames d e xs)) s = (xs, s') \<and> df_q s' = []
    \<and> df_expected s' = e + of_nat (length xs)"
  using assms
proof (induction xs arbitrary: ts s e)
  case (Cons x xs)
  let ?f = "(mk_frame (length x + 10) True True 1 (unat e))\<lparr>fr_buf := x @ trailer d e\<rparr>"
  obtain t ts' where ts: "ts = t # ts'" "length ts' = length xs" using Cons.prems(1) by (cases ts) auto
  have sel: "fr_flow ?f = 1" "fr_len ?f = length x + 10" "fr_seq ?f = unat e"
    "fr_buf ?f = x @ trailer d e" by (simp_all add: mk_frame_def)
  have top: "pq_push ?f [] = [?f]" "pq_top frame_cmp [?f] = ?f" "pq_pop frame_cmp [?f] = []"
    by (simp_all add: pq_push_def pq_top_def pq_pop_def)
  have due: "drain [?f] e = ([x], [], e + 1)"
    using sel by (subst drain.simps, subst drain.simps) (simp add: top write_frame_def)
  obtain s1 where s1: "delim_handle t ?f s = ([x], s1)" "df_q s1 = []" "df_expected s1 = e + 1"
    using Cons.prems(2,3) sel due
    by (auto simp: delim_handle_def delim_post_def Let_def top)
  show ?case
    using Cons.IH [OF ts(2) s1(2,3)] s1(1) by (auto simp: ts(1) add.assoc)
qed simp

section \<open>A late frame\<close>

lemma late_step:
  assumes F: "numbered e n F" "framed n F" and S: "pq.indexed frame_cmp F S (df_q s)" "S \<subseteq> {..<n}"
    and p: "p < n" "p \<notin> S" "0 \<in> insert p S" and d: "df_expected s = e + of_nat d" "0 < d" "d \<le> n"
    and q: "card S < df_max_q s"
    and t: "t0 \<le> df_top_change s" "t0 \<le> fst t" "snd t \<le> t0 + df_max_ms s * 1000000"
  shows "\<exists>s'. delim_handle t (F p) s = ([], s') \<and> pq.indexed frame_cmp F (insert p S) (df_q s')
    \<and> df_expected s' = df_expected s \<and> df_max_q s' = df_max_q s \<and> df_max_ms s' = df_max_ms s
    \<and> t0 \<le> df_top_change s'"
proof -
  let ?q = "pq_push (F p) (df_q s)"
  have arrived: "pq.indexed frame_cmp F (insert p S) ?q" by (rule indexed_arrive [OF F(1) S p(1,2)])
  have "finite (insert p S)" using S(2) finite_subset by auto
  then have "Min (insert p S) = 0" using p(3) by (intro Min_eqI) auto
  then have "pq_top frame_cmp ?q = F 0" using pq.indexed_top [OF arrived] by simp
  then have "top_seq ?q \<noteq> unat (df_expected s)"
    using numbered_due [OF F(1), of 0 d] d p(1) by simp
  then have "drain ?q (df_expected s) = ([], ?q, df_expected s)" by (subst drain.simps) simp
  moreover have "length (df_q s) < df_max_q s" using length_indexed [OF S(1)] q by simp
  ultimately show ?thesis
    using delim_post_patient [of s "F p" t0 t] t arrived F(2) p(1)
    by (auto simp: delim_handle_def framed_def leD)
qed

lemma late_run:
  assumes F: "numbered e n F" "framed n F"
    and "pq.indexed frame_cmp F S (df_q s)" "S \<subseteq> {..<n}" "distinct (map snd ps)" "set (map snd ps) \<subseteq> {..<n} - S"
    and "0 \<in> S \<or> (\<exists>t. ps \<noteq> [] \<and> hd ps = (t, 0))" "df_expected s = e + of_nat d" "0 < d" "d \<le> n"
    and "card S + length ps \<le> df_max_q s" "t0 \<le> df_top_change s"
    and "list_all (\<lambda>(t, p). t0 \<le> fst t \<and> snd t \<le> t0 + df_max_ms s * 1000000) ps"
  shows "\<exists>s'. delim_handle_all (map (\<lambda>(t, p). (t, F p)) ps) s = ([], s') \<and> df_expected s' = df_expected s"
  using assms(3-)
proof (induction ps arbitrary: s S)
  case (Cons tp ps)
  obtain t p where tp: "tp = (t, p)" by (cases tp)
  have p: "p < n" "p \<notin> S" "0 \<in> insert p S" "card S < df_max_q s"
    "t0 \<le> fst t" "snd t \<le> t0 + df_max_ms s * 1000000"
    using Cons.prems by (auto simp: tp)
  obtain s1 where s1: "delim_handle t (F p) s = ([], s1)" "pq.indexed frame_cmp F (insert p S) (df_q s1)"
    "df_expected s1 = df_expected s" "df_max_q s1 = df_max_q s" "df_max_ms s1 = df_max_ms s"
    "t0 \<le> df_top_change s1"
    using late_step [OF F Cons.prems(1,2) p(1-3) Cons.prems(6-8) p(4) Cons.prems(10) p(5,6)] by blast
  have "card (insert p S) + length ps \<le> df_max_q s1"
    using Cons.prems(9) s1(4) p(2) finite_subset [OF Cons.prems(2)] by simp
  then have "\<exists>s'. delim_handle_all (map (\<lambda>(t, p). (t, F p)) ps) s1 = ([], s') \<and> df_expected s' = df_expected s1"
    using Cons.prems p s1 by (intro Cons.IH [OF s1(2)]) (auto simp: tp)
  then show ?case using s1(1,3) by (auto simp: tp)
qed simp

section \<open>Properties\<close>

text \<open>Three frames and a fresh handler, for the witnesses.\<close>

definition demo_frame :: "nat \<Rightarrow> frame" where
  "demo_frame i = (mk_frame 11 True True 1 i)\<lparr>fr_buf := replicate 11 (of_nat i)\<rparr>"

lemma demo_frames: "numbered 0 3 demo_frame" "framed 3 demo_frame"
  by (auto simp: numbered_def framed_def demo_frame_def mk_frame_def unat_of_nat)

text \<open>
  C13. The reordering queue restores order: when the queue is idle, for however long, then whatever the order in which
  the frames of a window arrive whose sequence numbers follow the last one written, all of them are written, each
  once, in the order of their numbers and without their trailers, across the wrap of the 32-bit counter too,
  provided the window is not larger than \<open>SeqMaxQ + 1\<close> and than half the circle of numbers, its frames are those of the
  delimiter (with a trailer), and they arrive within \<open>SeqMaxTms\<close> of one another.
  Then the queue is idle again, and the next window may come at any time; a new queue is idle.
\<close>

theorem delim_reorder_window:
  assumes "numbered e n F" "framed n F" "delim_idle e s"
    and "distinct (map snd ps)" "set (map snd ps) = {..<n}" "n \<le> df_max_q s + 1"
    and "list_all (\<lambda>(t, p). t0 \<le> fst t \<and> snd t \<le> t0 + df_max_ms s * 1000000) ps"
  shows "(\<exists>s'. delim_handle_all (map (\<lambda>(t, p). (t, F p)) ps) s =
      (map (\<lambda>i. take (fr_len (F i) - 10) (fr_buf (F i))) [0..<n], s') \<and> delim_idle (e + of_nat n) s')
    \<and> delim_idle 0 (new_delim_frag m k now)"
  using window_run [OF assms(1,2) window_start [OF assms(3), of F t0], of ps] assms(4-) new_delim_idle
  by (simp add: write_frame_def)

text \<open>A window that comes a minute after the queue was made.\<close>

theorem delim_reorder_window_witness:
  "\<exists>s'. delim_handle_all (map (\<lambda>(t, p). (t, demo_frame p))
      [((60000000000, 60000000000), 2), ((60000000001, 60000000001), 0), ((60000000002, 60000000003), 1)])
      (new_delim_frag 2 5000 0) =
      (map (\<lambda>i. take (fr_len (demo_frame i) - 10) (fr_buf (demo_frame i))) [0..<3], s')
    \<and> delim_idle (0 + of_nat 3) s'"
  by (rule delim_reorder_window [OF demo_frames new_delim_idle, where ?t0.0 = 60000000000, THEN conjunct1])
    (auto simp: new_delim_frag_def)

text \<open>
  One late frame stops the flow: a frame whose number is behind the next expected one goes to the
  top of the queue and stays there, so that the frames that follow, although they are the very ones that
  are due, are held back, until the queue is over its limit or the time is up (the handler then
  continues from the late frame's number).
\<close>

theorem delim_late_frame_blocks:
  assumes "numbered e n F" "framed n F" "df_q s = []" "df_expected s = e + of_nat d" "0 < d" "d \<le> n"
    and "distinct (map snd ps)" "set (map snd ps) \<subseteq> {d..<n}" "length ps < df_max_q s"
    and "list_all (\<lambda>(t, p). df_top_change s \<le> fst t
      \<and> snd t \<le> df_top_change s + df_max_ms s * 1000000) ((t0, 0) # ps)"
  shows "\<exists>s'. delim_handle_all (map (\<lambda>(t, p). (t, F p)) ((t0, 0) # ps)) s = ([], s')
    \<and> df_expected s' = df_expected s"
  using assms(3-) by (intro late_run [OF assms(1,2), of "{}"]) (auto simp: pq.indexed_empty)

theorem delim_late_frame_blocks_witness:
  "\<exists>s'. delim_handle_all (map (\<lambda>(t, p). (t, demo_frame p)) (((0, 0), 0) # [((1, 1), 1), ((2, 2), 2)]))
      ((new_delim_frag 100 5000 0)\<lparr>df_expected := 0 + of_nat 1\<rparr>) = ([], s')
    \<and> df_expected s' = df_expected ((new_delim_frag 100 5000 0)\<lparr>df_expected := 0 + of_nat 1\<rparr>)"
  by (rule delim_late_frame_blocks [where d = 1 and n = 3 and e = 0]) (use demo_frames in \<open>auto simp: new_delim_frag_def\<close>)

end
