(* ===== verification/DNP3Frag.thy ===== *)
theory DNP3Frag
  imports DelimFrag DNP3Frame
begin

text \<open>
  The fragment handler of DNP3, \<open>src/src/ProtoConv/DNP3FragHandler.h\<close> and \<open>.cpp\<close>: per flow (the pair
  of link addresses) a queue of transport fragments that is written out when the set from FIR to FIN
  is complete. The strand of a flow runs its handlers one after another in the order of the frames,
  so a run is a list of frames; what the handlers of different flows write is kept apart, since
  their strands are independent.
\<close>

section \<open>State\<close>

text \<open>\<open>FragCmp\<close>: lower priority. FIR comes first, FIN last, the others by sequence number around the
  circle of 64.\<close>

definition frag_cmp :: "frame \<Rightarrow> frame \<Rightarrow> bool" where
  "frag_cmp l r =
    (if fr_fir r then True
     else if fr_fir l then False
     else if fr_fin r then False
     else if fr_fin l then True
     else if fr_seq l > fr_seq r then fr_seq l - fr_seq r < size_sub (fr_seq r + 64) (fr_seq l)
     else \<not> fr_seq r - fr_seq l < size_sub (fr_seq l + 64) (fr_seq r))"

record tx_flow =
  tf_frag_q :: "frame list"
  tf_next_frame :: "frame option"
  tf_has_seq :: "u8 set"
  tf_has_fin :: bool
  tf_has_fir :: bool
  tf_fin_seq :: u8
  tf_fir_seq :: u8

definition new_tx_flow :: tx_flow where
  "new_tx_flow = \<lparr>tf_frag_q = [], tf_next_frame = None, tf_has_seq = {}, tf_has_fin = False,
    tf_has_fir = False, tf_fin_seq = 0, tf_fir_seq = 0\<rparr>"

section \<open>Operations\<close>

function flush_queue :: "frame list \<Rightarrow> u8 list list" where
  "flush_queue q =
    (if q = [] then []
     else (let f = pq_top frag_cmp q in write_frame f (fr_len f) # flush_queue (pq_pop frag_cmp q)))"
  by auto
termination by (relation "measure length") (auto simp: length_pq_pop)

declare flush_queue.simps [simp del]

definition flush :: "tx_flow \<Rightarrow> u8 list list \<times> tx_flow" where
  "flush s =
    (flush_queue (tf_frag_q s)
       @ (case tf_next_frame s of None \<Rightarrow> [] | Some f \<Rightarrow> [write_frame f (fr_len f)]),
     s\<lparr>tf_frag_q := [], tf_has_fin := False, tf_has_fir := False, tf_has_seq := {}, tf_next_frame := None\<rparr>)"

text \<open>The fragment branch: a duplicate closes the set, then the fragment is queued, and a complete set is
  written.\<close>

definition duplicate :: "frame \<Rightarrow> tx_flow \<Rightarrow> bool" where
  "duplicate f s \<longleftrightarrow> tf_has_fir s \<and> fr_fir f \<or> tf_has_fin s \<and> fr_fin f \<or> of_nat (fr_seq f) \<in> tf_has_seq s"

definition queue_fragment :: "frame \<Rightarrow> tx_flow \<Rightarrow> tx_flow" where
  "queue_fragment f s =
    (let s1 = (if fr_fin f then s\<lparr>tf_has_fin := True, tf_fin_seq := of_nat (fr_seq f)\<rparr> else s);
         s2 = (if fr_fir f then s1\<lparr>tf_has_fir := True, tf_fir_seq := of_nat (fr_seq f)\<rparr> else s1)
     in s2\<lparr>tf_has_seq := insert (of_nat (fr_seq f)) (tf_has_seq s2), tf_frag_q := pq_push f (tf_frag_q s2)\<rparr>)"

definition complete :: "tx_flow \<Rightarrow> bool" where
  "complete s \<longleftrightarrow> tf_has_fir s \<and> tf_has_fin s
    \<and> size_sub (unat (tf_fir_seq s) + length (tf_frag_q s)) 1 mod 64 = unat (tf_fin_seq s)"

definition handle_fragment :: "frame \<Rightarrow> tx_flow \<Rightarrow> u8 list list \<times> tx_flow" where
  "handle_fragment f s =
    (let (out1, s1) = (if duplicate f s then flush s else ([], s));
         s2 = queue_fragment f s1;
         (out2, s3) = (if complete s2 then flush s2 else ([], s2))
     in (out1 @ out2, s3))"

definition handle_whole :: "frame \<Rightarrow> tx_flow \<Rightarrow> u8 list list \<times> tx_flow" where
  "handle_whole f s =
    (if tf_next_frame s \<noteq> None then
       (let (out, s1) = flush s in (out @ [write_frame f (fr_len f)], s1))
     else if tf_frag_q s \<noteq> [] then ([], s\<lparr>tf_next_frame := Some f\<rparr>)
     else ([write_frame f (fr_len f)], s))"

definition flow_handle :: "frame \<Rightarrow> tx_flow \<Rightarrow> u8 list list \<times> tx_flow" where
  "flow_handle f s = (if is_fragment f then handle_fragment f s else handle_whole f s)"

definition dnp3_handle :: "frame \<Rightarrow> (u64 \<rightharpoonup> tx_flow) \<Rightarrow> u8 list list \<times> (u64 \<rightharpoonup> tx_flow)" where
  "dnp3_handle f flows =
    (if fr_flow f = 0 then ([write_frame f (fr_len f)], flows)
     else
       let s = (case flows (fr_flow f) of None \<Rightarrow> new_tx_flow | Some s \<Rightarrow> s);
           (out, s') = flow_handle f s
       in (out, flows(fr_flow f \<mapsto> s')))"

text \<open>A run, each write with the flow of the frame it came with.\<close>

fun dnp3_handle_all :: "frame list \<Rightarrow> (u64 \<rightharpoonup> tx_flow) \<Rightarrow> (u64 \<times> u8 list) list \<times> (u64 \<rightharpoonup> tx_flow)" where
  "dnp3_handle_all [] flows = ([], flows)"
| "dnp3_handle_all (f # fs) flows =
    (case dnp3_handle f flows of (out, flows1) \<Rightarrow>
     case dnp3_handle_all fs flows1 of (outs, flows2) \<Rightarrow> (map (Pair (fr_flow f)) out @ outs, flows2))"

definition flow_writes :: "u64 \<Rightarrow> (u64 \<times> u8 list) list \<Rightarrow> u8 list list" where
  "flow_writes x ws = map snd (filter (\<lambda>w. fst w = x) ws)"

section \<open>Flows are independent\<close>

fun flow_handle_all :: "frame list \<Rightarrow> tx_flow \<Rightarrow> u8 list list \<times> tx_flow" where
  "flow_handle_all [] s = ([], s)"
| "flow_handle_all (f # fs) s =
    (case flow_handle f s of (out, s1) \<Rightarrow> case flow_handle_all fs s1 of (outs, s2) \<Rightarrow> (out @ outs, s2))"

definition flow_state :: "u64 \<Rightarrow> (u64 \<rightharpoonup> tx_flow) \<Rightarrow> tx_flow" where
  "flow_state x flows = (case flows x of None \<Rightarrow> new_tx_flow | Some s \<Rightarrow> s)"

lemma flow_writes_append: "flow_writes x (ws @ ws') = flow_writes x ws @ flow_writes x ws'"
  by (simp add: flow_writes_def)

lemma flow_writes_Pair: "flow_writes x (map (Pair y) out) = (if x = y then out else [])"
  by (simp add: flow_writes_def filter_map o_def)

lemma dnp3_handle_flow:
  assumes "x \<noteq> 0" "dnp3_handle f flows = (out, flows')"
  shows "if fr_flow f = x then flow_handle f (flow_state x flows) = (out, flow_state x flows')
    else flow_state x flows' = flow_state x flows"
  using assms by (auto simp: dnp3_handle_def flow_state_def Let_def split: if_splits prod.splits)

text \<open>What is written for a flow, and its state, depend on the frames of this flow only.\<close>

lemma dnp3_run_flow:
  assumes "x \<noteq> 0" "dnp3_handle_all fs flows = (ws, flows')"
  shows "flow_handle_all (filter (\<lambda>f. fr_flow f = x) fs) (flow_state x flows) =
    (flow_writes x ws, flow_state x flows')"
  using assms(2)
proof (induction fs arbitrary: flows ws)
  case Nil
  then show ?case by (auto simp: flow_writes_def)
next
  case (Cons f fs)
  obtain out flows1 outs where r: "dnp3_handle f flows = (out, flows1)"
    "dnp3_handle_all fs flows1 = (outs, flows')" "ws = map (Pair (fr_flow f)) out @ outs"
    using Cons.prems by (auto split: prod.splits)
  then show ?case
    using Cons.IH [OF r(2)] dnp3_handle_flow [OF assms(1) r(1)]
    by (auto simp: flow_writes_append flow_writes_Pair split: if_splits)
qed

section \<open>Nothing is lost\<close>

lemma flush_queue_mset:
  "mset (flush_queue q) = image_mset (\<lambda>f. write_frame f (fr_len f)) (mset q)"
proof (induction q rule: flush_queue.induct)
  case (1 q)
  show ?case
  proof (cases "q = []")
    case False
    then have "mset q = add_mset (pq_top frag_cmp q) (mset (pq_pop frag_cmp q))"
      by (simp add: pq_pop_def pq_top_in)
    then show ?thesis using 1 False by (subst flush_queue.simps) (simp add: Let_def)
  qed (simp add: flush_queue.simps)
qed

text \<open>The writes a flow still owes.\<close>

definition owed :: "tx_flow \<Rightarrow> u8 list multiset" where
  "owed s = image_mset (\<lambda>f. write_frame f (fr_len f)) (mset (tf_frag_q s))
    + (case tf_next_frame s of None \<Rightarrow> {#} | Some f \<Rightarrow> {#write_frame f (fr_len f)#})"

lemma flush_owed: "flush s = (out, s') \<Longrightarrow> mset out = owed s \<and> owed s' = {#}"
  by (auto simp: flush_def owed_def flush_queue_mset split: option.splits)

lemma queue_owed: "owed (queue_fragment f s) = add_mset (write_frame f (fr_len f)) (owed s)"
  by (auto simp: owed_def queue_fragment_def Let_def pq_push_def split: option.splits)

lemma flow_handle_owed:
  assumes "flow_handle f s = (out, s')"
  shows "mset out + owed s' = add_mset (write_frame f (fr_len f)) (owed s)"
proof (cases "is_fragment f")
  case True
  then show ?thesis using assms
    by (auto simp: flow_handle_def handle_fragment_def Let_def queue_owed dest!: flush_owed
        split: if_splits prod.splits)
next
  case False
  then show ?thesis using assms
    by (auto simp: flow_handle_def handle_whole_def owed_def dest!: flush_owed
        split: if_splits prod.splits option.splits)
qed

lemma flow_run_owed:
  "flow_handle_all fs s = (out, s') \<Longrightarrow>
    mset out + owed s' = image_mset (\<lambda>f. write_frame f (fr_len f)) (mset fs) + owed s"
proof (induction fs arbitrary: s out)
  case (Cons f fs)
  obtain o1 s1 o2 where r: "flow_handle f s = (o1, s1)" "flow_handle_all fs s1 = (o2, s')" "out = o1 @ o2"
    using Cons.prems by (auto split: prod.splits)
  then show ?case using Cons.IH [OF r(2)] flow_handle_owed [OF r(1)] by (simp add: add.assoc)
qed simp

section \<open>A set of fragments\<close>

text \<open>The fragments of one message: consecutive transport numbers from \<open>a\<close> on, modulo 64.\<close>

definition frag_set :: "nat \<Rightarrow> nat \<Rightarrow> (nat \<Rightarrow> frame) \<Rightarrow> bool" where
  "frag_set a n F \<longleftrightarrow> 2 \<le> n \<and> n \<le> 34
    \<and> (\<forall>i < n. fr_seq (F i) = (a + i) mod 64 \<and> (fr_fir (F i) \<longleftrightarrow> i = 0) \<and> (fr_fin (F i) \<longleftrightarrow> i = n - 1))"

lemma mod_64_add: "x < 64 \<Longrightarrow> d < 64 \<Longrightarrow> (x + d) mod 64 = (if x + d < 64 then x + d else x + d - (64 :: nat))"
  by (simp add: le_mod_geq)

lemma mod_64_step:
  "i \<le> j \<Longrightarrow> j - i < 64 \<Longrightarrow>
    (a + j) mod 64 = (if (a + i) mod 64 + (j - i) < 64 then (a + i) mod 64 + (j - i)
      else (a + i) mod 64 + (j - i) - (64 :: nat))"
proof -
  assume "i \<le> j" "j - i < 64"
  have "a + j = a + i + (j - i)" using \<open>i \<le> j\<close> by simp
  then have "(a + j) mod 64 = ((a + i) mod 64 + (j - i)) mod 64" by (simp only: mod_add_left_eq)
  also have "\<dots> = (if (a + i) mod 64 + (j - i) < 64 then (a + i) mod 64 + (j - i)
      else (a + i) mod 64 + (j - i) - 64)"
    using \<open>j - i < 64\<close> by (intro mod_64_add) simp_all
  finally show ?thesis .
qed

lemma frag_seq_inj:
  "i < j \<Longrightarrow> j < 64 \<Longrightarrow> (a + i) mod 64 \<noteq> (a + j) mod (64 :: nat)"
  using mod_64_step [of i j a] by (auto split: if_splits)

lemma circle_cmp:
  fixes l r :: nat
  assumes "l = (if r + d < 64 then r + d else r + d - 64)" "0 < d" "d < 32" "r < 64"
  shows "if l > r then l - r < r + 64 - l else \<not> r - l < l + 64 - r"
    "\<not> (if r > l then r - l < l + 64 - r else \<not> l - r < r + 64 - l)"
proof -
  consider "r + d < 64" "l = r + d" | "64 \<le> r + d" "l + 64 = r + d"
    using assms by (cases "r + d < 64") simp_all
  then have "(if l > r then l - r < r + 64 - l else \<not> r - l < l + 64 - r)
    \<and> \<not> (if r > l then r - l < l + 64 - r else \<not> l - r < r + 64 - l)"
  proof cases
    case 1
    then have "r < l" "\<not> l < r" "l - r = d" "r + 64 - l = 64 - d" using assms(2) by simp_all
    then show ?thesis using assms(3) by simp
  next
    case 2
    then have "l < r" "\<not> r < l" "r - l = 64 - d" "l + 64 - r = d" using assms(3) by simp_all
    then show ?thesis using assms(3) by simp
  qed
  then show "if l > r then l - r < r + 64 - l else \<not> r - l < l + 64 - r"
    "\<not> (if r > l then r - l < l + 64 - r else \<not> l - r < r + 64 - l)" by simp_all
qed

lemma frag_cmp_ahead:
  assumes "frag_set a n F" "i < j" "j < n"
  shows "frag_cmp (F j) (F i) \<and> \<not> frag_cmp (F i) (F j)"
proof -
  have F: "2 \<le> n" "n \<le> 34" "fr_seq (F i) = (a + i) mod 64" "fr_seq (F j) = (a + j) mod 64"
    "fr_fir (F i) \<longleftrightarrow> i = 0" "\<not> fr_fir (F j)" "\<not> fr_fin (F i)" "fr_fin (F j) \<longleftrightarrow> j = n - 1"
    using assms by (auto simp: frag_set_def)
  show ?thesis
  proof (cases "i = 0 \<or> j = n - 1")
    case True
    then show ?thesis using F by (auto simp: frag_cmp_def)
  next
    case False
    then have d: "j - i < 32" using F(1,2) assms(2,3) by linarith
    let ?l = "(a + j) mod 64" and ?r = "(a + i) mod 64"
    have "?l < 64" "?r < 64" by simp_all
    then have sub: "size_sub (?r + 64) ?l = ?r + 64 - ?l" "size_sub (?l + 64) ?r = ?l + 64 - ?r"
      by (intro size_sub_le; simp)+
    have "?l = (if ?r + (j - i) < 64 then ?r + (j - i) else ?r + (j - i) - 64)"
      using d assms(2) by (intro mod_64_step) simp_all
    note circle = circle_cmp [OF this _ d \<open>?r < 64\<close>]
    have "\<not> fr_fir (F i)" "\<not> fr_fin (F j)" using F(5,8) False by simp_all
    then show ?thesis
      using circle assms(2) F(6,7) unfolding frag_cmp_def F(3,4) sub by simp
  qed
qed

lemma frag_cmp_iff:
  assumes "frag_set a n F" "i < n" "j < n" "i \<noteq> j"
  shows "frag_cmp (F j) (F i) \<longleftrightarrow> i < j"
  using frag_cmp_ahead [OF assms(1), of i j] frag_cmp_ahead [OF assms(1), of j i] assms(2-)
  by (cases "i < j") auto

lemma frag_inj: "frag_set a n F \<Longrightarrow> inj_on F {..<n}"
proof (intro inj_onI, rule ccontr)
  fix i j assume "frag_set a n F" "i \<in> {..<n}" "j \<in> {..<n}" "F i = F j" "i \<noteq> j"
  then show False using frag_cmp_iff [of a n F i j] frag_cmp_iff [of a n F j i]
    by (cases i j rule: linorder_cases) auto
qed

lemma frag_arrive:
  assumes "frag_set a n F" "pq.indexed frag_cmp F S q" "S \<subseteq> {..<n}" "p < n" "p \<notin> S"
  shows "pq.indexed frag_cmp F (insert p S) (pq_push (F p) q)"
proof (rule pq.indexed_push [OF assms(2,5)])
  show "inj_on F (insert p S)"
    using frag_inj [OF assms(1)] by (rule inj_on_subset) (use assms in auto)
  fix j assume "j \<in> S"
  then show "(frag_cmp (F j) (F p) \<longleftrightarrow> p < j) \<and> (frag_cmp (F p) (F j) \<longleftrightarrow> j < p)"
    using frag_cmp_iff [OF assms(1), of p j] frag_cmp_iff [OF assms(1), of j p] assms(3-5) by blast
qed

lemma flush_queue_indexed:
  "pq.indexed frag_cmp F S q \<Longrightarrow>
    flush_queue q = map (\<lambda>i. write_frame (F i) (fr_len (F i))) (sorted_list_of_set S)"
proof (induction "card S" arbitrary: S q)
  case 0
  then have "S = {}" by (simp add: pq.indexed_def)
  then show ?case using Nil_indexed [OF 0(2)] by (simp add: flush_queue.simps)
next
  case (Suc c)
  have S: "finite S" "S \<noteq> {}" using Suc by (auto simp: pq.indexed_def)
  then have "card (S - {Min S}) = c" using Suc.hyps(2) by simp
  then have "flush_queue (pq_pop frag_cmp q) =
      map (\<lambda>i. write_frame (F i) (fr_len (F i))) (sorted_list_of_set (S - {Min S}))"
    using Suc.hyps(1) pq.indexed_pop [OF Suc.prems S(2)] by blast
  then show ?case
    using pq.indexed_top [OF Suc.prems S(2)] Nil_indexed [OF Suc.prems] S
    by (subst flush_queue.simps) (simp add: sorted_list_of_set_nonempty Let_def)
qed

definition tx_seq :: "nat \<Rightarrow> nat \<Rightarrow> u8" where
  "tx_seq a i = of_nat ((a + i) mod 64)"

lemma unat_tx_seq: "unat (tx_seq a i) = (a + i) mod 64"
proof -
  have "(a + i) mod 64 < 64" by simp
  then have "(a + i) mod 64 < 256" by linarith
  then show ?thesis by (simp add: tx_seq_def unat_of_nat)
qed

lemma tx_seq_inj: "i < 64 \<Longrightarrow> j < 64 \<Longrightarrow> tx_seq a i = tx_seq a j \<longleftrightarrow> i = j"
  using frag_seq_inj [of i j a] frag_seq_inj [of j i a] unat_tx_seq [of a i] unat_tx_seq [of a j]
  by (cases i j rule: linorder_cases) auto

lemma queue_fragment_sel [simp]:
  "tf_frag_q (queue_fragment f s) = pq_push f (tf_frag_q s)"
  "tf_next_frame (queue_fragment f s) = tf_next_frame s"
  "tf_has_seq (queue_fragment f s) = insert (of_nat (fr_seq f)) (tf_has_seq s)"
  "tf_has_fir (queue_fragment f s) \<longleftrightarrow> fr_fir f \<or> tf_has_fir s"
  "tf_has_fin (queue_fragment f s) \<longleftrightarrow> fr_fin f \<or> tf_has_fin s"
  "tf_fir_seq (queue_fragment f s) = (if fr_fir f then of_nat (fr_seq f) else tf_fir_seq s)"
  "tf_fin_seq (queue_fragment f s) = (if fr_fin f then of_nat (fr_seq f) else tf_fin_seq s)"
  by (simp_all add: queue_fragment_def Let_def)

text \<open>The state of a flow after the fragments in \<open>P\<close> have arrived.\<close>

definition collecting :: "nat \<Rightarrow> nat \<Rightarrow> (nat \<Rightarrow> frame) \<Rightarrow> nat set \<Rightarrow> tx_flow \<Rightarrow> bool" where
  "collecting a n F P s \<longleftrightarrow> pq.indexed frag_cmp F P (tf_frag_q s) \<and> P \<subseteq> {..<n}
    \<and> tf_next_frame s = None \<and> (tf_has_fir s \<longleftrightarrow> 0 \<in> P) \<and> (tf_has_fin s \<longleftrightarrow> n - 1 \<in> P)
    \<and> tf_has_seq s = tx_seq a ` P
    \<and> (0 \<in> P \<longrightarrow> tf_fir_seq s = tx_seq a 0) \<and> (n - 1 \<in> P \<longrightarrow> tf_fin_seq s = tx_seq a (n - 1))"

lemma collecting_step:
  assumes F: "frag_set a n F" and s: "collecting a n F P s" and p: "p < n" "p \<notin> P"
  shows "\<not> duplicate (F p) s" "collecting a n F (insert p P) (queue_fragment (F p) s)"
proof -
  have Fp: "of_nat (fr_seq (F p)) = tx_seq a p" "fr_fir (F p) \<longleftrightarrow> p = 0" "fr_fin (F p) \<longleftrightarrow> p = n - 1" "n \<le> 34"
    using F p(1) by (simp_all add: frag_set_def tx_seq_def)
  have P: "P \<subseteq> {..<n}" using s by (simp add: collecting_def)
  have "tx_seq a p \<notin> tx_seq a ` P"
  proof
    assume "tx_seq a p \<in> tx_seq a ` P"
    then obtain i where "i \<in> P" "tx_seq a p = tx_seq a i" by blast
    then show False using tx_seq_inj [of p i a] P p Fp(4) by auto
  qed
  then show "\<not> duplicate (F p) s"
    using s p Fp by (auto simp: duplicate_def collecting_def)
  have "pq.indexed frag_cmp F (insert p P) (pq_push (F p) (tf_frag_q s))"
    using frag_arrive [OF F _ P p] s by (simp add: collecting_def)
  then show "collecting a n F (insert p P) (queue_fragment (F p) s)"
    using s p Fp P by (auto simp: collecting_def)
qed

lemma collecting_complete:
  assumes F: "frag_set a n F" and s: "collecting a n F P s" and P: "P \<noteq> {}"
  shows "complete s \<longleftrightarrow> P = {..<n}"
proof -
  have n: "2 \<le> n" "n \<le> 34" using F by (simp_all add: frag_set_def)
  have sub: "P \<subseteq> {..<n}" and len: "length (tf_frag_q s) = card P"
    using s length_indexed by (auto simp: collecting_def)
  have fin: "finite P" using sub finite_subset by blast
  have card: "1 \<le> card P" "card P \<le> n"
    using P fin card_mono [OF _ sub] by (simp_all add: Suc_le_eq card_gt_0_iff)
  have sub_eq: "size_sub (a mod 64 + card P) 1 = a mod 64 + (card P - 1)"
  proof -
    have "a mod 64 < 64" by simp
    then have "a mod 64 + card P < 2 ^ 64" using card(2) n(2) by simp
    then have "size_sub (a mod 64 + card P) 1 = a mod 64 + card P - 1"
      using card(1) by (intro size_sub_le) linarith+
    then show ?thesis using card(1) by simp
  qed
  have mod_eq: "(a mod 64 + (card P - 1)) mod 64 = (a + (n - 1)) mod 64 \<longleftrightarrow> card P = n"
  proof (cases "card P = n")
    case False
    then have "card P - 1 < n - 1" "n - 1 < 64" using card n by linarith+
    then have "(a + (card P - 1)) mod 64 \<noteq> (a + (n - 1)) mod 64" by (rule frag_seq_inj)
    then show ?thesis using False by (simp only: mod_add_left_eq)
  qed (simp only: mod_add_left_eq simp_thms)
  have "complete s \<longleftrightarrow> 0 \<in> P \<and> n - 1 \<in> P \<and> card P = n"
  proof (cases "0 \<in> P \<and> n - 1 \<in> P")
    case True
    then have "unat (tf_fir_seq s) = a mod 64" "unat (tf_fin_seq s) = (a + (n - 1)) mod 64"
      "tf_has_fir s" "tf_has_fin s"
      using s unat_tx_seq [of a 0] unat_tx_seq [of a "n - 1"] by (simp_all add: collecting_def)
    then show ?thesis using True sub_eq mod_eq len by (simp add: complete_def)
  next
    case False
    then show ?thesis using s by (auto simp: complete_def collecting_def)
  qed
  also have "\<dots> \<longleftrightarrow> P = {..<n}"
    using sub n card_subset_eq [of "{..<n}" P] by auto
  finally show ?thesis .
qed

definition idle :: "tx_flow \<Rightarrow> bool" where
  "idle s \<longleftrightarrow> tf_frag_q s = [] \<and> tf_next_frame s = None \<and> tf_has_seq s = {}
    \<and> \<not> tf_has_fir s \<and> \<not> tf_has_fin s"

lemma idle_collecting: "idle s \<Longrightarrow> collecting a n F {} s"
  by (simp add: idle_def collecting_def pq.indexed_empty)

text \<open>A fragment of the set: held back while others are missing, and the last one releases them all.\<close>

lemma collecting_handle:
  assumes F: "frag_set a n F" and s: "collecting a n F P s" and p: "p < n" "p \<notin> P"
  shows "if insert p P = {..<n}
    then \<exists>s'. flow_handle (F p) s = (map (\<lambda>i. write_frame (F i) (fr_len (F i))) [0..<n], s') \<and> idle s'
    else \<exists>s'. flow_handle (F p) s = ([], s') \<and> collecting a n F (insert p P) s'"
proof -
  note step = collecting_step [OF F s p]
  have frag: "is_fragment (F p)" using F p(1) by (auto simp: frag_set_def is_fragment_def)
  have comp: "complete (queue_fragment (F p) s) \<longleftrightarrow> insert p P = {..<n}"
    by (rule collecting_complete [OF F step(2)]) simp
  show ?thesis
  proof (cases "insert p P = {..<n}")
    case True
    have all: "pq.indexed frag_cmp F {..<n} (tf_frag_q (queue_fragment (F p) s))"
      "tf_next_frame (queue_fragment (F p) s) = None"
      using step(2) unfolding collecting_def True by simp_all
    moreover have "flush_queue (tf_frag_q (queue_fragment (F p) s)) =
        map (\<lambda>i. write_frame (F i) (fr_len (F i))) [0..<n]"
      using flush_queue_indexed [OF all(1)] by (simp only: lessThan_atLeast0 sorted_list_of_set_range)
    ultimately show ?thesis
      using True comp step(1) frag
      by (auto simp: flow_handle_def handle_fragment_def Let_def flush_def idle_def)
  next
    case False
    then show ?thesis
      using comp step frag by (auto simp: flow_handle_def handle_fragment_def Let_def)
  qed
qed

lemma collecting_run:
  assumes "frag_set a n F" "collecting a n F P s" "distinct ps" "set ps \<inter> P = {}" "P \<union> set ps = {..<n}" "ps \<noteq> []"
  shows "\<exists>s'. flow_handle_all (map F ps) s = (map (\<lambda>i. write_frame (F i) (fr_len (F i))) [0..<n], s') \<and> idle s'"
  using assms(2-)
proof (induction ps arbitrary: s P)
  case (Cons p ps)
  have p: "p < n" "p \<notin> P" using Cons.prems(3,4) by auto
  show ?case
  proof (cases "ps = []")
    case True
    then have "insert p P = {..<n}" using Cons.prems(4) by auto
    then show ?thesis using collecting_handle [OF assms(1) Cons.prems(1) p] True by auto
  next
    case False
    then obtain i where "i \<in> set ps" by fastforce
    then have "i \<notin> insert p P" "i < n" using Cons.prems(2-4) by auto
    then have "insert p P \<noteq> {..<n}" by blast
    then obtain s1 where s1: "flow_handle (F p) s = ([], s1)" "collecting a n F (insert p P) s1"
      using collecting_handle [OF assms(1) Cons.prems(1) p] by auto
    have "\<exists>s'. flow_handle_all (map F ps) s1 =
        (map (\<lambda>i. write_frame (F i) (fr_len (F i))) [0..<n], s') \<and> idle s'"
    proof (rule Cons.IH [OF s1(2) _ _ _ False])
      show "distinct ps" "set ps \<inter> insert p P = {}" using Cons.prems(2,3) by auto
      show "insert p P \<union> set ps = {..<n}" using Cons.prems(4) by simp
    qed
    then show ?thesis using s1(1) by auto
  qed
qed simp

text \<open>As long as a fragment of the set is missing, nothing is written.\<close>

lemma collecting_waits:
  assumes "frag_set a n F" "collecting a n F P s" "distinct ps" "set ps \<inter> P = {}" "P \<union> set ps \<subset> {..<n}"
  shows "\<exists>s'. flow_handle_all (map F ps) s = ([], s')"
  using assms(2-)
proof (induction ps arbitrary: s P)
  case (Cons p ps)
  have p: "p < n" "p \<notin> P" "insert p P \<noteq> {..<n}" using Cons.prems(3,4) by auto
  obtain s1 where s1: "flow_handle (F p) s = ([], s1)" "collecting a n F (insert p P) s1"
    using collecting_handle [OF assms(1) Cons.prems(1) p(1,2)] p(3) by auto
  have "\<exists>s'. flow_handle_all (map F ps) s1 = ([], s')"
  proof (rule Cons.IH [OF s1(2)])
    show "distinct ps" "set ps \<inter> insert p P = {}" using Cons.prems(2,3) by auto
    show "insert p P \<union> set ps \<subset> {..<n}" using Cons.prems(4) by simp
  qed
  then show ?case using s1(1) by auto
qed simp

lemma collecting_prefix:
  assumes "frag_set a n F" "idle s" "distinct ps" "set ps = {..<n}"
  shows "\<exists>s'. flow_handle_all (map F (take j ps)) s =
    (if j < n then [] else map (\<lambda>i. write_frame (F i) (fr_len (F i))) [0..<n], s')"
proof (cases "j < n")
  case True
  have len: "length ps = n" using assms(3,4) distinct_card by fastforce
  have "card (set (take j ps)) = length (take j ps)" using assms(3) by (intro distinct_card) simp
  then have "card (set (take j ps)) \<noteq> card {..<n}" using True len by simp
  then have "set (take j ps) \<noteq> {..<n}" by metis
  then have "{} \<union> set (take j ps) \<subset> {..<n}" using assms(4) set_take_subset [of j ps] by auto
  then show ?thesis
    using collecting_waits [OF assms(1) idle_collecting [OF assms(2)], of "take j ps"] True assms(3) by simp
next
  case False
  have "0 < n" using assms(1) by (simp add: frag_set_def)
  moreover have "length ps = n" using assms(3,4) distinct_card by fastforce
  ultimately show ?thesis
    using collecting_run [OF assms(1) idle_collecting [OF assms(2)] assms(3)] assms(4) False by auto
qed

lemma filter_take: "filter p (take k xs) = take (length (filter p (take k xs))) (filter p xs)"
proof -
  have "filter p xs = filter p (take k xs) @ filter p (drop k xs)" by (simp flip: filter_append)
  then show ?thesis by (metis append_eq_conv_conj)
qed

section \<open>Properties\<close>

text \<open>Three fragments across the wrap of the transport number, for the witnesses.\<close>

definition demo_frag :: "nat \<Rightarrow> frame" where
  "demo_frag i = (mk_frame 12 (i = 0) (i = 2) 7 ((63 + i) mod 64))\<lparr>fr_buf := replicate 12 (of_nat i)\<rparr>"

lemma demo_frag_set: "frag_set 63 3 demo_frag"
  by (simp add: frag_set_def demo_frag_def mk_frame_def)

lemma demo_frag_flow: "fr_flow (demo_frag i) = 7"
  by (simp add: demo_frag_def mk_frame_def)

text \<open>
  C11. Transport fragments are put in order: when the fragments of one message, up to 34 of them with
  consecutive numbers modulo 64, arrive on an idle flow (of DNP3 frames, so not the flow 0) in any order and interleaved with frames of
  other flows, nothing of this flow is written before the set is complete (after the first \<open>k\<close> frames, for
  every \<open>k\<close>, as long as one of the fragments is missing), then the fragments are
  written from FIR to FIN, each once and whole, and the flow is idle again.
\<close>

theorem dnp3_fragments_ordered:
  assumes "x \<noteq> 0" "frag_set a n F" "distinct ps" "set ps = {..<n}"
    and "filter (\<lambda>f. fr_flow f = x) fs = map F ps" "idle (flow_state x flows)"
  shows "flow_writes x (fst (dnp3_handle_all fs flows)) = map (\<lambda>i. take (fr_len (F i)) (fr_buf (F i))) [0..<n]
    \<and> idle (flow_state x (snd (dnp3_handle_all fs flows)))
    \<and> (\<forall>k. flow_writes x (fst (dnp3_handle_all (take k fs) flows)) =
      (if length (filter (\<lambda>f. fr_flow f = x) (take k fs)) < n then []
       else map (\<lambda>i. take (fr_len (F i)) (fr_buf (F i))) [0..<n]))"
proof (intro conjI allI)
  have "0 \<in> set ps" using assms(2,4) by (simp add: frag_set_def)
  then have "ps \<noteq> []" by auto
  obtain ws flows' where r: "dnp3_handle_all fs flows = (ws, flows')" by fastforce
  note run = collecting_run [OF assms(2) idle_collecting [OF assms(6)] assms(3) _ _ \<open>ps \<noteq> []\<close>]
    dnp3_run_flow [OF assms(1) r]
  show "flow_writes x (fst (dnp3_handle_all fs flows)) = map (\<lambda>i. take (fr_len (F i)) (fr_buf (F i))) [0..<n]"
    using run by (auto simp: r assms(4,5) write_frame_def)
  show "idle (flow_state x (snd (dnp3_handle_all fs flows)))" using run by (auto simp: r assms(4,5))
  fix k
  let ?j = "length (filter (\<lambda>f. fr_flow f = x) (take k fs))"
  obtain ws' flows'' where r': "dnp3_handle_all (take k fs) flows = (ws', flows'')" by fastforce
  have "filter (\<lambda>f. fr_flow f = x) (take k fs) = map F (take ?j ps)"
    by (subst filter_take) (simp only: assms(5) take_map)
  then show "flow_writes x (fst (dnp3_handle_all (take k fs) flows)) =
      (if ?j < n then [] else map (\<lambda>i. take (fr_len (F i)) (fr_buf (F i))) [0..<n])"
    using collecting_prefix [OF assms(2,6,3,4), of ?j] dnp3_run_flow [OF assms(1) r']
    by (auto simp: r' write_frame_def)
qed

theorem dnp3_fragments_ordered_witness:
  "flow_writes 7 (fst (dnp3_handle_all [demo_frag 2, raw_frame 1, demo_frag 0, demo_frag 1] Map.empty)) =
      map (\<lambda>i. take (fr_len (demo_frag i)) (fr_buf (demo_frag i))) [0..<3]
    \<and> idle (flow_state 7 (snd (dnp3_handle_all [demo_frag 2, raw_frame 1, demo_frag 0, demo_frag 1] Map.empty)))
    \<and> (\<forall>k. flow_writes 7 (fst (dnp3_handle_all (take k [demo_frag 2, raw_frame 1, demo_frag 0, demo_frag 1]) Map.empty)) =
      (if length (filter (\<lambda>f. fr_flow f = 7) (take k [demo_frag 2, raw_frame 1, demo_frag 0, demo_frag 1])) < 3 then []
       else map (\<lambda>i. take (fr_len (demo_frag i)) (fr_buf (demo_frag i))) [0..<3]))"
proof (rule dnp3_fragments_ordered [where ps = "[2, 0, 1]", OF _ demo_frag_set])
  show "filter (\<lambda>f. fr_flow f = 7) [demo_frag 2, raw_frame 1, demo_frag 0, demo_frag 1] = map demo_frag [2, 0, 1]"
    by (simp add: demo_frag_flow)
  show "idle (flow_state 7 Map.empty)" by (simp add: flow_state_def idle_def new_tx_flow_def)
qed auto

text \<open>
  C32. The fragment handler neither loses nor duplicates: for every sequence of frames, whatever their
  flags, numbers and flows, what has been written for a flow together with what its queue and its
  saved frame still hold is exactly what has arrived for it.
\<close>

theorem dnp3_fragments_conserved:
  assumes "x \<noteq> 0"
  shows "mset (flow_writes x (fst (dnp3_handle_all fs flows))) + owed (flow_state x (snd (dnp3_handle_all fs flows)))
    = image_mset (\<lambda>f. take (fr_len f) (fr_buf f)) (mset (filter (\<lambda>f. fr_flow f = x) fs))
      + owed (flow_state x flows)"
proof -
  obtain ws flows' where r: "dnp3_handle_all fs flows = (ws, flows')" by fastforce
  show ?thesis using flow_run_owed [OF dnp3_run_flow [OF assms r]] by (simp add: r write_frame_def)
qed

theorem dnp3_fragments_conserved_witness:
  "mset (flow_writes 7 (fst (dnp3_handle_all [demo_frag 2] Map.empty)))
      + owed (flow_state 7 (snd (dnp3_handle_all [demo_frag 2] Map.empty)))
    = image_mset (\<lambda>f. take (fr_len f) (fr_buf f)) (mset (filter (\<lambda>f. fr_flow f = 7) [demo_frag 2]))
      + owed (flow_state 7 Map.empty)"
  by (rule dnp3_fragments_conserved) simp

end
