(* ===== verification/ProtoConv.thy ===== *)
theory ProtoConv
  imports CmdArgs SerialPorts DNP3Frag
begin

text \<open>
  The converter itself: the checks of \<open>src/src/ProtoConv/CmdArgs.h\<close> after parsing, the constructor of
  \<open>src/src/ProtoConv/ProtoConv.cpp\<close>, and its two data paths, from UDP to the stream (\<open>RcvUDP\<close>,
  \<open>RcvUDPHandler\<close>) and from the stream to UDP (\<open>RcvStreamHandler\<close> with the fragment handler behind it).
  Parameters stand for asio and the operating system: the address parser, opening a serial device,
  accepting an option; and for \<open>operator>>\<close> reading an \<open>uint32_t\<close> off a stream, which gives the value
  and the rest of the text.
\<close>

section \<open>Arguments\<close>

record conv_args =
  va_local_addr :: string
  va_local_port :: u16
  va_remote_addr :: string
  va_remote_port :: u16
  va_so_rcvbuf :: nat
  va_max_write_q :: nat
  va_delim :: u32
  va_seq_max_q :: nat
  va_seq_max_ms :: nat
  va_tcp_addr :: string
  va_tcp_is_client :: bool
  va_backoff_times :: string
  va_tcp_port :: u16
  va_serial_devices :: "string list"
  va_serial_bauds :: "nat list"
  va_serial_flow_ctl :: "string list"
  va_serial_char_sizes :: "nat list"
  va_serial_stop_bits :: "string list"
  va_protocol :: string
  va_protocol_set :: bool
  va_concurrency :: int

datatype conv_args_error =
    TcpAndSerial | NoStream | ProtocolAndDelim | InvalidConvLocal string | InvalidConvRemote string
  | InvalidTcpAddr string

definition check_conv_args :: "(string \<Rightarrow> 'a option) \<Rightarrow> conv_args \<Rightarrow> conv_args_error + unit" where
  "check_conv_args from_string a =
    (if va_tcp_addr a \<noteq> [] \<and> va_serial_devices a \<noteq> [] then Inl TcpAndSerial
     else if va_tcp_addr a = [] \<and> va_serial_devices a = [] then Inl NoStream
     else if va_delim a \<noteq> 0 \<and> va_protocol_set a then Inl ProtocolAndDelim
     else if from_string (va_local_addr a) = None then Inl (InvalidConvLocal (va_local_addr a))
     else if from_string (va_remote_addr a) = None then Inl (InvalidConvRemote (va_remote_addr a))
     else if va_tcp_addr a \<noteq> [] \<and> from_string (va_tcp_addr a) = None then Inl (InvalidTcpAddr (va_tcp_addr a))
     else Inr ())"

section \<open>Construction\<close>

text \<open>The frame checker with its fragment handler, and the stream.\<close>

datatype framing = DelimFraming u32 delim_frag | DNP3Framing "u64 \<rightharpoonup> tx_flow" | NullFraming

record backoff_times =
  bt_min_retry :: u32
  bt_max_retry :: u32
  bt_min_established :: u32

datatype stream =
    NoStreamHandler
  | TCPStream bool string u16 nat backoff_times
  | SerialStream "serial_settings list" serial_mgr

record proto_conv =
  pv_framing :: framing
  pv_stream :: stream
  pv_delim :: u32
  pv_delim_seq :: u32
  pv_stream_buf :: "u8 list"

datatype conv_error =
    BadConvLocal | BadConvRemote | UnknownProtocol string | BadBackoffTimes string | SerialError serial_error

definition select_framing :: "nat \<Rightarrow> conv_args \<Rightarrow> conv_error + framing" where
  "select_framing now a =
    (if va_delim a \<noteq> 0 then
       Inr (DelimFraming (va_delim a) (new_delim_frag (va_seq_max_q a) (va_seq_max_ms a) now))
     else if va_protocol a = ''DNP3'' then Inr (DNP3Framing Map.empty)
     else if va_protocol a = ''Null'' then Inr NullFraming
     else Inl (UnknownProtocol (va_protocol a)))"

definition read_backoff :: "(string \<Rightarrow> (u32 \<times> string) option) \<Rightarrow> string \<Rightarrow> backoff_times option" where
  "read_backoff read_u32 ss =
    Option.bind (read_u32 ss) (\<lambda>(backoff_min, ss).
    Option.bind (read_u32 ss) (\<lambda>(backoff_max, ss).
    Option.bind (read_u32 ss) (\<lambda>(estab_reset_min, _).
    Some \<lparr>bt_min_retry = backoff_min, bt_max_retry = backoff_max, bt_min_established = estab_reset_min\<rparr>)))"

text \<open>The four optional settings of the serial ports, each applied only when values were given.\<close>

definition serial_options :: "(u32 \<Rightarrow> bool) \<Rightarrow> conv_args \<Rightarrow> serial_settings list \<Rightarrow> serial_error + serial_settings list" where
  "serial_options char_size_ok a ps =
    (let opt = (\<lambda>given set r. case r of Inl e \<Rightarrow> Inl e | Inr ps \<Rightarrow> if given then set ps else Inr ps)
     in opt (va_serial_stop_bits a \<noteq> []) (set_stop_bits (va_serial_stop_bits a))
         (opt (va_serial_flow_ctl a \<noteq> []) (set_flow_control (va_serial_flow_ctl a))
         (opt (va_serial_char_sizes a \<noteq> []) (set_char_size char_size_ok (va_serial_char_sizes a))
         (opt (va_serial_bauds a \<noteq> []) (set_baud_rate (va_serial_bauds a)) (Inr ps)))))"

definition open_serial :: "(string \<Rightarrow> bool) \<Rightarrow> string list \<Rightarrow> serial_error + serial_settings list" where
  "open_serial open_ok devs =
    (case filter (\<lambda>d. \<not> open_ok d) devs of
       d # _ \<Rightarrow> Inl (OpenFailed d)
     | [] \<Rightarrow> Inr (replicate (length devs) default_settings))"

definition select_stream ::
  "(string \<Rightarrow> (u32 \<times> string) option) \<Rightarrow> (string \<Rightarrow> bool) \<Rightarrow> (u32 \<Rightarrow> bool) \<Rightarrow> conv_args \<Rightarrow> conv_error + stream" where
  "select_stream read_u32 open_ok char_size_ok a =
    (if va_tcp_addr a \<noteq> [] then
       (case read_backoff read_u32 (va_backoff_times a) of
          None \<Rightarrow> Inl (BadBackoffTimes (va_backoff_times a))
        | Some bt \<Rightarrow> Inr (TCPStream (\<not> va_tcp_is_client a) (va_tcp_addr a) (va_tcp_port a) (va_max_write_q a) bt))
     else if va_serial_devices a \<noteq> [] then
       (case open_serial open_ok (va_serial_devices a) of
          Inl e \<Rightarrow> Inl (SerialError e)
        | Inr ps \<Rightarrow>
            (case serial_options char_size_ok a ps of
               Inl e \<Rightarrow> Inl (SerialError e)
             | Inr ps' \<Rightarrow> Inr (SerialStream ps' (new_serial_mgr (length (va_serial_devices a)) (va_max_write_q a)))))
     else Inr NoStreamHandler)"

definition new_proto_conv ::
  "(string \<Rightarrow> 'a option) \<Rightarrow> (string \<Rightarrow> (u32 \<times> string) option) \<Rightarrow> (string \<Rightarrow> bool) \<Rightarrow> (u32 \<Rightarrow> bool) \<Rightarrow> nat
    \<Rightarrow> conv_args \<Rightarrow> conv_error + proto_conv" where
  "new_proto_conv from_string read_u32 open_ok char_size_ok now a =
    (if from_string (va_local_addr a) = None then Inl BadConvLocal
     else if from_string (va_remote_addr a) = None then Inl BadConvRemote
     else case select_framing now a of
       Inl e \<Rightarrow> Inl e
     | Inr fr \<Rightarrow>
         (case select_stream read_u32 open_ok char_size_ok a of
            Inl e \<Rightarrow> Inl e
          | Inr st \<Rightarrow> Inr \<lparr>pv_framing = fr, pv_stream = st, pv_delim = va_delim a, pv_delim_seq = 0,
              pv_stream_buf = []\<rparr>))"

section \<open>From UDP to the stream\<close>

text \<open>The receive buffers: one is taken or allocated for each receive, and comes back when its datagram
  has been processed.\<close>

definition rcv_udp :: "'b \<Rightarrow> 'b list \<Rightarrow> 'b \<times> 'b list" where
  "rcv_udp fresh rcv_buf_q = (let q = (if rcv_buf_q = [] then [fresh] else rcv_buf_q) in (hd q, tl q))"

definition rcv_udp_done :: "'b \<Rightarrow> 'b list \<Rightarrow> 'b list" where
  "rcv_udp_done b rcv_buf_q = rcv_buf_q @ [b]"

text \<open>The handler: an error is only logged. The result is what is passed to \<open>Write\<close> of the stream.\<close>

definition rcv_udp_handler :: "bool \<Rightarrow> u8 list \<Rightarrow> nat \<Rightarrow> proto_conv \<Rightarrow> u8 list \<times> proto_conv" where
  "rcv_udp_handler err buf n c =
    (let (data, seq) = add_delim (pv_delim c) (take n buf) (pv_delim_seq c) in (data, c\<lparr>pv_delim_seq := seq\<rparr>))"

fun rcv_udp_all :: "u8 list list \<Rightarrow> proto_conv \<Rightarrow> u8 list list \<times> proto_conv" where
  "rcv_udp_all [] c = ([], c)"
| "rcv_udp_all (d # ds) c =
    (case rcv_udp_handler False d (length d) c of (w, c1) \<Rightarrow>
     case rcv_udp_all ds c1 of (ws, c2) \<Rightarrow> (w # ws, c2))"

section \<open>From the stream to UDP\<close>

definition framer :: "framing \<Rightarrow> u8 list \<Rightarrow> frame" where
  "framer fr = (case fr of DelimFraming d _ \<Rightarrow> delim_check d | DNP3Framing _ \<Rightarrow> dnp3_check | NullFraming \<Rightarrow> null_check)"

definition handle_frame :: "nat \<times> nat \<Rightarrow> frame \<Rightarrow> framing \<Rightarrow> u8 list list \<times> framing" where
  "handle_frame t f fr =
    (case fr of
       DelimFraming d s \<Rightarrow> (case delim_handle t f s of (out, s') \<Rightarrow> (out, DelimFraming d s'))
     | DNP3Framing flows \<Rightarrow> (case dnp3_handle f flows of (out, flows') \<Rightarrow> (out, DNP3Framing flows'))
     | NullFraming \<Rightarrow> (nop_handle f, NullFraming))"

fun handle_frames :: "((nat \<times> nat) \<times> frame) list \<Rightarrow> framing \<Rightarrow> u8 list list \<times> framing" where
  "handle_frames [] fr = ([], fr)"
| "handle_frames ((t, f) # fs) fr =
    (case handle_frame t f fr of (out, fr1) \<Rightarrow> case handle_frames fs fr1 of (outs, fr2) \<Rightarrow> (out @ outs, fr2))"

text \<open>One read of the stream: \<open>clock\<close> gives the instants at which the frames are handled. The
  result is the datagrams sent.\<close>

definition rcv_stream_handler ::
  "(nat \<Rightarrow> nat \<times> nat) \<Rightarrow> u8 list \<Rightarrow> proto_conv \<Rightarrow> (u8 list list \<times> proto_conv) option" where
  "rcv_stream_handler clock data c =
    Option.bind (rcv_stream (framer (pv_framing c)) (pv_stream_buf c @ data)) (\<lambda>(fs, rest).
      let (out, fr) = handle_frames (zip (map clock [0..<length fs]) fs) (pv_framing c)
      in Some (out, c\<lparr>pv_framing := fr, pv_stream_buf := rest\<rparr>))"

fun rcv_stream_all ::
  "((nat \<Rightarrow> nat \<times> nat) \<times> u8 list) list \<Rightarrow> proto_conv \<Rightarrow> (u8 list list \<times> proto_conv) option" where
  "rcv_stream_all [] c = Some ([], c)"
| "rcv_stream_all ((clock, data) # reads) c =
    Option.bind (rcv_stream_handler clock data c) (\<lambda>(out, c1).
    Option.bind (rcv_stream_all reads c1) (\<lambda>(outs, c2). Some (out @ outs, c2)))"

section \<open>The data paths\<close>

lemma framer_le: "fr_len (framer fr buf) \<le> length buf"
  using delim.len_le dnp3.len_le null.len_le by (cases fr) (simp_all add: framer_def)

interpretation conv: frame_checker "framer fr" for fr
  by unfold_locales (rule framer_le)

lemma handle_frame_framer: "handle_frame t f fr = (out, fr') \<Longrightarrow> framer fr' = framer fr"
  by (auto simp: handle_frame_def framer_def split: framing.splits prod.splits)

lemma handle_frames_framer: "handle_frames fs fr = (out, fr') \<Longrightarrow> framer fr' = framer fr"
proof (induction fs fr arbitrary: out rule: handle_frames.induct)
  case (2 t f fs fr)
  obtain out1 fr1 outs where "handle_frame t f fr = (out1, fr1)" "handle_frames fs fr1 = (outs, fr')"
    using "2.prems" by (auto split: prod.splits)
  then show ?case using "2.IH" handle_frame_framer by metis
qed simp

lemma handle_frames_append:
  "handle_frames (xs @ ys) fr =
    (case handle_frames xs fr of (out, fr1) \<Rightarrow> case handle_frames ys fr1 of (outs, fr2) \<Rightarrow> (out @ outs, fr2))"
  by (induction xs fr rule: handle_frames.induct) (auto split: prod.splits)

text \<open>A run over many reads is a run of the frame handler over the frames of the whole stream, at some
  instants.\<close>

lemma rcv_stream_all_chunks:
  "\<exists>fs rest ts out fr. rcv_chunks (framer (pv_framing c)) (pv_stream_buf c) (map snd reads) = Some (fs, rest)
    \<and> length ts = length fs \<and> handle_frames (zip ts fs) (pv_framing c) = (out, fr)
    \<and> rcv_stream_all reads c = Some (out, c\<lparr>pv_framing := fr, pv_stream_buf := rest\<rparr>)"
proof (induction reads arbitrary: c)
  case Nil
  show ?case
    by (intro exI [of _ "[]"] exI [of _ "pv_stream_buf c"] exI [of _ "pv_framing c"]) simp
next
  case (Cons r reads)
  obtain clock data where r: "r = (clock, data)" by (cases r)
  obtain fs rest where fs: "rcv_stream (framer (pv_framing c)) (pv_stream_buf c @ data) = Some (fs, rest)"
    using conv.rcv_stream_total by blast
  define ts where "ts = map clock [0..<length fs]"
  obtain out fr where fr: "handle_frames (zip ts fs) (pv_framing c) = (out, fr)" by fastforce
  define c1 where "c1 = c\<lparr>pv_framing := fr, pv_stream_buf := rest\<rparr>"
  obtain gs rest' us outs fr' where IH:
    "rcv_chunks (framer (pv_framing c1)) (pv_stream_buf c1) (map snd reads) = Some (gs, rest')"
    "length us = length gs" "handle_frames (zip us gs) (pv_framing c1) = (outs, fr')"
    "rcv_stream_all reads c1 = Some (outs, c1\<lparr>pv_framing := fr', pv_stream_buf := rest'\<rparr>)"
    using Cons.IH [of c1] by blast
  have "framer (pv_framing c1) = framer (pv_framing c)"
    using handle_frames_framer [OF fr] by (simp add: c1_def)
  moreover have len: "length ts = length fs" by (simp add: ts_def)
  moreover have "handle_frames (zip (ts @ us) (fs @ gs)) (pv_framing c) = (out @ outs, fr')"
    using fr IH(3) len by (simp add: handle_frames_append c1_def)
  moreover have "rcv_stream_all (r # reads) c = Some (out @ outs, c\<lparr>pv_framing := fr', pv_stream_buf := rest'\<rparr>)"
    using fs fr IH(4) by (simp add: r rcv_stream_handler_def ts_def c1_def)
  ultimately show ?case
    using fs IH(1,2)
    by (intro exI [of _ "fs @ gs"] exI [of _ rest'] exI [of _ "ts @ us"] exI [of _ "out @ outs"] exI [of _ fr'])
      (simp add: r c1_def)
qed

lemma handle_frames_delim:
  "handle_frames fs (DelimFraming d s) = (case delim_handle_all fs s of (out, s') \<Rightarrow> (out, DelimFraming d s'))"
  by (induction fs s rule: delim_handle_all.induct) (auto simp: handle_frame_def split: prod.splits)

lemma rcv_udp_all_delim:
  "concat (fst (rcv_udp_all xs c)) = delim_run (pv_delim c) (pv_delim_seq c) xs"
proof (induction xs arbitrary: c)
  case (Cons x xs)
  obtain w seq where w: "add_delim (pv_delim c) x (pv_delim_seq c) = (w, seq)" by fastforce
  show ?case using Cons.IH [of "c\<lparr>pv_delim_seq := seq\<rparr>"] w
    by (cases "rcv_udp_all xs (c\<lparr>pv_delim_seq := seq\<rparr>)") (simp add: rcv_udp_handler_def)
qed simp

lemma new_proto_conv_delim:
  assumes "new_proto_conv from_string read_u32 open_ok char_size_ok now a = Inr c" "va_delim a \<noteq> 0"
  shows "pv_delim c = va_delim a" "pv_delim_seq c = 0" "pv_stream_buf c = []"
    "pv_framing c = DelimFraming (va_delim a) (new_delim_frag (va_seq_max_q a) (va_seq_max_ms a) now)"
  using assms by (auto simp: new_proto_conv_def select_framing_def split: if_splits sum.splits)

section \<open>What construction needs\<close>

lemma select_framing_iff:
  "(\<exists>fr. select_framing now a = Inr fr) \<longleftrightarrow>
    va_delim a \<noteq> 0 \<or> va_protocol a = ''DNP3'' \<or> va_protocol a = ''Null''"
  by (auto simp: select_framing_def)

lemma open_serial_iff:
  "open_serial open_ok devs =
    (if list_all open_ok devs then Inr (replicate (length devs) default_settings)
     else Inl (OpenFailed (hd (filter (\<lambda>d. \<not> open_ok d) devs))))"
  by (auto simp: open_serial_def filter_empty_conv list_all_iff split: list.split)

lemma serial_options_iff:
  "(\<exists>ps'. serial_options ok a ps = Inr ps') \<longleftrightarrow>
    length (va_serial_bauds a) \<in> {0, length ps} \<and> length (va_serial_char_sizes a) \<in> {0, length ps}
    \<and> list_all (\<lambda>cs. ok (of_nat cs)) (va_serial_char_sizes a)
    \<and> length (va_serial_flow_ctl a) \<in> {0, length ps} \<and> length (va_serial_stop_bits a) \<in> {0, length ps}"
  by (auto simp: serial_options_def Let_def set_baud_rate_def set_char_size_def set_flow_control_def
      set_stop_bits_def split: if_splits)

lemma select_stream_iff:
  "(\<exists>st. select_stream read_u32 open_ok char_size_ok a = Inr st) \<longleftrightarrow>
    (if va_tcp_addr a \<noteq> [] then read_backoff read_u32 (va_backoff_times a) \<noteq> None
     else va_serial_devices a = [] \<or> list_all open_ok (va_serial_devices a)
       \<and> (\<exists>ps'. serial_options char_size_ok a (replicate (length (va_serial_devices a)) default_settings) = Inr ps'))"
  by (auto simp: select_stream_def open_serial_iff split: option.splits sum.splits)

section \<open>Properties\<close>

definition demo_conv_args :: conv_args where
  "demo_conv_args =
    \<lparr>va_local_addr = ''l'', va_local_port = 1, va_remote_addr = ''r'', va_remote_port = 2, va_so_rcvbuf = 524288,
     va_max_write_q = 1024, va_delim = 7, va_seq_max_q = 100,
     va_seq_max_ms = 5000, va_tcp_addr = ''t'', va_tcp_is_client = True, va_backoff_times = ''b'',
     va_tcp_port = 9, va_serial_devices = [], va_serial_bauds = [], va_serial_flow_ctl = [],
     va_serial_char_sizes = [], va_serial_stop_bits = [], va_protocol = ''DNP3'', va_protocol_set = False, va_concurrency = 4\<rparr>"

definition demo_conv :: proto_conv where
  "demo_conv =
    \<lparr>pv_framing = DelimFraming 7 (new_delim_frag 100 5000 0),
     pv_stream = TCPStream False ''t'' 9 1024 \<lparr>bt_min_retry = 1, bt_max_retry = 1, bt_min_established = 1\<rparr>,
     pv_delim = 7, pv_delim_seq = 0, pv_stream_buf = []\<rparr>"

lemma demo_conv: "new_proto_conv Some (\<lambda>s. Some (1, s)) (\<lambda>d. True) (\<lambda>n. True) 0 demo_conv_args = Inr demo_conv"
  by (simp add: new_proto_conv_def select_framing_def select_stream_def read_backoff_def demo_conv_args_def
      demo_conv_def)

lemma delim_identity:
  assumes "new_proto_conv fs1 rd1 op1 cs1 now1 a = Inr c" "new_proto_conv fs2 rd2 op2 cs2 now2 b = Inr r"
    and "va_delim a = d" "va_delim b = d" "d \<noteq> 0" "clean_run d 0 xs"
    and "concat (map snd reads) = concat (fst (rcv_udp_all xs c))"
  shows "\<exists>r'. rcv_stream_all reads r = Some (xs, r')"
proof -
  have c: "pv_delim c = d" "pv_delim_seq c = 0"
    using new_proto_conv_delim [OF assms(1)] assms(3,5) by simp_all
  note r = new_proto_conv_delim [OF assms(2), unfolded assms(4), OF assms(5)]
  have "concat (map snd reads) = delim_run d 0 xs" using assms(7) rcv_udp_all_delim [of xs c] c by simp
  then have frames: "rcv_chunks (delim_check d) [] (map snd reads) = Some (delim_frames d 0 xs, [])"
    using delim.rcv_chunks_stream [OF delim.check_Nil, of d "map snd reads"] rcv_stream_delim_run [OF assms(5,6)]
    by simp
  obtain fs rest ts out fr where run:
    "rcv_chunks (framer (pv_framing r)) (pv_stream_buf r) (map snd reads) = Some (fs, rest)"
    "length ts = length fs" "handle_frames (zip ts fs) (pv_framing r) = (out, fr)"
    "rcv_stream_all reads r = Some (out, r\<lparr>pv_framing := fr, pv_stream_buf := rest\<rparr>)"
    using rcv_stream_all_chunks by blast
  have "fs = delim_frames d 0 xs" using run(1) frames r by (simp add: framer_def)
  moreover have "length (delim_frames d s xs) = length xs" for s by (induction xs arbitrary: s) simp_all
  ultimately have "out = xs"
    using run(2,3) r delim_frames_handled [of ts xs "new_delim_frag (va_seq_max_q b) (va_seq_max_ms b) now2" 0 d]
    by (auto simp: handle_frames_delim new_delim_frag_def)
  then show ?thesis using run(4) by blast
qed

text \<open>
  C4. Conversion with delimiters is the identity end to end: between two converters built with the
  same delimiter, whatever datagrams the first one receives, in whatever pieces the bytes it writes are
  read by the second one, and whenever that happens, the second one sends exactly these datagrams in
  this order, provided none is too long or contains a valid trailer of its own.
\<close>

theorem conv_delim_identity:
  assumes "new_proto_conv fs1 rd1 op1 cs1 now1 a = Inr c" "new_proto_conv fs2 rd2 op2 cs2 now2 b = Inr r"
    and "va_delim a = d" "va_delim b = d" "d \<noteq> 0" "clean_run d 0 xs"
    and "concat (map snd reads) = concat (fst (rcv_udp_all xs c))"
  shows "\<exists>r'. rcv_stream_all reads r = Some (xs, r')"
  by (rule delim_identity [OF assms])

theorem conv_delim_identity_witness:
  "\<exists>r'. rcv_stream_all [(\<lambda>i. (i, i), concat (fst (rcv_udp_all [[], []] demo_conv)))] demo_conv = Some ([[], []], r')"
  by (rule conv_delim_identity [OF demo_conv demo_conv, where d = 7]) (simp_all add: demo_conv_args_def clean_def)

text \<open>
  C33. The stream loop loses and repeats nothing, whatever arrives and whatever the framing: it ends on
  every buffer, the frames it hands over, framed or not, and the bytes it keeps are together the buffer,
  and every frame is non-empty and carries its own bytes.
\<close>

theorem conv_stream_lossless:
  "\<exists>fs rest. rcv_stream (framer fr) buf = Some (fs, rest) \<and> concat (map fr_buf fs) @ rest = buf
    \<and> list_all (\<lambda>f. fr_len f = length (fr_buf f) \<and> fr_len f \<noteq> 0) fs"
  using conv.rcv_stream_total [of fr buf] unfolding list_all_iff by blast

text \<open>
  Exactly these command lines make a converter: after the checks have passed, construction (up to
  binding the sockets and starting the ports, which the operating system decides) succeeds if and only if a delimiter is set or the protocol is known, the TCP backoff times can be read when TCP
  is used, and otherwise every serial device opens and every list of settings given has one valid value
  per device.
\<close>

theorem conv_construct_iff:
  assumes "check_conv_args from_string a = Inr ()"
  shows "(\<exists>c. new_proto_conv from_string read_u32 open_ok char_size_ok now a = Inr c) \<longleftrightarrow>
    (va_delim a \<noteq> 0 \<or> va_protocol a = ''DNP3'' \<or> va_protocol a = ''Null'')
    \<and> (if va_tcp_addr a \<noteq> [] then read_backoff read_u32 (va_backoff_times a) \<noteq> None
       else list_all open_ok (va_serial_devices a)
         \<and> length (va_serial_bauds a) \<in> {0, length (va_serial_devices a)}
         \<and> length (va_serial_char_sizes a) \<in> {0, length (va_serial_devices a)}
         \<and> list_all (\<lambda>cs. char_size_ok (of_nat cs)) (va_serial_char_sizes a)
         \<and> length (va_serial_flow_ctl a) \<in> {0, length (va_serial_devices a)}
         \<and> length (va_serial_stop_bits a) \<in> {0, length (va_serial_devices a)})"
proof -
  have addr: "from_string (va_local_addr a) \<noteq> None" "from_string (va_remote_addr a) \<noteq> None"
    "va_tcp_addr a = [] \<longrightarrow> va_serial_devices a \<noteq> []"
    using assms by (auto simp: check_conv_args_def split: if_splits)
  have "(\<exists>c. new_proto_conv from_string read_u32 open_ok char_size_ok now a = Inr c) \<longleftrightarrow>
      (\<exists>fr. select_framing now a = Inr fr) \<and> (\<exists>st. select_stream read_u32 open_ok char_size_ok a = Inr st)"
    using addr(1,2) by (auto simp: new_proto_conv_def split: sum.splits)
  then show ?thesis
    using addr(3) unfolding select_framing_iff select_stream_iff serial_options_iff length_replicate
    by (cases "va_tcp_addr a = []") simp_all
qed

theorem conv_construct_iff_witness:
  "\<exists>c. new_proto_conv Some (\<lambda>s. Some (1, s)) (\<lambda>d. True) (\<lambda>n. True) 0 demo_conv_args = Inr c"
  by (subst conv_construct_iff) (simp_all add: check_conv_args_def demo_conv_args_def read_backoff_def)

end
