(* ===== verification/TcpOrder.thy ===== *)
theory TcpOrder
  imports TcpRuns
begin

text \<open>
  The order of the bytes of \<open>TCPSocketManager\<close>'s write side: what is sent, being written and buffered is
  the stream of messages, in order, in runs without a manual close where a direct write that was cut
  short finds an empty queue and no connection completes during a write. The sources mark the second
  condition with a FIXME; without the first, messages are reordered, as the last property shows.
\<close>

section \<open>What is still to be sent\<close>

fun direct_bytes :: "operation \<Rightarrow> u8 list" where
  "direct_bytes (Write_one sock buf td) = buf"
| "direct_bytes _ = []"

definition direct_of :: "operation list \<Rightarrow> u8 list" where
  "direct_of ops = concat (map direct_bytes ops)"

lemma direct_of_simps [simp]:
  "direct_of [] = []" "direct_of (op # ops) = direct_bytes op @ direct_of ops"
  "direct_of (ops @ ops') = direct_of ops @ direct_of ops'"
  by (simp_all add: direct_of_def)

definition unsent :: "tcp \<Rightarrow> tcp_sys \<Rightarrow> u8 list" where
  "unsent s y = direct_of (sy_ops y) @ concat (ts_dispatch s) @ concat (ts_queue s)"

fun is_opening :: "operation \<Rightarrow> bool" where
  "is_opening (Connect _) = True"
| "is_opening (Accept _) = True"
| "is_opening _ = False"

fun is_direct :: "operation \<Rightarrow> bool" where
  "is_direct (Write_one _ _ _) = True"
| "is_direct _ = False"

fun op_sock :: "operation \<Rightarrow> sock option" where
  "op_sock (Write_one sock _ _) = Some sock"
| "op_sock (Write_many sock _ _) = Some sock"
| "op_sock (Throttle_wait sock) = Some sock"
| "op_sock _ = None"

text \<open>The steps allowed: no manual close, a direct write completes or finds the queue empty, and a
  connection completes only while no write is pending (or fails, or is redundant).\<close>

fun tidy :: "event \<Rightarrow> tcp_sys \<Rightarrow> bool" where
  "tidy (User User_close) y = False"
| "tidy (Complete w (Connect sock)) y = (w_err w \<or> ts_connected (sy_tcp y) \<or> \<not> ts_pending_write (sy_tcp y))"
| "tidy (Complete w (Accept sock)) y = (w_err w \<or> ts_connected (sy_tcp y) \<or> \<not> ts_pending_write (sy_tcp y))"
| "tidy (Complete w (Write_one sock buf td)) y = (w_written w = length buf \<or> ts_queue (sy_tcp y) = [])"
| "tidy _ y = True"

section \<open>The invariant\<close>

text \<open>The part that the handlers keep while a write completes, and the whole of it.\<close>

definition order_core :: "tcp_conf \<Rightarrow> tcp \<Rightarrow> tcp_sys \<Rightarrow> bool" where
  "order_core conf s y \<longleftrightarrow> subseq (sy_sent y @ unsent s y) (concat (sy_accepted y))
    \<and> (length (sy_accepted y) \<le> tc_buffer_limit conf \<longrightarrow> sy_sent y @ unsent s y = concat (sy_accepted y))
    \<and> length (ts_queue s) \<le> length (sy_accepted y)
    \<and> (ts_closed s \<longrightarrow> \<not> ts_connected s \<and> filter is_opening (sy_ops y) = [])
    \<and> (ts_connected s \<longrightarrow> ts_sock s \<noteq> None)
    \<and> Close \<notin> set (sy_posted y)"

definition order_inv :: "tcp_conf \<Rightarrow> tcp_sys \<Rightarrow> bool" where
  "order_inv conf y \<longleftrightarrow> order_core conf (sy_tcp y) y
    \<and> (ts_connected (sy_tcp y) \<and> \<not> ts_pending_write (sy_tcp y) \<longrightarrow>
        ts_queue (sy_tcp y) = [] \<and> ts_dispatch (sy_tcp y) = [])
    \<and> (\<forall>op \<in> set (sy_ops y). is_direct op \<longrightarrow> ts_dispatch (sy_tcp y) = [] \<and> sy_accepted y \<noteq> [])
    \<and> (\<forall>op \<in> set (sy_ops y). is_write op \<longrightarrow> ts_connected (sy_tcp y) \<longrightarrow> op_sock op = ts_sock (sy_tcp y))"

lemma order_inv_start: "order_inv conf (new_tcp_sys now)"
  by (simp add: order_inv_def order_core_def unsent_def new_tcp_sys_def new_tcp_def)

lemma direct_is_write: "is_direct op \<Longrightarrow> is_write op"
  by (cases op) auto

lemma direct_bytes_no: "\<not> is_write op \<Longrightarrow> direct_bytes op = []"
  by (cases op) auto

lemma concat_direct_no: "filter is_write ops = [] \<Longrightarrow> direct_of ops = []"
  by (auto simp: direct_of_def filter_empty_conv direct_bytes_no)

lemma subseq_concat: "subseq xs ys \<Longrightarrow> subseq (concat xs) (concat ys)"
  by (induction rule: list_emb.induct) (auto intro: list_emb_append_mono list_emb_append2)

text \<open>A handler that leaves the write side alone, connects nothing and starts opening only once the
  manual close is lifted.\<close>

definition quiet :: "tcp \<Rightarrow> tcp \<times> effect list \<Rightarrow> bool" where
  "quiet s r \<longleftrightarrow> write_idle s r
    \<and> (ts_connected (fst r) \<longrightarrow> ts_connected s \<and> ts_sock (fst r) = ts_sock s)
    \<and> (ts_closed (fst r) \<longrightarrow> ts_closed s \<and> filter is_opening (started (snd r)) = [])
    \<and> Close \<notin> set (posted (snd r))"

lemma concat_map_filter_no:
  "filter is_write xs = filter is_write ys \<Longrightarrow> direct_of xs = direct_of ys"
proof -
  have "direct_of zs = direct_of (filter is_write zs)" for zs
    by (induction zs) (auto simp: direct_bytes_no)
  then show "filter is_write xs = filter is_write ys \<Longrightarrow> ?thesis" by metis
qed

lemma order_inv_quiet:
  assumes inv: "order_inv conf y" and r: "quiet (sy_tcp y) r"
    and z: "set (sy_ops z) \<subseteq> set (sy_ops y)" "filter is_write (sy_ops z) = filter is_write (sy_ops y)"
      "set (sy_posted z) \<subseteq> set (sy_posted y)" "sy_sent z = sy_sent y" "sy_accepted z = sy_accepted y"
  shows "order_inv conf (absorb r z)"
proof -
  have frame: "write_idle (sy_tcp y) r" using r by (simp add: quiet_def)
  have "filter is_write (sy_ops z @ started (snd r)) = filter is_write (sy_ops y)"
    using frame z by (simp add: write_idle_def)
  then have un: "unsent (fst r) (absorb r z) = unsent (sy_tcp y) y"
    using frame concat_map_filter_no [of "sy_ops z @ started (snd r)" "sy_ops y"]
    by (simp add: unsent_def absorb_def write_idle_def)
  have nw: "is_write op \<Longrightarrow> op \<in> set (sy_ops z @ started (snd r)) \<Longrightarrow> op \<in> set (sy_ops y)" for op
    using frame z by (auto simp: write_idle_def filter_empty_conv)
  have op: "filter is_opening (sy_ops y) = [] \<Longrightarrow> filter is_opening (sy_ops z) = []"
    using z by (auto simp: filter_empty_conv)
  have core: "order_core conf (fst r) (absorb r z)"
    using inv r un z op unfolding order_inv_def order_core_def quiet_def write_idle_def
    by (auto simp: absorb_def)
  have "ts_connected (fst r) \<longrightarrow> ts_connected (sy_tcp y) \<and> ts_sock (fst r) = ts_sock (sy_tcp y)"
    using r by (simp add: quiet_def)
  then show ?thesis using inv core frame nw z direct_is_write
    unfolding order_inv_def write_idle_def by (simp add: absorb_def) blast
qed

section \<open>The handlers\<close>

text \<open>Continuing to write on the active connection.\<close>

lemma order_write_buffer:
  assumes "order_core conf s z" "\<not> ts_pending_write s" "ts_sock s = Some sock"
    and none: "filter is_write (sy_ops z) = []"
  shows "order_inv conf (absorb (write_buffer conf sock s) z)"
proof (cases "ts_queue s = [] \<and> ts_dispatch s = []")
  case True
  then have "write_buffer conf sock s = (s, [])" by (simp add: write_buffer_def)
  then show ?thesis using assms True
    by (auto simp: order_inv_def order_core_def unsent_def absorb_def filter_empty_conv dest: direct_is_write)
next
  case False
  then show ?thesis using assms
    by (auto simp: order_inv_def order_core_def unsent_def absorb_def write_buffer_def Let_def
        filter_empty_conv dest: direct_is_write)
qed

lemma order_check_last_write:
  assumes core: "order_core conf s z" and none: "filter is_write (sy_ops z) = []"
    and sock: "ts_connected s \<longrightarrow> ts_sock s = Some sock"
  shows "order_inv conf (absorb (check_last_write conf sock s) z)"
proof (cases "ts_connected s")
  case True
  let ?s = "s\<lparr>ts_pending_write := False\<rparr>"
  have "\<not> ts_closed s" using core True by (simp add: order_core_def)
  then have "check_last_write conf sock s = write_buffer conf sock ?s"
    using True sock by (simp add: check_last_write_def)
  moreover have "order_core conf ?s z" using core by (simp add: order_core_def unsent_def)
  ultimately show ?thesis using order_write_buffer [of conf ?s z sock] none sock True by simp
next
  case False
  then show ?thesis using core none
    by (auto simp: check_last_write_def order_inv_def order_core_def unsent_def absorb_def Let_def
        filter_empty_conv dest: direct_is_write)
qed

lemma order_throttle_check:
  assumes core: "order_core conf s z" and none: "filter is_write (sy_ops z) = []"
    and sock: "ts_connected s \<longrightarrow> ts_sock s = Some sock" and "ts_pending_write s"
  shows "order_inv conf (absorb (throttle_check_last_write conf sock td el s) z)"
proof (cases "must_wait td el")
  case True
  then show ?thesis using core none sock \<open>ts_pending_write s\<close>
    by (auto simp: throttle_check_last_write_def order_inv_def order_core_def unsent_def absorb_def
        filter_empty_conv dest: direct_is_write)
next
  case False
  then show ?thesis using order_check_last_write [OF core none sock] by (simp add: throttle_check_last_write_def)
qed

text \<open>The write handler: queue the message, or write it directly when nothing is buffered or pending.\<close>

lemma order_write_execute:
  assumes inv: "order_inv conf y" and w: "write_inv conf y"
    and z: "sy_ops z = ops" "filter is_write ops = filter is_write (sy_ops y)" "set ops \<subseteq> set (sy_ops y)"
      "sy_sent z = sy_sent y" "sy_accepted z = sy_accepted y @ [buf]" "set (sy_posted z) \<subseteq> set (sy_posted y)"
  shows "order_inv conf (absorb (write_execute conf buf (sy_tcp y)) z)"
proof -
  let ?s = "sy_tcp y" and ?q = "ts_queue (sy_tcp y)" and ?acc = "concat (sy_accepted y)"
  let ?old = "sy_sent y @ direct_of ops @ concat (ts_dispatch ?s)"
  have direct: "direct_of ops = direct_of (sy_ops y)"
    using z(2) by (rule concat_map_filter_no)
  have op: "filter is_opening (sy_ops y) = [] \<Longrightarrow> filter is_opening ops = []"
    using z(3) by (auto simp: filter_empty_conv)
  have sub: "subseq (?old @ concat ?q) ?acc" and
    eq: "length (sy_accepted y) \<le> tc_buffer_limit conf \<Longrightarrow> ?old @ concat ?q = ?acc"
    and len: "length ?q \<le> length (sy_accepted y)"
    using inv by (simp_all add: order_inv_def order_core_def unsent_def direct)
  show ?thesis
  proof (cases "\<not> ts_connected ?s \<or> ts_closed ?s \<or> ts_pending_write ?s")
    case True
    let ?q' = "enqueue (tc_buffer_limit conf) buf ?q"
    have "subseq (concat ?q') (concat ?q @ buf)"
      using subseq_concat [OF wq.push_subseq [of "tc_buffer_limit conf" buf ?q]] by simp
    then have "subseq (?old @ concat ?q') ((?old @ concat ?q) @ buf)"
      by (simp add: list_emb_append_mono)
    moreover have "subseq ((?old @ concat ?q) @ buf) (?acc @ buf)" using sub by (rule list_emb_append_mono) simp
    ultimately have 1: "subseq (?old @ concat ?q') (?acc @ buf)" by (rule subseq_order.trans)
    have q': "Suc (length (sy_accepted y)) \<le> tc_buffer_limit conf \<Longrightarrow> ?q' = ?q @ [buf]"
      using len by (simp add: enqueue_def Let_def)
    have 2: "length ?q' \<le> Suc (length (sy_accepted y))"
      using len by (auto simp: enqueue_def Let_def)
    have e: "write_execute conf buf ?s = (?s\<lparr>ts_queue := ?q'\<rparr>, [])"
      using True by (simp add: write_execute_def)
    have "order_core conf (?s\<lparr>ts_queue := ?q'\<rparr>) z"
      using inv 1 2 eq q' op z(1,4-6) by (auto simp: order_inv_def order_core_def unsent_def subset_iff)
    then have "order_core conf (?s\<lparr>ts_queue := ?q'\<rparr>) (absorb (write_execute conf buf ?s) z)"
      using z(1) by (simp add: order_core_def unsent_def e absorb_def)
    moreover have "\<forall>op \<in> set ops. is_direct op \<longrightarrow> ts_dispatch ?s = [] \<and> sy_accepted y \<noteq> []"
      "\<forall>op \<in> set ops. is_write op \<longrightarrow> ts_connected ?s \<longrightarrow> op_sock op = ts_sock ?s"
      using inv z(3) by (auto simp: order_inv_def)
    moreover have "ts_connected ?s \<longrightarrow> ts_pending_write ?s"
      using True inv by (auto simp: order_inv_def order_core_def)
    ultimately show ?thesis using z(1,5) by (auto simp: order_inv_def e absorb_def)
  next
    case False
    then have none: "filter is_write ops = []" using w z by (simp add: write_inv_def)
    have empty: "?q = []" "ts_dispatch ?s = []" using inv False by (simp_all add: order_inv_def)
    obtain sock where sock: "ts_sock ?s = Some sock"
      using inv False by (auto simp: order_inv_def order_core_def)
    note d = concat_direct_no [OF none]
    have "subseq (sy_sent y @ buf) (?acc @ buf)"
      using sub by (intro list_emb_append_mono) (simp_all add: empty d)
    moreover have "Suc (length (sy_accepted y)) \<le> tc_buffer_limit conf \<Longrightarrow> sy_sent y = ?acc"
      using eq by (simp add: empty d)
    moreover have "\<not> is_write op" if "op \<in> set ops" for op
      using none that by (auto simp: filter_empty_conv)
    moreover have "Close \<notin> set (sy_posted z)" using inv z by (auto simp: order_inv_def order_core_def)
    ultimately show ?thesis using False empty d sock z direct_is_write
      by (auto simp: order_inv_def order_core_def write_execute_def unsent_def absorb_def)
  qed
qed

text \<open>The two completions of a write.\<close>

lemma order_write_one_done:
  assumes inv: "order_inv conf y" and op: "Write_one sock buf td \<in> set (sy_ops y)"
    and n: "n \<le> length buf" "n = length buf \<or> ts_queue (sy_tcp y) = []"
    and pending: "ts_pending_write (sy_tcp y)"
    and z: "sy_ops z = remove1 (Write_one sock buf td) (sy_ops y)" "filter is_write (sy_ops z) = []"
      "direct_of (sy_ops y) = buf"
      "sy_sent z = sy_sent y @ take n buf" "sy_accepted z = sy_accepted y" "sy_posted z = sy_posted y"
  shows "order_inv conf (absorb (write_one_done conf sock buf td n el (sy_tcp y)) z)"
proof -
  let ?s = "(sy_tcp y)\<lparr>ts_write_count := ts_write_count (sy_tcp y) + of_nat n\<rparr>"
  let ?s2 = "if length buf > n
    then ?s\<lparr>ts_queue := enqueue (tc_buffer_limit conf) (drop n buf) (ts_queue ?s)\<rparr> else ?s"
  have d: "ts_dispatch (sy_tcp y) = []" "sy_accepted y \<noteq> []"
    using inv op by (force simp: order_inv_def)+
  have core: "order_core conf (sy_tcp y) y" using inv by (simp add: order_inv_def)
  have opens: "filter is_opening (sy_ops y) = [] \<Longrightarrow> filter is_opening (sy_ops z) = []"
    unfolding z(1) by (auto simp: filter_empty_conv dest: subsetD [OF set_remove1_subset])
  have "order_core conf ?s2 z"
  proof (cases "n = length buf")
    case True
    then show ?thesis using core d z concat_direct_no [OF z(2)] opens
      by (auto simp: order_core_def unsent_def)
  next
    case False
    then have q: "ts_queue (sy_tcp y) = []" and less: "n < length buf" using n by auto
    have acc: "0 < length (sy_accepted y)" using d by simp
    show ?thesis
    proof (cases "tc_buffer_limit conf = 0")
      case True
      have sub: "subseq (sy_sent y @ take n buf @ drop n buf) (concat (sy_accepted y))"
        using core d q z(3) by (simp add: order_core_def unsent_def)
      have "subseq (sy_sent y @ take n buf) ((sy_sent y @ take n buf) @ drop n buf)"
        by (rule list_emb_prefix) simp
      then have "subseq (sy_sent y @ take n buf) (concat (sy_accepted y))"
        by (rule subseq_order.trans) (use sub in simp)
      then show ?thesis using core d q less True z concat_direct_no [OF z(2)] opens acc
        by (auto simp: order_core_def unsent_def enqueue_def)
    next
      case False
      then show ?thesis using core d q less z concat_direct_no [OF z(2)] opens acc
        by (auto simp: order_core_def unsent_def enqueue_def Suc_le_eq)
    qed
  qed
  moreover have "ts_connected ?s2 \<longrightarrow> ts_sock ?s2 = Some sock"
    using inv op by (auto simp: order_inv_def)
  ultimately show ?thesis
    using order_throttle_check [of conf ?s2 z sock td el] z(2) pending
    by (simp add: write_one_done_def Let_def)
qed

lemma order_write_many_done:
  assumes inv: "order_inv conf y" and op: "Write_many sock k td \<in> set (sy_ops y)"
    and n: "n \<le> k" "k = length (concat (ts_dispatch (sy_tcp y)))"
    and pending: "ts_pending_write (sy_tcp y)"
    and z: "sy_ops z = remove1 (Write_many sock k td) (sy_ops y)" "filter is_write (sy_ops z) = []"
      "direct_of (sy_ops y) = []"
      "sy_sent z = sy_sent y @ take n (concat (ts_dispatch (sy_tcp y)))" "sy_accepted z = sy_accepted y"
      "sy_posted z = sy_posted y"
  shows "order_inv conf (absorb (write_many_done conf sock k td err n el (sy_tcp y)) z)"
proof -
  let ?d = "if err \<or> k > n then consume n (ts_dispatch (sy_tcp y)) else []"
  let ?s = "(sy_tcp y)\<lparr>ts_write_count := ts_write_count (sy_tcp y) + of_nat n, ts_dispatch := ?d\<rparr>"
  have core: "order_core conf (sy_tcp y) y" using inv by (simp add: order_inv_def)
  have opens: "filter is_opening (sy_ops y) = [] \<Longrightarrow> filter is_opening (sy_ops z) = []"
    unfolding z(1) by (auto simp: filter_empty_conv dest: subsetD [OF set_remove1_subset])
  have "concat ?d = drop n (concat (ts_dispatch (sy_tcp y)))" using n by (simp add: concat_consume)
  then have "take n (concat (ts_dispatch (sy_tcp y))) @ concat ?d = concat (ts_dispatch (sy_tcp y))" by simp
  then have "sy_sent z @ unsent ?s z = sy_sent y @ unsent (sy_tcp y) y"
    using z(3,4) concat_direct_no [OF z(2)] by (simp add: unsent_def)
  then have "order_core conf ?s z" using core opens z(5,6) by (simp add: order_core_def)
  moreover have "ts_connected ?s \<longrightarrow> ts_sock ?s = Some sock"
    using inv op by (auto simp: order_inv_def)
  ultimately show ?thesis
    using order_throttle_check [of conf ?s z sock td el] z(2) pending
    by (simp add: write_many_done_def Let_def split del: if_split cong: if_cong)
qed

text \<open>Everything else is quiet, but for a connection that completes.\<close>

lemma open_all_quiet:
  "ts_connected (fst (open_all conf l eps s)) = ts_connected s \<and> ts_sock (fst (open_all conf l eps s)) = ts_sock s
    \<and> ts_closed (fst (open_all conf l eps s)) = ts_closed s
    \<and> set (posted (snd (open_all conf l eps s))) \<subseteq> {AutoOpen}"
proof (induction eps arbitrary: s)
  case Nil
  then show ?case by simp
next
  case (Cons ep eps)
  then show ?case
    by (auto simp: server_open_def client_open_def Let_def case_prod_beta dest!: subsetD [OF conjunct2 [OF conjunct2 [OF conjunct2 [OF Cons.IH]]]])
qed

lemma quiet_none: "quiet s (s, [])"
  by (simp add: quiet_def write_idle_def)

lemma backup_quiet: "quiet s (s, if a then [Call c] else [])"
  by (simp add: quiet_def write_idle_def)

lemma do_open_quiet: "quiet s (snd (do_open conf l now s))"
  using do_open_frame [of s conf l now] open_all_quiet [of conf l "ts_endpoints s" "s\<lparr>ts_closed := False\<rparr>"]
  by (auto simp: quiet_def do_open_def endpoint_resolved_def Let_def)

lemma resolve_done_quiet: "quiet s (resolve_done r now s)"
  using resolve_done_frame [of s r now] by (auto simp: quiet_def resolve_done_def split: option.splits)

lemma quiet_ramp: "quiet (s\<lparr>ts_ramp := x\<rparr>) r \<Longrightarrow> quiet s r"
  by (simp add: quiet_def write_idle_def)

lemma quiet_set_ramp: "quiet s (s1, es) \<Longrightarrow> quiet s (s1\<lparr>ts_ramp := x\<rparr>, es)"
  by (simp add: quiet_def write_idle_def)

lemma auto_open_quiet: "quiet s (auto_open conf l now s)"
proof -
  let ?s = "if tc_min_retry conf = tc_max_retry conf then s\<lparr>ts_ramp := ucast (tc_min_retry conf)\<rparr> else s"
  obtain b s2 es where r: "do_open conf l now ?s = (b, s2, es)" by (cases "do_open conf l now ?s")
  have "quiet s (s2, es)"
    using do_open_quiet [of ?s conf l now] r by (auto dest: quiet_ramp split: if_splits)
  moreover have "auto_open conf l now s = (s, []) \<or> auto_open conf l now s = (s2, es)
    \<or> auto_open conf l now s = (s2\<lparr>ts_ramp := ucast (tc_min_retry conf)\<rparr>, es)
    \<or> auto_open conf l now s = (?s\<lparr>ts_timer := Suc (ts_timer ?s)\<rparr>, [Start (Retry (Suc (ts_timer ?s)))])"
    unfolding auto_open_def Let_def r by (simp split del: if_split) (simp split: if_split)
  ultimately show ?thesis
    by (auto simp: quiet_set_ramp) (auto simp: quiet_def write_idle_def)
qed

lemma retry_done_quiet: "quiet s (retry_done conf l now err s)"
  using do_open_quiet [of s conf l now]
  by (auto simp: retry_done_def quiet_set_ramp quiet_none split: prod.splits)

lemma established_done_quiet: "quiet s (established_done err s)"
  by (simp add: quiet_def established_done_def write_idle_def)

lemma throttle_read_handler_quiet: "quiet s (throttle_read_handler conf el bs err s)"
  by (auto simp: throttle_read_handler_def start_read_def quiet_def write_idle_def Let_def
      split: prod.splits option.splits)

lemma auto_close_quiet: "quiet s (auto_close s)"
  using auto_close_frame [of s] by (auto simp: auto_close_def quiet_def Let_def)

lemma connect_fails_quiet: "err \<or> ts_connected s \<Longrightarrow> quiet s (connect_done conf err sock s)"
  by (auto simp: connect_done_def connect_completion_def quiet_def write_idle_def)

lemma accept_connect:
  "accept_done conf err sock s = (let r = connect_done conf err sock s in ((fst r)\<lparr>ts_acceptor := None\<rparr>, snd r))"
  by (simp add: accept_done_def connect_done_def split: prod.splits)

lemmas handler_quiet = do_open_quiet resolve_done_quiet auto_open_quiet retry_done_quiet
  established_done_quiet throttle_read_handler_quiet auto_close_quiet

lemma absorb_append:
  "absorb (s, es @ es') z = absorb (s, es') (absorb (s', es) z)"
  by (simp add: absorb_def)

lemma order_connect_success:
  assumes inv: "order_inv conf y" and w: "write_inv conf y"
    and ok: "\<not> ts_connected (sy_tcp y)" "\<not> ts_pending_write (sy_tcp y)" and op: "is_opening op" "op \<in> set (sy_ops y)"
    and z: "sy_ops z = remove1 op (sy_ops y)" "sy_sent z = sy_sent y" "sy_accepted z = sy_accepted y"
      "sy_posted z = sy_posted y"
  shows "order_inv conf (absorb (connect_done conf False sock (sy_tcp y)) z)"
proof -
  let ?s = "sy_tcp y"
  let ?s2 = "?s\<lparr>ts_candidates := removeAll sock (ts_candidates ?s), ts_sock := Some sock,
    ts_connected := True, ts_timer := Suc (ts_timer ?s), ts_pending_read := True\<rparr>"
  let ?es = "[Call (Set_keepalives sock), Call (State_callback True), Start (Established (Suc (ts_timer ?s))), Start (Read_some sock)]"
  have "filter is_opening (sy_ops y) \<noteq> []" using op by (auto simp: filter_empty_conv)
  then have closed: "\<not> ts_closed ?s" using inv by (auto simp: order_inv_def order_core_def)
  have "connect_done conf False sock ?s = (fst (write_buffer conf sock ?s2), ?es @ snd (write_buffer conf sock ?s2))"
    using ok closed by (simp add: connect_done_def connect_completion_def start_read_def Let_def split: prod.splits)
  then have r: "absorb (connect_done conf False sock ?s) z = absorb (write_buffer conf sock ?s2) (absorb (?s2, ?es) z)"
    using absorb_append [of "fst (write_buffer conf sock ?s2)" ?es "snd (write_buffer conf sock ?s2)" z ?s2] by simp
  have "filter is_write (sy_ops y) = []" using w ok by (simp add: write_inv_def)
  then have none: "filter is_write (sy_ops (absorb (?s2, ?es) z)) = []" "direct_of (sy_ops y) = []"
    using z by (auto simp: absorb_def filter_empty_conv concat_direct_no dest: subsetD [OF set_remove1_subset])
  then have "unsent ?s2 (absorb (?s2, ?es) z) = unsent ?s y"
    by (simp add: unsent_def concat_direct_no)
  then have "order_core conf ?s2 (absorb (?s2, ?es) z)"
    using inv closed z by (simp add: order_inv_def order_core_def absorb_def)
  then show ?thesis unfolding r using ok none by (intro order_write_buffer) simp_all
qed

lemma order_core_cong:
  "order_core conf s y \<Longrightarrow> ts_dispatch s' = ts_dispatch s \<Longrightarrow> ts_queue s' = ts_queue s \<Longrightarrow> ts_closed s' = ts_closed s
    \<Longrightarrow> ts_connected s' = ts_connected s \<Longrightarrow> ts_sock s' = ts_sock s \<Longrightarrow> sy_sent y' = sy_sent y
    \<Longrightarrow> sy_ops y' = sy_ops y \<Longrightarrow> sy_accepted y' = sy_accepted y \<Longrightarrow> sy_posted y' = sy_posted y
    \<Longrightarrow> order_core conf s' y'"
  by (simp add: order_core_def unsent_def)

lemma order_inv_acceptor:
  "order_inv conf (absorb (s, es) z) \<Longrightarrow> order_inv conf (absorb (s\<lparr>ts_acceptor := a\<rparr>, es) z)"
  unfolding order_inv_def by (auto simp: absorb_def intro: order_core_cong)

section \<open>Runs\<close>

lemma order_inv_run:
  assumes inv: "order_inv conf y" and w: "write_inv conf y" and p: "sy_posted y = t # ts"
  shows "order_inv conf (tcp_step conf (Run wd) y)"
proof (cases t)
  case (Write_execute buf)
  then show ?thesis
    using order_write_execute [OF inv w, of "y\<lparr>sy_posted := ts, sy_accepted := sy_accepted y @ [buf]\<rparr>" "sy_ops y" buf]
    by (simp add: p Let_def subset_insertI)
next
  case Close
  then show ?thesis using inv p by (simp add: order_inv_def order_core_def)
next
  case AutoOpen
  then show ?thesis
    using order_inv_quiet [OF inv auto_open_quiet, of "y\<lparr>sy_posted := ts\<rparr>" conf "w_listen_ok wd" "w_now wd"]
    by (simp add: p Let_def subset_insertI)
next
  case AutoClose
  then show ?thesis using order_inv_quiet [OF inv auto_close_quiet, of "y\<lparr>sy_posted := ts\<rparr>"]
    by (simp add: p Let_def subset_insertI)
next
  case Open
  then show ?thesis
    using order_inv_quiet [OF inv do_open_quiet, of "y\<lparr>sy_posted := ts\<rparr>" conf "w_listen_ok wd" "w_now wd"]
    by (simp add: p Let_def subset_insertI)
qed

lemma order_inv_complete_other:
  assumes inv: "order_inv conf y" and op: "op_takes op = []" "\<not> is_write op" "op_sends w op (sy_tcp y) = []"
    and r: "quiet (sy_tcp y) (finish_op conf w op (sy_tcp y))"
  shows "order_inv conf (tcp_step conf (Complete w op) y)"
  unfolding tcp_step.simps
  by (rule order_inv_quiet [OF inv r]) (use op in \<open>auto simp: filter_remove1_no dest: subsetD [OF set_remove1_subset]\<close>)

lemma order_inv_opening:
  assumes inv: "order_inv conf y" and w: "write_inv conf y" and op: "op \<in> set (sy_ops y)"
    and ok: "w_err wd \<or> ts_connected (sy_tcp y) \<or> \<not> ts_pending_write (sy_tcp y)"
    and o: "is_opening op" and z: "z = y\<lparr>sy_ops := remove1 op (sy_ops y)\<rparr>"
  shows "order_inv conf (absorb (connect_done conf (w_err wd) sock (sy_tcp y)) z)"
proof (cases "w_err wd \<or> ts_connected (sy_tcp y)")
  case True
  have "\<not> is_write op" using o by (cases op) auto
  then show ?thesis unfolding z
    by (intro order_inv_quiet [OF inv connect_fails_quiet [OF True]])
      (auto simp: filter_remove1_no dest: subsetD [OF set_remove1_subset])
next
  case False
  then show ?thesis
    using order_connect_success [OF inv w _ _ o op, of z sock] ok unfolding z by auto
qed

lemma direct_remove1:
  "op \<in> set ops \<Longrightarrow> is_write op \<Longrightarrow> length (filter is_write ops) = 1 \<Longrightarrow>
    filter is_write (remove1 op ops) = [] \<and> direct_of ops = direct_bytes op"
proof (induction ops)
  case Nil
  then show ?case by simp
next
  case (Cons x ops)
  show ?case
  proof (cases "is_write x")
    case True
    then have none: "filter is_write ops = []" using Cons.prems by simp
    then have "x = op" using Cons.prems by (auto simp: filter_empty_conv)
    then show ?thesis using none by (simp add: concat_direct_no)
  next
    case False
    then show ?thesis using Cons by (auto simp: direct_bytes_no)
  qed
qed

lemma order_inv_write_done:
  assumes inv: "order_inv conf y" and w: "write_inv conf y" and op: "op \<in> set (sy_ops y)" "is_write op"
    and ok: "possible (sy_tcp y) wd op" "tidy (Complete wd op) y"
  shows "order_inv conf (tcp_step conf (Complete wd op) y)"
proof -
  have "filter is_write (sy_ops y) \<noteq> []" using op by (auto simp: filter_empty_conv)
  then have pending: "ts_pending_write (sy_tcp y)" and one: "length (filter is_write (sy_ops y)) = 1"
    using w by (auto simp: write_inv_def of_bool_def split: if_splits)
  note rest = direct_remove1 [OF op one]
  have many: "many_ok conf (sy_tcp y) op" using w op by (auto simp: write_inv_def list_all_iff)
  show ?thesis
  proof (cases op)
    case (Write_one sock buf td)
    then show ?thesis
      using order_write_one_done [OF inv op(1) [unfolded Write_one], of "w_written wd"
          "y\<lparr>sy_ops := remove1 op (sy_ops y), sy_sent := sy_sent y @ take (w_written wd) buf\<rparr>" "w_elapsed wd 0"]
        ok pending rest by simp
  next
    case (Write_many sock k td)
    then have n: "w_written wd \<le> k" "k = length (concat (ts_dispatch (sy_tcp y)))"
      using ok(1) many transfer_size_bounds(1) [of conf k] by (auto simp: Let_def split: if_splits)
    show ?thesis
      using order_write_many_done [OF inv op(1) [unfolded Write_many] n pending, of
          "y\<lparr>sy_ops := remove1 op (sy_ops y),
            sy_sent := sy_sent y @ take (w_written wd) (concat (ts_dispatch (sy_tcp y)))\<rparr>" "w_err wd" "w_elapsed wd 0"]
        rest by (simp add: Write_many)
  next
    case (Throttle_wait sock)
    let ?z = "y\<lparr>sy_ops := remove1 op (sy_ops y)\<rparr>"
    have "order_core conf (sy_tcp y) ?z"
      using inv rest Throttle_wait concat_direct_no [of "remove1 op (sy_ops y)"]
      by (auto simp: order_inv_def order_core_def unsent_def filter_empty_conv dest: subsetD [OF set_remove1_subset])
    moreover have "ts_connected (sy_tcp y) \<longrightarrow> ts_sock (sy_tcp y) = Some sock"
      using inv op Throttle_wait by (auto simp: order_inv_def)
    ultimately show ?thesis
      using order_check_last_write [of conf "sy_tcp y" ?z sock] rest Throttle_wait by simp
  qed (use op(2) in auto)
qed

lemma order_inv_complete:
  assumes inv: "order_inv conf y" and w: "write_inv conf y" and op: "op \<in> set (sy_ops y)"
    and ok: "possible (sy_tcp y) wd op" "tidy (Complete wd op) y"
  shows "order_inv conf (tcp_step conf (Complete wd op) y)"
proof (cases op)
  case (Connect sock)
  then show ?thesis using order_inv_opening [OF inv w op, of wd _ sock] ok by simp
next
  case (Accept sock)
  then show ?thesis using order_inv_opening [OF inv w op, of wd _ sock] ok
    by (simp add: accept_connect Let_def order_inv_acceptor)
next
  case (Delayed_write buf)
  then show ?thesis
    using order_write_execute [OF inv w, of "y\<lparr>sy_ops := remove1 op (sy_ops y), sy_accepted := sy_accepted y @ [buf]\<rparr>"
        "remove1 op (sy_ops y)" buf] by (simp add: filter_remove1_no set_remove1_subset)
next
  case (Write_one sock buf td)
  then show ?thesis using order_inv_write_done [OF inv w op _ ok] by simp
next
  case (Write_many sock k td)
  then show ?thesis using order_inv_write_done [OF inv w op _ ok] by simp
next
  case (Throttle_wait sock)
  then show ?thesis using order_inv_write_done [OF inv w op _ ok] by simp
qed (simp_all add: order_inv_complete_other [OF inv] handler_quiet backup_quiet del: tcp_step.simps)

lemma tcp_reach_order_inv: "tcp_reach conf tidy now y \<Longrightarrow> order_inv conf y"
proof (induction rule: tcp_reach.induct)
  case start
  show ?case by (rule order_inv_start)
next
  case (step y e)
  note w = tcp_reach_write_inv [OF step.hyps(1)]
  show ?case
  proof (cases e)
    case (Run wd)
    then obtain t ts where "sy_posted y = t # ts" using step.hyps by (cases "sy_posted y") auto
    then show ?thesis using order_inv_run [OF step.IH w] Run by simp
  next
    case (Complete wd op)
    then show ?thesis using order_inv_complete [OF step.IH w] step.hyps by simp
  next
    case (User u)
    have "quiet (sy_tcp y) (sy_tcp y, [user_effect conf u])"
      using step.hyps User by (cases u) (auto simp: quiet_def write_idle_def)
    then show ?thesis using order_inv_quiet [OF step.IH] User by simp
  qed
qed

section \<open>Properties\<close>

text \<open>
  C8. Order of the bytes: in every tidy run, the bytes sent over all connections, then those of the direct
  write in progress, of the dispatch buffer and of the queue, are a subsequence of the messages
  in the order the write handler took them, and exactly their stream as long as no more messages were
  taken than the queue holds.
\<close>

theorem tcp_order:
  assumes "tcp_reach conf tidy now y"
  shows "subseq (sy_sent y @ unsent (sy_tcp y) y) (concat (sy_accepted y))
    \<and> (length (sy_accepted y) > tc_buffer_limit conf
      \<or> sy_sent y @ unsent (sy_tcp y) y = concat (sy_accepted y))"
  using tcp_reach_order_inv [OF assms] by (auto simp: order_inv_def order_core_def)

text \<open>A tidy run: connect with one message queued, take another, finish the first write.\<close>

fun tidy_run :: "tcp_conf \<Rightarrow> event list \<Rightarrow> tcp_sys \<Rightarrow> tcp_sys option" where
  "tidy_run conf [] y = Some y"
| "tidy_run conf (e # es) y = (if enabled e y \<and> tidy e y then tidy_run conf es (tcp_step conf e y) else None)"

lemma tidy_run_reach:
  "tcp_reach conf tidy now y \<Longrightarrow> tidy_run conf es y = Some z \<Longrightarrow> tcp_reach conf tidy now z"
  by (induction es arbitrary: y) (auto split: if_splits intro: tcp_reach.step)

definition no_throttle :: throttle_data where
  "no_throttle = \<lparr>td_active = False, td_needed_delay = 0, td_transfer_size = 0\<rparr>"

definition demo_write :: "event list" where
  "demo_write = demo_connect @ [User (User_write [9]), Run demo_world,
    Complete (demo_world\<lparr>w_written := 2\<rparr>) (Write_many 0 2 no_throttle)]"

lemmas write_run_simps = run_simps demo_write_def no_throttle_def write_many_done_def write_one_done_def
  throttle_check_last_write_def check_last_write_def must_wait_def

theorem tcp_order_witness:
  "\<exists>y. tcp_reach demo_conf tidy 0 y \<and> sy_sent y = [7, 8] \<and> unsent (sy_tcp y) y = [9]
    \<and> subseq (sy_sent y @ unsent (sy_tcp y) y) [7, 8, 9]"
proof -
  obtain y where run: "tidy_run demo_conf demo_write (new_tcp_sys 0) = Some y"
    and s: "sy_sent y = [7, 8]" "unsent (sy_tcp y) y = [9]" "concat (sy_accepted y) = [7, 8, 9]"
    by (simp add: write_run_simps unsent_def)
  have r: "tcp_reach demo_conf tidy 0 y" by (rule tidy_run_reach [OF tcp_reach.start run])
  show ?thesis using tcp_order [OF r] r s by auto
qed

definition demo_reorder :: "event list" where
  "demo_reorder = [User User_open, Run demo_world, Complete demo_world Resolve, Run demo_world,
    Complete demo_world (Connect 0),
    User (User_write [1, 2]), User (User_write [3]), Run demo_world, Run demo_world,
    Complete (demo_world\<lparr>w_err := True, w_read := []\<rparr>) (Read_some 0), Run demo_world, Run demo_world,
    Complete (demo_world\<lparr>w_err := True, w_written := 1\<rparr>) (Write_one 0 [1, 2] no_throttle),
    Complete demo_world (Retry 2), Run demo_world, Complete demo_world (Connect 1),
    Complete (demo_world\<lparr>w_written := 2\<rparr>) (Write_many 1 2 no_throttle)]"

text \<open>
  Without the condition on direct writes the order is lost: the peer resets the connection during a
  direct write with a message queued behind it; the rest of the write goes to the back of the queue, so after
  the retry the new connection gets the second message before the end of the first.
\<close>

theorem tcp_reorder_reachable:
  "\<exists>y. tcp_reach demo_conf anything 0 y \<and> sy_accepted y = [[1, 2], [3]] \<and> sy_sent y = [1, 3, 2]"
proof -
  obtain y where run: "run_events demo_conf demo_reorder (new_tcp_sys 0) = Some y"
    and s: "sy_accepted y = [[1, 2], [3]]" "sy_sent y = [1, 3, 2]"
    by (simp add: write_run_simps demo_reorder_def throttle_read_handler_def throttle_read.simps retry_done_def
        next_ramp_def)
  have "tcp_reach demo_conf anything 0 y" by (rule run_events_reach [OF tcp_reach.start run])
  then show ?thesis using s by blast
qed

end
