(* ===== verification/TcpStream.thy ===== *)
theory TcpStream
  imports ProtoConv TcpOrder TcpRetry
begin

text \<open>
  The converter over TCP: the manager \<open>src/src/ProtoConv/ProtoConv.cpp\<close> makes for its stream, and the
  path of the datagrams from one converter through its manager's write side to the converter that
  reads the bytes.
\<close>

section \<open>The manager of a converter\<close>

text \<open>Automatic opening with the backoff times of the command line, no throttle, and the write queue
  limit of the command line.\<close>

definition tcp_stream_conf :: "bool \<Rightarrow> nat \<Rightarrow> backoff_times \<Rightarrow> tcp_conf" where
  "tcp_stream_conf srv max_write_q bt =
    \<lparr>tc_is_server = srv, tc_buffer_limit = max_write_q, tc_auto_reopen = True,
     tc_min_retry = bt_min_retry bt, tc_max_retry = bt_max_retry bt, tc_min_established = bt_min_established bt,
     tc_bitrate = 0, tc_chunksize = 0, tc_writedelay = 0\<rparr>"

definition conv_tcp_conf :: "proto_conv \<Rightarrow> tcp_conf option" where
  "conv_tcp_conf c = (case pv_stream c of
     TCPStream srv _ _ max_write_q bt \<Rightarrow> Some (tcp_stream_conf srv max_write_q bt) | _ \<Rightarrow> None)"

text \<open>\<open>TCPStreamHandler\<close> opens the manager when it is made and closes it when it is destroyed; a datagram's
  stream message is given to the manager's \<open>Write\<close>.\<close>

definition tcp_stream_open :: user_call where
  "tcp_stream_open = User_open"

definition tcp_stream_close :: user_call where
  "tcp_stream_close = User_close"

definition tcp_stream_write :: "u8 list \<Rightarrow> user_call" where
  "tcp_stream_write data = User_write data"

section \<open>End to end\<close>

lemma rcv_stream_all_append:
  "rcv_stream_all (xs @ ys) c =
    Option.bind (rcv_stream_all xs c) (\<lambda>(out, c1).
    Option.bind (rcv_stream_all ys c1) (\<lambda>(outs, c2). Some (out @ outs, c2)))"
proof (induction xs arbitrary: c)
  case Nil
  show ?case by (cases "rcv_stream_all ys c") simp_all
next
  case (Cons r reads)
  obtain clock data where r: "r = (clock, data)" by (cases r)
  show ?case
  proof (cases "rcv_stream_handler clock data c")
    case None
    then show ?thesis by (simp add: r)
  next
    case (Some h)
    obtain out c1 where h: "h = (out, c1)" by (cases h)
    show ?thesis
    proof (cases "rcv_stream_all reads c1")
      case None
      then show ?thesis using Some h Cons.IH [of c1] by (simp add: r)
    next
      case (Some q)
      obtain outs c2 where q: "q = (outs, c2)" by (cases q)
      show ?thesis using \<open>rcv_stream_handler clock data c = Some h\<close> h Some q Cons.IH [of c1]
        by (cases "rcv_stream_all ys c2") (simp_all add: r case_prod_beta)
    qed
  qed
qed

lemma length_rcv_udp_all: "length (fst (rcv_udp_all xs c)) = length xs"
  by (induction xs c rule: rcv_udp_all.induct) (auto split: prod.splits)

lemma tcp_path:
  assumes "new_proto_conv fs1 rd1 op1 cs1 now1 a = Inr c" "new_proto_conv fs2 rd2 op2 cs2 now2 b = Inr r"
    and "va_delim a = d" "va_delim b = d" "d \<noteq> 0" "clean_run d 0 xs"
    and "conv_tcp_conf c = Some conf" "tcp_reach conf tidy now y"
    and "sy_accepted y = fst (rcv_udp_all xs c)" "length xs \<le> tc_buffer_limit conf"
    and "concat (map snd reads) @ transit = sy_sent y"
  shows "\<exists>out r'. rcv_stream_all reads r = Some (out, r') \<and> prefix out xs
    \<and> (transit = [] \<and> unsent (sy_tcp y) y = [] \<longrightarrow> out = xs)"
proof -
  let ?later = "transit @ unsent (sy_tcp y) y"
  have "order_inv conf y" by (rule tcp_reach_order_inv [OF assms(8)])
  then have "sy_sent y @ unsent (sy_tcp y) y = concat (fst (rcv_udp_all xs c))"
    using assms(9,10) by (simp add: order_inv_def order_core_def length_rcv_udp_all)
  then have whole: "concat (map snd (reads @ [(clock, ?later)])) = concat (fst (rcv_udp_all xs c))" for clock
    using assms(11) [symmetric] by simp
  obtain r2 where "rcv_stream_all (reads @ [(\<lambda>i. (0, 0), ?later)]) r = Some (xs, r2)"
    using delim_identity [OF assms(1-6) whole] by blast
  then obtain out r1 outs where o: "rcv_stream_all reads r = Some (out, r1)" "xs = out @ outs"
    by (auto simp: rcv_stream_all_append split: Option.bind_splits)
  have "out = xs" if "transit = []" "unsent (sy_tcp y) y = []"
  proof -
    have "concat (map snd reads) = concat (fst (rcv_udp_all xs c))" using whole that by simp
    then show ?thesis using delim_identity [OF assms(1-6)] o(1) by fastforce
  qed
  then show ?thesis using o by (intro exI [of _ out] exI [of _ r1]) (auto simp: prefix_def)
qed

text \<open>
  Datagrams through a TCP connection pair: two converters with the same delimiter, the first with a TCP
  manager in any state of a tidy run that has taken exactly the stream messages of the datagrams
  \<open>xs\<close>, at most as many as its write queue holds. Whatever of the sent bytes the second one has read, in
  whatever pieces, it has sent a prefix of \<open>xs\<close>; and all of \<open>xs\<close> once everything is sent and read.
\<close>

theorem conv_tcp_end_to_end:
  assumes "new_proto_conv fs1 rd1 op1 cs1 now1 a = Inr c" "new_proto_conv fs2 rd2 op2 cs2 now2 b = Inr r"
    and "va_delim a = d" "va_delim b = d" "d \<noteq> 0" "clean_run d 0 xs"
    and "conv_tcp_conf c = Some conf" "tcp_reach conf tidy now y"
    and "sy_accepted y = fst (rcv_udp_all xs c)" "length xs \<le> tc_buffer_limit conf"
    and "concat (map snd reads) @ transit = sy_sent y"
  shows "\<exists>out r'. rcv_stream_all reads r = Some (out, r') \<and> prefix out xs
    \<and> (transit = [] \<and> unsent (sy_tcp y) y = [] \<longrightarrow> out = xs)"
  by (rule tcp_path [OF assms])

text \<open>A converter that is connected, with the message of one empty datagram sent.\<close>

definition demo_tcp :: "u8 list \<Rightarrow> event list" where
  "demo_tcp msg = [User User_open, Run demo_world, Complete demo_world Resolve, Run demo_world,
    Complete demo_world (Retry 1), Complete demo_world (Connect 0), User (tcp_stream_write msg), Run demo_world,
    Complete (demo_world\<lparr>w_written := length msg\<rparr>) (Write_one 0 msg no_throttle)]"

lemma demo_tcp_run:
  "\<exists>y. tidy_run (tcp_stream_conf False 1024 \<lparr>bt_min_retry = 1, bt_max_retry = 1, bt_min_established = 1\<rparr>)
      (demo_tcp msg) (new_tcp_sys 0) = Some y
    \<and> sy_accepted y = [msg] \<and> sy_sent y = msg \<and> unsent (sy_tcp y) y = []"
  by (simp add: tcp_stream_conf_def demo_tcp_def tcp_stream_write_def write_run_simps unsent_def retry_done_def
      next_ramp_def)

theorem conv_tcp_end_to_end_witness:
  "\<exists>r'. rcv_stream_all [(\<lambda>i. (i, i), trailer 7 0)] demo_conv = Some ([[]], r')"
proof -
  obtain conf where conf: "conv_tcp_conf demo_conv = Some conf"
    and c: "conf = tcp_stream_conf False 1024 \<lparr>bt_min_retry = 1, bt_max_retry = 1, bt_min_established = 1\<rparr>"
    by (simp add: conv_tcp_conf_def demo_conv_def)
  obtain y where y: "tidy_run conf (demo_tcp (trailer 7 0)) (new_tcp_sys 0) = Some y" "sy_accepted y = [trailer 7 0]"
    "sy_sent y = trailer 7 0" "unsent (sy_tcp y) y = []"
    using demo_tcp_run [of "trailer 7 0"] unfolding c by blast
  have reach: "tcp_reach conf tidy 0 y" by (rule tidy_run_reach [OF tcp_reach.start y(1)])
  have run: "fst (rcv_udp_all [[]] demo_conv) = [trailer 7 0]"
    by (simp add: rcv_udp_handler_def add_delim_def demo_conv_def case_prod_beta)
  have limit: "tc_buffer_limit conf = 1024" by (simp add: c tcp_stream_conf_def)
  have "\<exists>out r'. rcv_stream_all [(\<lambda>i. (i, i), trailer 7 0)] demo_conv = Some (out, r') \<and> prefix out [[]]
      \<and> ([] = ([] :: u8 list) \<and> unsent (sy_tcp y) y = [] \<longrightarrow> out = [[]])"
    by (rule conv_tcp_end_to_end [OF demo_conv demo_conv _ _ _ _ conf reach, where d = 7])
      (simp_all add: demo_conv_args_def clean_def y run limit del: rcv_udp_all.simps)
  then show ?thesis using y(4) by auto
qed

end
