(* ===== verification/UdpToStream.thy ===== *)
theory UdpToStream
  imports TcpStream
begin

text \<open>
  The converter from its socket to its stream: the receive loop \<open>RcvUDP\<close> of \<open>src/src/ProtoConv/ProtoConv.cpp\<close> on
  the socket strand, the handlers it posts to the process strand, and the buffers on their way back, in any
  interleaving. A handler reads its buffer when it runs, not when it is posted.
\<close>

section \<open>Steps\<close>

record conv_in =
  ci_receiving :: nat
  ci_free :: "nat list"
  ci_store :: "nat \<Rightarrow> u8 list"
  ci_handlers :: "(nat \<times> bool \<times> nat) list"
  ci_returns :: "nat list"
  ci_conv :: proto_conv
  ci_arrived :: "u8 list list"
  ci_written :: "u8 list list"

definition new_conv_in :: "proto_conv \<Rightarrow> conv_in" where
  "new_conv_in c = (let (b, q) = rcv_udp 0 [] in
    \<lparr>ci_receiving = b, ci_free = q, ci_store = (\<lambda>_. []), ci_handlers = [], ci_returns = [], ci_conv = c,
     ci_arrived = [], ci_written = []\<rparr>)"

text \<open>The end of a receive: the handler is posted, and \<open>RcvUDP\<close> takes another buffer or allocates one. The
  receive fills the beginning of the buffer; the rest keeps what an earlier datagram left there.\<close>

definition fill_buf :: "u8 list \<Rightarrow> u8 list \<Rightarrow> u8 list" where
  "fill_buf data old = data @ drop (length data) old"

definition udp_received :: "nat \<Rightarrow> bool \<Rightarrow> u8 list \<Rightarrow> conv_in \<Rightarrow> conv_in" where
  "udp_received fresh err data p =
    (let b = ci_receiving p; (b', q) = rcv_udp fresh (ci_free p)
     in p\<lparr>ci_receiving := b', ci_free := q, ci_store := (ci_store p)(b := fill_buf data (ci_store p b)),
          ci_handlers := ci_handlers p @ [(b, err, length data)], ci_arrived := ci_arrived p @ [data]\<rparr>)"

text \<open>\<open>RcvUDPHandler\<close> copies the bytes and passes them to \<open>Write\<close> of the stream; then the return of the buffer
  is posted to the socket strand.\<close>

definition udp_handled :: "conv_in \<Rightarrow> conv_in" where
  "udp_handled p =
    (let (b, err, n) = hd (ci_handlers p); (data, c) = rcv_udp_handler err (ci_store p b) n (ci_conv p)
     in p\<lparr>ci_handlers := tl (ci_handlers p), ci_conv := c, ci_written := ci_written p @ [data],
          ci_returns := ci_returns p @ [b]\<rparr>)"

definition buf_returned :: "conv_in \<Rightarrow> conv_in" where
  "buf_returned p = p\<lparr>ci_returns := tl (ci_returns p), ci_free := rcv_udp_done (hd (ci_returns p)) (ci_free p)\<rparr>"

definition conv_bufs :: "conv_in \<Rightarrow> nat list" where
  "conv_bufs p = ci_receiving p # ci_free p @ map fst (ci_handlers p) @ ci_returns p"

inductive conv_in_reach :: "proto_conv \<Rightarrow> conv_in \<Rightarrow> bool" for c where
  start: "conv_in_reach c (new_conv_in c)"
| received: "conv_in_reach c p \<Longrightarrow> fresh \<notin> set (conv_bufs p) \<Longrightarrow> conv_in_reach c (udp_received fresh err data p)"
| handled: "conv_in_reach c p \<Longrightarrow> ci_handlers p \<noteq> [] \<Longrightarrow> conv_in_reach c (udp_handled p)"
| returned: "conv_in_reach c p \<Longrightarrow> ci_returns p \<noteq> [] \<Longrightarrow> conv_in_reach c (buf_returned p)"

section \<open>The refinement\<close>

text \<open>The datagrams whose handlers wait, as their buffers hold them now.\<close>

definition queued :: "conv_in \<Rightarrow> u8 list list" where
  "queued p = map (\<lambda>(b, err, n). take n (ci_store p b)) (ci_handlers p)"

definition in_order :: "proto_conv \<Rightarrow> conv_in \<Rightarrow> bool" where
  "in_order c p \<longleftrightarrow> distinct (conv_bufs p)
    \<and> (\<exists>xs. ci_arrived p = xs @ queued p \<and> rcv_udp_all xs c = (ci_written p, ci_conv p))"

lemma rcv_udp_all_snoc:
  "rcv_udp_all (xs @ [x]) c =
    (case rcv_udp_all xs c of (ws, c1) \<Rightarrow> case rcv_udp_handler False x (length x) c1 of (w, c2) \<Rightarrow> (ws @ [w], c2))"
  by (induction xs c rule: rcv_udp_all.induct) (auto split: prod.splits)

lemma rcv_udp_handler_take:
  "rcv_udp_handler err buf n c = rcv_udp_handler False (take n buf) (length (take n buf)) c"
  by (simp add: rcv_udp_handler_def min_def)

lemma in_order_received:
  assumes "in_order c p" "fresh \<notin> set (conv_bufs p)"
  shows "in_order c (udp_received fresh err data p)"
proof -
  obtain b' q where q: "rcv_udp fresh (ci_free p) = (b', q)" by fastforce
  have "b' # q = (if ci_free p = [] then [fresh] else ci_free p)"
    using q by (auto simp: rcv_udp_def Let_def)
  then have bufs: "set (b' # q) \<subseteq> insert fresh (set (ci_free p))" "distinct (ci_free p) \<Longrightarrow> distinct (b' # q)"
    by (auto split: if_splits)
  have "ci_receiving p \<notin> fst ` set (ci_handlers p)" using assms(1) by (auto simp: in_order_def conv_bufs_def)
  then have "map (\<lambda>(b, err, n). take n (((ci_store p)(ci_receiving p := x)) b)) (ci_handlers p) = queued p" for x
    by (force simp: queued_def)
  then have "queued (udp_received fresh err data p) = queued p @ [data]"
    using q by (simp add: udp_received_def queued_def fill_buf_def Let_def)
  moreover define B where "B = insert (ci_receiving p) (fst ` set (ci_handlers p)) \<union> set (ci_returns p)"
  have "set (ci_free p) \<inter> B = {}" "fresh \<notin> B" using assms by (auto simp: in_order_def conv_bufs_def B_def)
  then have "set (b' # q) \<inter> B = {}" using bufs(1) by blast
  then have "distinct (conv_bufs (udp_received fresh err data p))"
    using assms(1) q bufs(2) unfolding B_def by (auto simp: in_order_def conv_bufs_def udp_received_def Let_def)
  ultimately show ?thesis using assms(1) q by (auto simp: in_order_def udp_received_def Let_def)
qed

lemma in_order_handled:
  assumes "in_order c p" "ci_handlers p \<noteq> []"
  shows "in_order c (udp_handled p)"
proof -
  obtain b err n hs where h: "ci_handlers p = (b, err, n) # hs" using assms(2) by (cases "ci_handlers p") auto
  let ?x = "take n (ci_store p b)"
  obtain data c' where w: "rcv_udp_handler err (ci_store p b) n (ci_conv p) = (data, c')" by fastforce
  obtain xs where xs: "ci_arrived p = xs @ queued p" "rcv_udp_all xs c = (ci_written p, ci_conv p)"
    using assms(1) by (auto simp: in_order_def)
  have "rcv_udp_all (xs @ [?x]) c = (ci_written (udp_handled p), ci_conv (udp_handled p))"
    using xs(2) w h rcv_udp_handler_take [of err "ci_store p b" n "ci_conv p"]
    by (simp add: rcv_udp_all_snoc udp_handled_def)
  moreover have "ci_arrived (udp_handled p) = (xs @ [?x]) @ queued (udp_handled p)"
    using xs(1) h w by (simp add: udp_handled_def queued_def)
  moreover have "distinct (conv_bufs (udp_handled p))"
    using assms(1) h w by (auto simp: in_order_def conv_bufs_def udp_handled_def)
  ultimately show ?thesis unfolding in_order_def by blast
qed

lemma in_order_returned:
  assumes "in_order c p" "ci_returns p \<noteq> []"
  shows "in_order c (buf_returned p)"
proof -
  obtain b bs where "ci_returns p = b # bs" using assms(2) by (cases "ci_returns p") auto
  then show ?thesis using assms(1)
    by (auto simp: in_order_def conv_bufs_def buf_returned_def rcv_udp_done_def queued_def)
qed

lemma conv_in_order: "conv_in_reach c p \<Longrightarrow> in_order c p"
proof (induction rule: conv_in_reach.induct)
  case start
  show ?case by (simp add: in_order_def new_conv_in_def rcv_udp_def conv_bufs_def queued_def)
qed (simp_all add: in_order_received in_order_handled in_order_returned)

text \<open>
  The converter writes to its stream in the order of arrival: in every run the messages passed to the stream are
  those of the datagrams handled one after the other, the datagrams still in their buffers are the rest of
  those received, and no buffer is in two places.
\<close>

theorem conv_udp_in_order:
  assumes "conv_in_reach c p"
  shows "distinct (conv_bufs p) \<and> (\<exists>xs. ci_arrived p = xs @ queued p \<and> rcv_udp_all xs c = (ci_written p, ci_conv p))"
  using conv_in_order [OF assms] by (simp add: in_order_def)

theorem conv_udp_in_order_witness:
  "ci_written (udp_handled (udp_received 2 False [] (new_conv_in demo_conv))) = [trailer 7 0]
    \<and> distinct (conv_bufs (udp_handled (udp_received 2 False [] (new_conv_in demo_conv))))"
proof -
  have r: "conv_in_reach demo_conv (udp_handled (udp_received 2 False [] (new_conv_in demo_conv)))"
    by (intro conv_in_reach.handled conv_in_reach.received conv_in_reach.start)
      (simp_all add: new_conv_in_def rcv_udp_def conv_bufs_def udp_received_def Let_def)
  show ?thesis using conv_udp_in_order [OF r]
    by (simp add: new_conv_in_def rcv_udp_def udp_received_def udp_handled_def rcv_udp_handler_def add_delim_def
        demo_conv_def fill_buf_def case_prod_beta)
qed

lemma clean_run_prefix: "clean_run d s (xs @ ys) \<Longrightarrow> clean_run d s xs"
  by (induction xs arbitrary: s) auto

end
