(* ===== verification/SerialStream.thy ===== *)
theory SerialStream
  imports ProtoConv
begin

text \<open>
  The converter over several serial ports. A message goes to whichever port is idle, so messages overtake
  one another between the two ends; each port has its own read buffer, and the reordering queue
  behind them puts the datagrams back in order.
\<close>

section \<open>Reading several ports\<close>

text \<open>\<open>SerialPortsManager::Read\<close> for port \<open>p\<close>, with the buffers of the ports: the converter's stream
  handler runs on the buffer of the port.\<close>

type_synonym port_bufs = "nat \<Rightarrow> u8 list"

definition rcv_port_handler ::
  "nat \<Rightarrow> (nat \<Rightarrow> nat \<times> nat) \<Rightarrow> u8 list \<Rightarrow> proto_conv \<times> port_bufs \<Rightarrow> (u8 list list \<times> proto_conv \<times> port_bufs) option" where
  "rcv_port_handler p clock data st =
    (case st of (c, bufs) \<Rightarrow>
      Option.bind (rcv_stream_handler clock data (c\<lparr>pv_stream_buf := bufs p\<rparr>)) (\<lambda>(out, c1).
        Some (out, c1\<lparr>pv_stream_buf := []\<rparr>, bufs(p := pv_stream_buf c1))))"

type_synonym port_read = "nat \<times> (nat \<Rightarrow> nat \<times> nat) \<times> u8 list"

fun rcv_ports_all ::
  "port_read list \<Rightarrow> proto_conv \<times> port_bufs \<Rightarrow> (u8 list list \<times> proto_conv \<times> port_bufs) option" where
  "rcv_ports_all [] st = Some ([], st)"
| "rcv_ports_all ((p, clock, data) # reads) st =
    Option.bind (rcv_port_handler p clock data st) (\<lambda>(out, st1).
    Option.bind (rcv_ports_all reads st1) (\<lambda>(outs, st2). Some (out @ outs, st2)))"

fun port_data :: "nat \<Rightarrow> port_read list \<Rightarrow> u8 list" where
  "port_data p [] = []"
| "port_data p ((q, clock, data) # reads) = (if q = p then data else []) @ port_data p reads"

fun port_sent :: "nat \<Rightarrow> (nat \<times> u8 list) list \<Rightarrow> u8 list" where
  "port_sent p [] = []"
| "port_sent p ((q, msg) # ws) = (if q = p then msg else []) @ port_sent p ws"

section \<open>The frames on a port\<close>

text \<open>The frame of the \<open>i\<close>th datagram, and the bytes of some of them.\<close>

definition nth_frame :: "u32 \<Rightarrow> u8 list list \<Rightarrow> nat \<Rightarrow> frame" where
  "nth_frame d xs i =
    (mk_frame (length (xs ! i) + 10) True True 1 (unat (of_nat i :: u32)))\<lparr>fr_buf := xs ! i @ trailer d (of_nat i)\<rparr>"

definition wire :: "u32 \<Rightarrow> u8 list list \<Rightarrow> nat list \<Rightarrow> u8 list" where
  "wire d xs is = concat (map (\<lambda>i. fr_buf (nth_frame d xs i)) is)"

lemma wire_simps [simp]:
  "wire d xs [] = []" "wire d xs (i # is) = xs ! i @ trailer d (of_nat i) @ wire d xs is"
  by (simp_all add: wire_def nth_frame_def)

lemma clean_run_nth: "clean_run d s xs \<Longrightarrow> i < length xs \<Longrightarrow> clean d (s + of_nat i) (xs ! i)"
proof (induction xs arbitrary: s i)
  case (Cons x xs)
  then show ?case using Cons.IH [of "s + 1" "i - 1"] by (cases i) (simp_all add: add.assoc)
qed simp

lemma rcv_stream_wire:
  "\<forall>i \<in> set is. clean d (of_nat i) (xs ! i) \<Longrightarrow>
    rcv_stream (delim_check d) (wire d xs is) = Some (map (nth_frame d xs) is, [])"
proof (induction "is")
  case Nil
  show ?case by (simp add: rcv_stream_none delim_check_def)
next
  case (Cons i "is")
  then show ?case
    using rcv_stream_delim_cons [of d "of_nat i" "xs ! i" "wire d xs is"] by (simp add: nth_frame_def)
qed

lemma wire_waits:
  "\<forall>i \<in> set is. clean d (of_nat i) (xs ! i) \<Longrightarrow> fr_len (delim_check d (wire d xs is)) = 0 \<Longrightarrow> is = []"
  using rcv_stream_wire [of "is" d xs] rcv_stream_none [of "delim_check d" "wire d xs is"] by simp

text \<open>What a read of a beginning of the port's bytes finds.\<close>

lemma rcv_stream_beginning:
  assumes "buf @ later = wire d xs is" "\<forall>i \<in> set is. clean d (of_nat i) (xs ! i)"
  obtains k rest where "rcv_stream (delim_check d) buf = Some (map (nth_frame d xs) (take k is), rest)"
    "rest @ later = wire d xs (drop k is)" "fr_len (delim_check d rest) = 0"
proof -
  obtain fs rest where r: "rcv_stream (delim_check d) buf = Some (fs, rest)" "fr_len (delim_check d rest) = 0"
    using delim.rcv_stream_total [of d buf] by blast
  have "Option.bind (rcv_stream (delim_check d) (rest @ later)) (\<lambda>(gs, rest'). Some (fs @ gs, rest')) =
      Some (map (nth_frame d xs) is, [])"
    using delim.rcv_stream_append [OF r(1), of later] rcv_stream_wire [OF assms(2)] assms(1) by simp
  then obtain gs where gs: "rcv_stream (delim_check d) (rest @ later) = Some (gs, [])"
    "fs @ gs = map (nth_frame d xs) is" by (auto split: Option.bind_splits)
  have "fs = take (length fs) (fs @ gs)" "gs = drop (length fs) (fs @ gs)" by simp_all
  then have fs: "fs = map (nth_frame d xs) (take (length fs) is)" "gs = map (nth_frame d xs) (drop (length fs) is)"
    unfolding gs(2) by (simp_all add: take_map drop_map)
  have "rest @ later = concat (map fr_buf gs)"
    using delim.rcv_stream_total [of d "rest @ later"] gs(1) by auto
  also have "\<dots> = wire d xs (drop (length fs) is)"
    by (subst fs(2)) (simp add: wire_def comp_def)
  finally have "rest @ later = wire d xs (drop (length fs) is)" .
  then show ?thesis using that [of "length fs" rest] r fs(1) by simp
qed

section \<open>All ports\<close>

lemma delim_handle_all_append:
  "delim_handle_all (ps @ qs) s =
    (case delim_handle_all ps s of (out, s1) \<Rightarrow> case delim_handle_all qs s1 of (outs, s2) \<Rightarrow> (out @ outs, s2))"
  by (induction ps s rule: delim_handle_all.induct) (auto split: prod.splits)

definition handle_positions ::
  "u32 \<Rightarrow> u8 list list \<Rightarrow> ((nat \<times> nat) \<times> nat) list \<Rightarrow> delim_frag \<Rightarrow> u8 list list \<times> delim_frag" where
  "handle_positions d xs ps q = delim_handle_all (map (\<lambda>(t, i). (t, nth_frame d xs i)) ps) q"

lemma sum_take_drop:
  fixes J :: "nat \<Rightarrow> nat list"
  assumes "p < num"
  shows "mset (take k (J p)) + (\<Sum>i < num. mset ((J(p := drop k (J p))) i)) = (\<Sum>i < num. mset (J i))"
proof -
  have "(\<Sum>i < num. mset ((J(p := drop k (J p))) i)) = mset (drop k (J p)) + (\<Sum>i \<in> {..<num} - {p}. mset (J i))"
    using assms by (subst sum.remove [of _ p]) (auto intro: sum.cong)
  moreover have "(\<Sum>i < num. mset (J i)) = mset (J p) + (\<Sum>i \<in> {..<num} - {p}. mset (J i))"
    using assms by (intro sum.remove) auto
  moreover have "mset (take k (J p)) + mset (drop k (J p)) = mset (J p)"
    by (simp flip: mset_append)
  ultimately show ?thesis by (simp add: add.assoc [symmetric])
qed

definition on_time :: "nat \<Rightarrow> nat \<Rightarrow> nat \<times> nat \<Rightarrow> bool" where
  "on_time t0 t1 t \<longleftrightarrow> t0 \<le> fst t \<and> snd t \<le> t1"

text \<open>However the ports are read, the frames on them are handled, each once, in some order.\<close>

lemma ports_run:
  assumes "\<forall>p. bufs p @ port_data p reads = wire d xs (J p)" "\<forall>p. fr_len (delim_check d (bufs p)) = 0"
    and "\<forall>p. num \<le> p \<longrightarrow> J p = []" "\<forall>p. \<forall>i \<in> set (J p). clean d (of_nat i) (xs ! i)"
    and "pv_framing c = DelimFraming d q"
    and "list_all (\<lambda>(p, clock, data). \<forall>k. on_time t0 t1 (clock k)) reads"
  shows "\<exists>ps st. mset (map snd ps) = (\<Sum>i < num. mset (J i)) \<and> list_all (\<lambda>(t, i). on_time t0 t1 t) ps
    \<and> rcv_ports_all reads (c, bufs) = Some (fst (handle_positions d xs ps q), st)"
  using assms
proof (induction reads arbitrary: bufs J c q)
  case Nil
  have "J p = []" for p using Nil.prems wire_waits [of "J p" d xs] by (metis append_Nil2 port_data.simps(1))
  then show ?case by (intro exI [of _ "[]"]) (simp add: handle_positions_def)
next
  case (Cons r reads)
  obtain p clock data where r: "r = (p, clock, data)" by (cases r)
  have "(bufs p @ data) @ port_data p reads = wire d xs (J p)"
    using Cons.prems(1) [rule_format, of p] by (simp add: r)
  then obtain k rest where k: "rcv_stream (delim_check d) (bufs p @ data) = Some (map (nth_frame d xs) (take k (J p)), rest)"
    "rest @ port_data p reads = wire d xs (drop k (J p))" "fr_len (delim_check d rest) = 0"
    using rcv_stream_beginning Cons.prems(4) by metis
  let ?J = "J(p := drop k (J p))" and ?bufs = "bufs(p := rest)"
  define ps where "ps = zip (map clock [0..<length (take k (J p))]) (take k (J p))"
  obtain out q1 where h: "handle_positions d xs ps q = (out, q1)" by fastforce
  define c1 where "c1 = c\<lparr>pv_framing := DelimFraming d q1, pv_stream_buf := []\<rparr>"
  have zip: "zip (map clock [0..<length (take k (J p))]) (map (nth_frame d xs) (take k (J p))) =
      map (\<lambda>(t, i). (t, nth_frame d xs i)) ps"
    unfolding ps_def by (simp add: zip_map2)
  have step: "rcv_port_handler p clock data (c, bufs) = Some (out, c1, ?bufs)"
    using k(1) h zip
    by (simp add: rcv_port_handler_def rcv_stream_handler_def framer_def Cons.prems(5) handle_frames_delim
        handle_positions_def c1_def)
  have bufs: "\<forall>q. ?bufs q @ port_data q reads = wire d xs (?J q)"
  proof
    fix j
    show "?bufs j @ port_data j reads = wire d xs (?J j)"
      using Cons.prems(1) [rule_format, of j] k(2) by (cases "j = p") (simp_all add: r)
  qed
  have rest: "\<forall>q. fr_len (delim_check d (?bufs q)) = 0" using Cons.prems(2) k(3) by simp
  have ports: "\<forall>q. num \<le> q \<longrightarrow> ?J q = []" using Cons.prems(3) by simp
  have good: "\<forall>q. \<forall>i \<in> set (?J q). clean d (of_nat i) (xs ! i)"
    using Cons.prems(4) by (auto dest: in_set_dropD)
  have frm: "pv_framing c1 = DelimFraming d q1" by (simp add: c1_def)
  have times: "list_all (\<lambda>(p, clock, data). \<forall>k. on_time t0 t1 (clock k)) reads" "\<forall>k. on_time t0 t1 (clock k)"
    using Cons.prems(6) by (simp_all add: r)
  obtain qs st where IH: "mset (map snd qs) = (\<Sum>i < num. mset (?J i))" "list_all (\<lambda>(t, i). on_time t0 t1 t) qs"
    "rcv_ports_all reads (c1, ?bufs) = Some (fst (handle_positions d xs qs q1), st)"
    using Cons.IH [OF bufs rest ports good frm times(1)] by blast
  have "mset (map snd ps) = mset (take k (J p))" by (simp add: ps_def)
  then have "mset (map snd (ps @ qs)) = (\<Sum>i < num. mset (J i))"
    using IH(1) sum_take_drop [of p num k J] Cons.prems(3) by (cases "p < num") (auto intro: sum.cong)
  moreover have "list_all (\<lambda>(t, i). on_time t0 t1 t) (ps @ qs)"
    using IH(2) times(2) by (auto simp: ps_def list_all_iff set_zip)
  moreover have "rcv_ports_all (r # reads) (c, bufs) = Some (fst (handle_positions d xs (ps @ qs) q), st)"
    using step IH(3) h by (simp add: r handle_positions_def delim_handle_all_append split: prod.splits)
  ultimately show ?case by blast
qed

section \<open>What is on the ports\<close>

lemma port_sent_append: "port_sent p (ws @ vs) = port_sent p ws @ port_sent p vs"
  by (induction p ws rule: port_sent.induct) auto

lemma port_sent_nth:
  "port_sent p ws = concat (map (\<lambda>i. snd (ws ! i)) (filter (\<lambda>i. fst (ws ! i) = p) [0..<length ws]))"
proof (induction ws rule: rev_induct)
  case (snoc w ws)
  have "filter (\<lambda>i. fst ((ws @ [w]) ! i) = p) [0..<length ws] = filter (\<lambda>i. fst (ws ! i) = p) [0..<length ws]"
    by (intro filter_cong) (simp_all add: nth_append)
  moreover have "map (\<lambda>i. snd ((ws @ [w]) ! i)) (filter (\<lambda>i. fst (ws ! i) = p) [0..<length ws]) =
      map (\<lambda>i. snd (ws ! i)) (filter (\<lambda>i. fst (ws ! i) = p) [0..<length ws])"
    by (simp add: nth_append)
  ultimately have "map (\<lambda>i. snd ((ws @ [w]) ! i)) (filter (\<lambda>i. fst ((ws @ [w]) ! i) = p) [0..<length ws]) =
      map (\<lambda>i. snd (ws ! i)) (filter (\<lambda>i. fst (ws ! i) = p) [0..<length ws])" by simp
  then show ?case using snoc by (cases w) (simp add: port_sent_append del: filter.simps map_eq_conv)
qed simp

lemma sum_by_port:
  fixes f :: "nat \<Rightarrow> nat"
  assumes "\<forall>i \<in> set is. f i < num"
  shows "(\<Sum>p < num. mset (filter (\<lambda>i. f i = p) is)) = mset is"
  using assms
proof (induction "is")
  case (Cons i "is")
  have "mset (filter (\<lambda>i. f i = p) (i # is)) = (if f i = p then {#i#} else {#}) + mset (filter (\<lambda>i. f i = p) is)" for p
    by simp
  then have "(\<Sum>p < num. mset (filter (\<lambda>i. f i = p) (i # is))) =
      (\<Sum>p < num. if f i = p then {#i#} else {#}) + (\<Sum>p < num. mset (filter (\<lambda>i. f i = p) is))"
    by (simp only: sum.distrib)
  then show ?case using Cons by (simp add: sum.delta)
qed simp

lemma rcv_udp_all_nth:
  assumes "pv_delim c = d" "d \<noteq> 0" "pv_delim_seq c = s"
  shows "fst (rcv_udp_all xs c) = map (\<lambda>i. xs ! i @ trailer d (s + of_nat i)) [0..<length xs]"
  using assms
proof (induction xs arbitrary: c s)
  case (Cons x xs)
  let ?c = "c\<lparr>pv_delim_seq := s + 1\<rparr>"
  have "fst (rcv_udp_all (x # xs) c) = (x @ trailer d s) # fst (rcv_udp_all xs ?c)"
    using Cons.prems by (auto simp: rcv_udp_handler_def add_delim_def split: prod.splits)
  also have "fst (rcv_udp_all xs ?c) = map (\<lambda>i. xs ! i @ trailer d (s + 1 + of_nat i)) [0..<length xs]"
    by (rule Cons.IH) (simp_all add: Cons.prems)
  also have "(x @ trailer d s) # \<dots> = map (\<lambda>i. (x # xs) ! i @ trailer d (s + of_nat i)) [0..<length (x # xs)]"
    by (simp add: upt_conv_Cons map_Suc_upt [symmetric] comp_def add.assoc del: upt_Suc map_Suc_upt)
  finally show ?case .
qed simp

lemma nth_frames:
  assumes "length xs \<le> 2147483647"
  shows "numbered 0 (length xs) (nth_frame d xs)" "framed (length xs) (nth_frame d xs)"
    "map (\<lambda>i. payload (nth_frame d xs i)) [0..<length xs] = xs"
  using assms
  by (simp_all add: numbered_def framed_def nth_frame_def mk_frame_def write_frame_def map_nth)

section \<open>End to end\<close>

lemma distinct_positions: "mset ps = mset [0..<n] \<Longrightarrow> distinct ps \<and> set ps = {..<n}"
  by (metis atLeast_upt distinct_upt mset_eq_imp_distinct_iff mset_eq_setD)

text \<open>
  C6. Datagrams over several serial ports: the first converter's manager has started its messages of
  the first datagrams \<open>xs\<close> on whichever ports were idle, and the second converter reads every port to its end,
  the ports interleaved in any way and the bytes in any pieces. Then it sends exactly \<open>xs\<close>, in order, whenever
  after its start that happens, provided the reads lie within \<open>SeqMaxTms\<close> of one another and there are at most
  \<open>SeqMaxQ + 1\<close> datagrams, so that all may overtake one another. The further conditions: both converters use the
  same delimiter, and it is not 0; \<open>clean_run\<close>, no datagram is too long for a message of the delimiter or contains
  a valid trailer of its own; and there are no more datagrams than the first converter's write queue holds
  (so that none was dropped) and than half the circle of sequence numbers.
\<close>

theorem conv_multi_path:
  assumes "new_proto_conv fs1 rd1 op1 cs1 now1 a = Inr c" "new_proto_conv fs2 rd2 op2 cs2 now2 b = Inr r"
    and "va_delim a = d" "va_delim b = d" "d \<noteq> 0" "clean_run d 0 xs" "length xs \<le> 2147483647"
    and "pv_stream c = SerialStream settings (new_serial_mgr num mq)" "serial_reach num mq s"
    and "ss_accepted s = fst (rcv_udp_all xs c)" "length xs \<le> mq" "sm_write_q (ss_mgr s) = []"
    and "\<forall>p. port_data p reads = port_sent p (ss_started s)"
    and "length xs \<le> va_seq_max_q b + 1"
    and "list_all (\<lambda>(p, clock, data). \<forall>k. on_time t0 (t0 + va_seq_max_ms b * 1000000) (clock k)) reads"
  shows "\<exists>st. rcv_ports_all reads (r, \<lambda>_. []) = Some (xs, st)"
proof -
  let ?n = "length xs" and ?ws = "ss_started s" and ?F = "nth_frame d xs"
  have c: "pv_delim c = d" "pv_delim_seq c = 0" using new_proto_conv_delim [OF assms(1)] assms(3,5) by simp_all
  note rv = new_proto_conv_delim [OF assms(2), unfolded assms(4), OF assms(5)]
  have msgs: "ss_accepted s = map (\<lambda>i. fr_buf (?F i)) [0..<?n]"
    using rcv_udp_all_nth [OF c(1) assms(5) c(2), of xs] assms(10) by (simp add: nth_frame_def)
  have "map snd ?ws = ss_accepted s"
    using serial_reach_inv [OF assms(9)] assms(11,12) by (simp add: serial_inv_def msgs)
  then have ws: "map snd ?ws = map (\<lambda>i. fr_buf (?F i)) [0..<?n]" by (simp add: msgs)
  have len: "length ?ws = ?n" using arg_cong [OF ws, of length] by simp
  have "snd (?ws ! i) = fr_buf (?F i)" if "i < ?n" for i
    using arg_cong [OF ws, of "\<lambda>l. l ! i"] that len by simp
  then have sent: "port_sent p ?ws = wire d xs (filter (\<lambda>i. fst (?ws ! i) = p) [0..<?n])" for p
    unfolding port_sent_nth wire_def len by (intro arg_cong [of _ _ concat] map_cong) auto
  obtain N where N: "\<forall>i \<in> set [0..<?n]. fst (?ws ! i) < N"
    using finite_nat_set_iff_bounded [of "(\<lambda>i. fst (?ws ! i)) ` set [0..<?n]"] by auto
  let ?J = "\<lambda>p. filter (\<lambda>i. fst (?ws ! i) = p) [0..<?n]"
  let ?q = "new_delim_frag (va_seq_max_q b) (va_seq_max_ms b) now2" and ?t1 = "t0 + va_seq_max_ms b * 1000000"
  obtain ps st where ps: "mset (map snd ps) = (\<Sum>p < N. mset (?J p))" "list_all (\<lambda>(t, i). on_time t0 ?t1 t) ps"
    "rcv_ports_all reads (r, \<lambda>_. []) = Some (fst (handle_positions d xs ps ?q), st)"
  proof (rule exE [OF ports_run [of "\<lambda>_. []" reads d xs ?J N r ?q t0 ?t1]])
    show "\<forall>p. [] @ port_data p reads = wire d xs (?J p)" using assms(13) sent by simp
    show "\<forall>p. N \<le> p \<longrightarrow> ?J p = []" using N by (auto simp: filter_empty_conv)
    show "\<forall>p. \<forall>i \<in> set (?J p). clean d (of_nat i) (xs ! i)"
      using clean_run_nth [OF assms(6)] by auto
    show "pv_framing r = DelimFraming d ?q" by (rule rv)
  qed (use delim.check_Nil assms(15) in auto)
  have "mset (map snd ps) = mset [0..<?n]" using ps(1) sum_by_port [OF N] by simp
  then have pos: "distinct (map snd ps)" "set (map snd ps) = {..<?n}" using distinct_positions by blast+
  have "\<exists>s'. delim_handle_all (map (\<lambda>(t, p). (t, ?F p)) ps) ?q = (map (\<lambda>i. payload (?F i)) [0..<?n], s')
      \<and> delim_idle (0 + of_nat ?n) s'"
    using pos ps(2) assms(14)
    by (intro window_run [OF nth_frames(1,2) [OF assms(7)] window_start [OF new_delim_idle, of _ t0]])
      (auto simp: new_delim_frag_def on_time_def)
  then show ?thesis using ps(3) nth_frames(3) [OF assms(7)] by (auto simp: handle_positions_def)
qed

text \<open>Two empty datagrams over two ports, the second port read first, a minute after the start.\<close>

definition demo_serial_args :: conv_args where
  "demo_serial_args = demo_conv_args\<lparr>va_tcp_addr := [], va_serial_devices := [''s'', ''t'']\<rparr>"

definition demo_serial_conv :: proto_conv where
  "demo_serial_conv = demo_conv\<lparr>pv_stream := SerialStream [default_settings, default_settings] (new_serial_mgr 2 1024)\<rparr>"

lemma demo_serial_conv:
  "new_proto_conv Some (\<lambda>s. Some (1, s)) (\<lambda>d. True) (\<lambda>n. True) 0 demo_serial_args = Inr demo_serial_conv"
proof -
  have "new_serial_mgr (Suc (Suc 0)) 1024 = new_serial_mgr 2 1024" by (simp only: numeral_2_eq_2)
  then show ?thesis
    by (simp add: new_proto_conv_def select_framing_def select_stream_def open_serial_def serial_options_def
        demo_serial_args_def demo_conv_args_def demo_serial_conv_def demo_conv_def)
qed

definition demo_serial_sys :: serial_sys where
  "demo_serial_sys =
    \<lparr>ss_mgr = (new_serial_mgr 2 1024)\<lparr>sm_idle := []\<rparr>, ss_busy = [(0, trailer 7 0), (1, trailer 7 1)],
     ss_started = [(0, trailer 7 0), (1, trailer 7 1)], ss_accepted = [trailer 7 0, trailer 7 1]\<rparr>"

lemma demo_serial_reach: "serial_reach 2 1024 demo_serial_sys"
proof -
  let ?m = "(new_serial_mgr 2 1024)\<lparr>sm_idle := [1]\<rparr>"
  have 1: "serial_reach 2 1024 \<lparr>ss_mgr = ?m, ss_busy = [(0, trailer 7 0)], ss_started = [(0, trailer 7 0)],
      ss_accepted = [trailer 7 0]\<rparr>"
    using serial_reach.accept [OF serial_reach.start, of "trailer 7 0" 2 1024 "[(0, trailer 7 0)]" ?m]
    by (simp add: serial_write_def new_serial_mgr_def numeral_2_eq_2)
  show ?thesis
    using serial_reach.accept [OF 1, of "trailer 7 1" "[(1, trailer 7 1)]" "?m\<lparr>sm_idle := []\<rparr>"]
    by (simp add: serial_write_def new_serial_mgr_def demo_serial_sys_def)
qed

theorem conv_multi_path_witness:
  "\<exists>st. rcv_ports_all [(1, \<lambda>_. (60000000000, 60000000000), trailer 7 1), (0, \<lambda>_. (60000000001, 60000000001), trailer 7 0)] (demo_serial_conv, \<lambda>_. []) =
    Some ([[], []], st)"
proof (rule conv_multi_path [OF demo_serial_conv demo_serial_conv, where d = 7 and s = demo_serial_sys and ?t0.0 = 60000000000])
  show "serial_reach 2 1024 demo_serial_sys" by (rule demo_serial_reach)
  show "ss_accepted demo_serial_sys = fst (rcv_udp_all [[], []] demo_serial_conv)"
    by (simp add: rcv_udp_all_nth [of _ 7 0] demo_serial_conv_def demo_conv_def demo_serial_sys_def del: rcv_udp_all.simps)
qed (simp_all add: demo_serial_args_def demo_conv_args_def clean_def demo_serial_conv_def demo_serial_sys_def
    new_serial_mgr_def on_time_def)

end
