(* ===== verification/FragStrands.thy ===== *)
theory FragStrands
  imports SerialStream
begin

text \<open>
  The converter from its frames to its socket: the strands of \<open>src/src/ProtoConv/DelimFragHandler.h\<close> and
  \<open>DNP3FragHandler.cpp\<close>, and \<open>WriteUDPHandler\<close> of \<open>ProtoConv.cpp\<close>, in any interleaving. Frames come from the
  strand of the TCP manager or from those of several serial ports, one at a time.
\<close>

section \<open>Steps\<close>

text \<open>The frames posted to the strand of the handler, those passed on to the strands of their flows, and the
  datagrams posted to the socket strand, each with the flow of its frame, or \<open>None\<close> when it was passed through.
  The histories are the frames given to \<open>HandleFrame\<close>, and the datagrams sent.\<close>

record frag_sys =
  fg_framing :: framing
  fg_posted :: "frame list"
  fg_flow_q :: "frame list"
  fg_sends :: "(u64 option \<times> u8 list) list"
  fg_frames :: "frame list"
  fg_sent :: "(u64 option \<times> u8 list) list"

definition new_frag_sys :: "framing \<Rightarrow> frag_sys" where
  "new_frag_sys fr = \<lparr>fg_framing = fr, fg_posted = [], fg_flow_q = [], fg_sends = [], fg_frames = [], fg_sent = []\<rparr>"

text \<open>The frames \<open>HandleFrame\<close> posts; the others it writes at once.\<close>

definition is_posted :: "framing \<Rightarrow> frame \<Rightarrow> bool" where
  "is_posted fr f =
    (case fr of
       DelimFraming _ _ \<Rightarrow> \<not> (fr_flow f \<noteq> 1 \<or> fr_len f < 10)
     | DNP3Framing _ \<Rightarrow> fr_flow f \<noteq> 0
     | NullFraming \<Rightarrow> False)"

definition frame_comes :: "frame \<Rightarrow> frag_sys \<Rightarrow> frag_sys" where
  "frame_comes f y =
    (let y1 = y\<lparr>fg_frames := fg_frames y @ [f]\<rparr>
     in if is_posted (fg_framing y) f then y1\<lparr>fg_posted := fg_posted y @ [f]\<rparr>
        else y1\<lparr>fg_sends := fg_sends y @ [(None, write_frame f (fr_len f))]\<rparr>)"

text \<open>The posted handler: the reordering queue, or the marshalling strand, which finds or makes the flow.\<close>

definition strand_runs :: "nat \<times> nat \<Rightarrow> frag_sys \<Rightarrow> frag_sys" where
  "strand_runs t y =
    (case (fg_framing y, fg_posted y) of
       (DelimFraming d s, f # fs) \<Rightarrow>
         (case delim_post t f s of (out, s') \<Rightarrow>
           y\<lparr>fg_framing := DelimFraming d s', fg_posted := fs, fg_sends := fg_sends y @ map (Pair (Some (fr_flow f))) out\<rparr>)
     | (DNP3Framing flows, f # fs) \<Rightarrow>
         y\<lparr>fg_framing := DNP3Framing (flows(fr_flow f \<mapsto> flow_state (fr_flow f) flows)), fg_posted := fs,
           fg_flow_q := fg_flow_q y @ [f]\<rparr>
     | _ \<Rightarrow> y)"

definition flow_runs :: "frame \<Rightarrow> frag_sys \<Rightarrow> frag_sys" where
  "flow_runs f y =
    (case fg_framing y of
       DNP3Framing flows \<Rightarrow>
         (case flow_handle f (flow_state (fr_flow f) flows) of (out, s) \<Rightarrow>
           y\<lparr>fg_framing := DNP3Framing (flows(fr_flow f \<mapsto> s)), fg_flow_q := remove1 f (fg_flow_q y),
             fg_sends := fg_sends y @ map (Pair (Some (fr_flow f))) out\<rparr>)
     | _ \<Rightarrow> y)"

definition udp_send :: "frag_sys \<Rightarrow> frag_sys" where
  "udp_send y = y\<lparr>fg_sends := tl (fg_sends y), fg_sent := fg_sent y @ [hd (fg_sends y)]\<rparr>"

inductive frag_reach :: "framing \<Rightarrow> frag_sys \<Rightarrow> bool" for fr where
  start: "frag_reach fr (new_frag_sys fr)"
| frame: "frag_reach fr y \<Longrightarrow> frag_reach fr (frame_comes f y)"
| strand: "frag_reach fr y \<Longrightarrow> fg_posted y \<noteq> [] \<Longrightarrow> frag_reach fr (strand_runs t y)"
| flow: "frag_reach fr y \<Longrightarrow> find (\<lambda>g. fr_flow g = fr_flow f) (fg_flow_q y) = Some f \<Longrightarrow> frag_reach fr (flow_runs f y)"
| send: "frag_reach fr y \<Longrightarrow> fg_sends y \<noteq> [] \<Longrightarrow> frag_reach fr (udp_send y)"

section \<open>Each flow is served in order\<close>

text \<open>The datagrams of a flow, or those passed through, sent or posted.\<close>

definition datagrams :: "u64 option \<Rightarrow> frag_sys \<Rightarrow> u8 list list" where
  "datagrams x y = map snd (filter (\<lambda>w. fst w = x) (fg_sent y @ fg_sends y))"

definition frames_on :: "u64 \<Rightarrow> frame list \<Rightarrow> frame list" where
  "frames_on x fs = filter (\<lambda>f. fr_flow f = x) fs"

lemma datagrams_simps [simp]:
  "datagrams x (y\<lparr>fg_framing := fr\<rparr>) = datagrams x y" "datagrams x (y\<lparr>fg_posted := fs\<rparr>) = datagrams x y"
  "datagrams x (y\<lparr>fg_flow_q := fs\<rparr>) = datagrams x y" "datagrams x (y\<lparr>fg_frames := fs\<rparr>) = datagrams x y"
  "datagrams x (y\<lparr>fg_sends := fg_sends y @ ws\<rparr>) = datagrams x y @ map snd (filter (\<lambda>w. fst w = x) ws)"
  by (simp_all add: datagrams_def)

lemma datagrams_send: "fg_sends y \<noteq> [] \<Longrightarrow> datagrams x (udp_send y) = datagrams x y"
  by (cases "fg_sends y") (simp_all add: datagrams_def udp_send_def)

lemma writes_tagged: "map snd (filter (\<lambda>w. fst w = x) (map (Pair z) out)) = (if z = x then out else [])"
  by (induction out) auto

lemma frames_on_simps [simp]:
  "frames_on x [] = []" "frames_on x (fs @ gs) = frames_on x fs @ frames_on x gs"
  "frames_on x (f # fs) = (if fr_flow f = x then f # frames_on x fs else frames_on x fs)"
  by (simp_all add: frames_on_def)

text \<open>What every run keeps, for each kind of framing.\<close>

definition passed_on :: "framing \<Rightarrow> frag_sys \<Rightarrow> bool" where
  "passed_on fr y \<longleftrightarrow> datagrams None y = map (\<lambda>f. write_frame f (fr_len f)) (filter (\<lambda>f. \<not> is_posted fr f) (fg_frames y))"

definition delim_served :: "u32 \<Rightarrow> delim_frag \<Rightarrow> frag_sys \<Rightarrow> bool" where
  "delim_served d s0 y \<longleftrightarrow> (\<exists>ts fs s. fg_framing y = DelimFraming d s \<and> length ts = length fs
    \<and> filter (is_posted (DelimFraming d s0)) (fg_frames y) = fs @ fg_posted y
    \<and> delim_handle_all (zip ts fs) s0 = (datagrams (Some 1) y, s))"

definition dnp3_served :: "(u64 \<rightharpoonup> tx_flow) \<Rightarrow> frag_sys \<Rightarrow> bool" where
  "dnp3_served flows0 y \<longleftrightarrow> (\<exists>flows. fg_framing y = DNP3Framing flows
    \<and> list_all (\<lambda>f. fr_flow f \<noteq> 0) (fg_flow_q y @ fg_posted y)
    \<and> (\<forall>x. x \<noteq> 0 \<longrightarrow> (\<exists>fs. frames_on x (fg_frames y) = fs @ frames_on x (fg_flow_q y @ fg_posted y)
        \<and> flow_handle_all fs (flow_state x flows0) = (datagrams (Some x) y, flow_state x flows))))"

definition frag_inv :: "framing \<Rightarrow> frag_sys \<Rightarrow> bool" where
  "frag_inv fr y \<longleftrightarrow> passed_on fr y
    \<and> (case fr of DelimFraming d s0 \<Rightarrow> delim_served d s0 y | DNP3Framing flows0 \<Rightarrow> dnp3_served flows0 y
       | NullFraming \<Rightarrow> fg_framing y = NullFraming)"

lemma is_posted_delim: "is_posted (DelimFraming d s) f \<longleftrightarrow> fr_flow f = 1 \<and> 10 \<le> fr_len f"
  by (auto simp: is_posted_def)

lemma is_posted_dnp3: "is_posted (DNP3Framing flows) f \<longleftrightarrow> fr_flow f \<noteq> 0"
  by (simp add: is_posted_def)

lemma is_posted_null: "\<not> is_posted NullFraming f"
  by (simp add: is_posted_def)

lemmas is_posted_simps = is_posted_delim is_posted_dnp3 is_posted_null

lemma flow_handle_all_snoc:
  "flow_handle_all (fs @ [f]) s =
    (case flow_handle_all fs s of (out, s1) \<Rightarrow> case flow_handle f s1 of (o2, s2) \<Rightarrow> (out @ o2, s2))"
  by (induction fs s rule: flow_handle_all.induct) (auto split: prod.splits)

lemma delim_handle_all_snoc:
  "length ts = length fs \<Longrightarrow> delim_handle_all (zip (ts @ [t]) (fs @ [f])) s =
    (case delim_handle_all (zip ts fs) s of (out, s1) \<Rightarrow> case delim_handle t f s1 of (o2, s2) \<Rightarrow> (out @ o2, s2))"
  by (auto simp: delim_handle_all_append split: prod.splits)

lemma frag_inv_start: "frag_inv fr (new_frag_sys fr)"
proof -
  have "delim_handle_all (zip [] []) s = ([], s)" for s by simp
  then show ?thesis
    by (cases fr) (auto simp: frag_inv_def passed_on_def delim_served_def dnp3_served_def new_frag_sys_def datagrams_def
        intro: exI [of _ "[] :: (nat \<times> nat) list"] exI [of _ "[] :: frame list"])
qed

lemma frag_inv_frame:
  assumes "frag_inv fr y"
  shows "frag_inv fr (frame_comes f y)"
proof (cases fr)
  case (DelimFraming d s0)
  then obtain ts fs s where y: "fg_framing y = DelimFraming d s" "length ts = length fs"
      "filter (is_posted (DelimFraming d s0)) (fg_frames y) = fs @ fg_posted y"
      "delim_handle_all (zip ts fs) s0 = (datagrams (Some 1) y, s)"
    using assms by (auto simp: frag_inv_def delim_served_def)
  have "delim_served d s0 (frame_comes f y)"
    unfolding delim_served_def using y
    by (intro exI [of _ ts] exI [of _ fs] exI [of _ s])
      (auto simp: frame_comes_def Let_def is_posted_delim datagrams_def)
  moreover have "passed_on fr (frame_comes f y)"
    using assms y(1) DelimFraming by (auto simp: frag_inv_def passed_on_def frame_comes_def is_posted_delim datagrams_def Let_def)
  ultimately show ?thesis using DelimFraming by (simp add: frag_inv_def)
next
  case (DNP3Framing flows0)
  then obtain flows where y: "fg_framing y = DNP3Framing flows" "list_all (\<lambda>f. fr_flow f \<noteq> 0) (fg_flow_q y @ fg_posted y)"
      "\<And>x. x \<noteq> 0 \<Longrightarrow> \<exists>fs. frames_on x (fg_frames y) = fs @ frames_on x (fg_flow_q y @ fg_posted y)
        \<and> flow_handle_all fs (flow_state x flows0) = (datagrams (Some x) y, flow_state x flows)"
    using assms by (auto simp: frag_inv_def dnp3_served_def)
  have "\<exists>fs. frames_on x (fg_frames (frame_comes f y)) = fs @ frames_on x (fg_flow_q (frame_comes f y) @ fg_posted (frame_comes f y))
      \<and> flow_handle_all fs (flow_state x flows0) = (datagrams (Some x) (frame_comes f y), flow_state x flows)" if "x \<noteq> 0" for x
    using y(3) [OF that] that y(1)
    by (auto simp: frame_comes_def Let_def is_posted_dnp3 datagrams_def)
  then have "dnp3_served flows0 (frame_comes f y)"
    unfolding dnp3_served_def using y(1,2)
    by (intro exI [of _ flows]) (auto simp: frame_comes_def is_posted_dnp3 Let_def)
  moreover have "passed_on fr (frame_comes f y)"
    using assms y(1) DNP3Framing by (auto simp: frag_inv_def passed_on_def frame_comes_def is_posted_dnp3 datagrams_def Let_def)
  ultimately show ?thesis using DNP3Framing by (simp add: frag_inv_def)
next
  case NullFraming
  then show ?thesis
    using assms by (auto simp: frag_inv_def passed_on_def frame_comes_def is_posted_null datagrams_def Let_def)
qed

lemma frag_inv_strand:
  assumes "frag_inv fr y" "fg_posted y \<noteq> []"
  shows "frag_inv fr (strand_runs t y)"
proof -
  obtain f ps where p: "fg_posted y = f # ps" using assms(2) by (cases "fg_posted y") auto
  show ?thesis
  proof (cases fr)
    case (DelimFraming d s0)
    then obtain ts fs s where y: "fg_framing y = DelimFraming d s" "length ts = length fs"
        "filter (is_posted (DelimFraming d s0)) (fg_frames y) = fs @ f # ps"
        "delim_handle_all (zip ts fs) s0 = (datagrams (Some 1) y, s)"
      using assms p by (auto simp: frag_inv_def delim_served_def)
    have "f \<in> set (filter (is_posted (DelimFraming d s0)) (fg_frames y))" using y(3) by simp
    then have f: "fr_flow f = 1" "10 \<le> fr_len f" by (simp_all add: is_posted_delim)
    obtain out s' where o: "delim_post t f s = (out, s')" by fastforce
    have z: "strand_runs t y = y\<lparr>fg_framing := DelimFraming d s', fg_posted := ps,
        fg_sends := fg_sends y @ map (Pair (Some 1)) out\<rparr>"
      using y(1) p o f by (simp add: strand_runs_def)
    have dg: "datagrams x (strand_runs t y) = datagrams x y @ (if x = Some 1 then out else [])" for x
      using writes_tagged [of x "Some 1" out] by (auto simp: z datagrams_def)
    have "delim_handle_all (zip (ts @ [t]) (fs @ [f])) s0 = (datagrams (Some 1) (strand_runs t y), s')"
      using delim_handle_all_snoc [OF y(2), of t f s0] y(2,4) o f dg by (simp add: delim_handle_def)
    then have "delim_served d s0 (strand_runs t y)"
      unfolding delim_served_def using y(2,3)
      by (intro exI [of _ "ts @ [t]"] exI [of _ "fs @ [f]"] exI [of _ s']) (simp add: z)
    then show ?thesis using assms(1) DelimFraming dg [of None] by (simp add: frag_inv_def passed_on_def z)
  next
    case (DNP3Framing flows0)
    then obtain flows where y: "fg_framing y = DNP3Framing flows" "list_all (\<lambda>f. fr_flow f \<noteq> 0) (fg_flow_q y @ f # ps)"
        "\<And>x. x \<noteq> 0 \<Longrightarrow> \<exists>fs. frames_on x (fg_frames y) = fs @ frames_on x (fg_flow_q y @ f # ps)
          \<and> flow_handle_all fs (flow_state x flows0) = (datagrams (Some x) y, flow_state x flows)"
      using assms p by (auto simp: frag_inv_def dnp3_served_def)
    let ?flows = "flows(fr_flow f \<mapsto> flow_state (fr_flow f) flows)"
    have st: "flow_state x ?flows = flow_state x flows" for x by (simp add: flow_state_def)
    have z: "strand_runs t y = y\<lparr>fg_framing := DNP3Framing ?flows, fg_posted := ps, fg_flow_q := fg_flow_q y @ [f]\<rparr>"
      using y(1) p by (simp add: strand_runs_def)
    have dg: "datagrams x (strand_runs t y) = datagrams x y" for x by (simp add: z)
    have "dnp3_served flows0 (strand_runs t y)"
      unfolding dnp3_served_def using y(2,3) dg
      by (intro exI [of _ ?flows]) (simp add: z st del: fun_upd_apply)
    then show ?thesis using assms(1) DNP3Framing dg [of None] by (simp add: frag_inv_def passed_on_def z)
  next
    case NullFraming
    then show ?thesis using assms(1) by (simp add: frag_inv_def strand_runs_def)
  qed
qed

lemma first_of_flow:
  "find (\<lambda>g. fr_flow g = fr_flow f) q = Some f \<Longrightarrow>
    frames_on x q = (if x = fr_flow f then f # frames_on x (remove1 f q) else frames_on x (remove1 f q))"
  by (induction q) (auto split: if_splits)

lemma frag_inv_flow:
  assumes "frag_inv fr y" "find (\<lambda>g. fr_flow g = fr_flow f) (fg_flow_q y) = Some f"
  shows "frag_inv fr (flow_runs f y)"
proof (cases fr)
  case (DelimFraming d s0)
  then have "flow_runs f y = y" using assms(1) by (auto simp: frag_inv_def delim_served_def flow_runs_def)
  then show ?thesis using assms(1) by simp
next
  case (DNP3Framing flows0)
  then obtain flows where y: "fg_framing y = DNP3Framing flows" "list_all (\<lambda>f. fr_flow f \<noteq> 0) (fg_flow_q y @ fg_posted y)"
      "\<And>x. x \<noteq> 0 \<Longrightarrow> \<exists>fs. frames_on x (fg_frames y) = fs @ frames_on x (fg_flow_q y @ fg_posted y)
        \<and> flow_handle_all fs (flow_state x flows0) = (datagrams (Some x) y, flow_state x flows)"
    using assms(1) by (auto simp: frag_inv_def dnp3_served_def)
  let ?x = "fr_flow f" and ?q = "remove1 f (fg_flow_q y)"
  obtain out s where o: "flow_handle f (flow_state ?x flows) = (out, s)" by fastforce
  have z: "flow_runs f y = y\<lparr>fg_framing := DNP3Framing (flows(?x \<mapsto> s)), fg_flow_q := ?q,
      fg_sends := fg_sends y @ map (Pair (Some ?x)) out\<rparr>"
    using y(1) o by (simp add: flow_runs_def)
  have dg: "datagrams w (flow_runs f y) = datagrams w y @ (if w = Some ?x then out else [])" for w
    using writes_tagged [of w "Some ?x" out] by (auto simp: z datagrams_def)
  have "\<exists>fs. frames_on x (fg_frames y) = fs @ frames_on x (?q @ fg_posted y)
      \<and> flow_handle_all fs (flow_state x flows0) = (datagrams (Some x) (flow_runs f y), flow_state x (flows(?x \<mapsto> s)))"
    if nz: "x \<noteq> 0" for x
  proof -
    obtain fs where fs: "frames_on x (fg_frames y) = fs @ frames_on x (fg_flow_q y @ fg_posted y)"
        "flow_handle_all fs (flow_state x flows0) = (datagrams (Some x) y, flow_state x flows)"
      using y(3) [OF nz] by blast
    show ?thesis
    proof (cases "x = ?x")
      case True
      then have "frames_on x (fg_frames y) = (fs @ [f]) @ frames_on x (?q @ fg_posted y)"
        using fs(1) first_of_flow [OF assms(2), of x] by simp
      moreover have "flow_handle_all (fs @ [f]) (flow_state x flows0) = (datagrams (Some x) y @ out, s)"
        using fs(2) o True by (simp add: flow_handle_all_snoc)
      ultimately show ?thesis using dg [of "Some x"] True by (intro exI [of _ "fs @ [f]"]) (simp add: flow_state_def)
    next
      case False
      then show ?thesis using fs first_of_flow [OF assms(2), of x] dg [of "Some x"]
        by (intro exI [of _ fs]) (simp add: flow_state_def)
    qed
  qed
  moreover have "list_all (\<lambda>f. fr_flow f \<noteq> 0) (?q @ fg_posted y)"
    using y(2) set_remove1_subset [of f "fg_flow_q y"] by (auto simp: list_all_iff)
  ultimately have "dnp3_served flows0 (flow_runs f y)"
    unfolding dnp3_served_def by (intro exI [of _ "flows(?x \<mapsto> s)"]) (simp add: z)
  then show ?thesis using assms(1) DNP3Framing dg [of None] by (simp add: frag_inv_def passed_on_def z)
next
  case NullFraming
  then show ?thesis using assms(1) by (simp add: frag_inv_def flow_runs_def)
qed

lemma frag_inv_send:
  assumes "frag_inv fr y" "fg_sends y \<noteq> []"
  shows "frag_inv fr (udp_send y)"
proof -
  have "fg_framing (udp_send y) = fg_framing y" "fg_posted (udp_send y) = fg_posted y"
    "fg_flow_q (udp_send y) = fg_flow_q y" "fg_frames (udp_send y) = fg_frames y"
    by (simp_all add: udp_send_def)
  then show ?thesis using assms(1) datagrams_send [OF assms(2)]
    by (cases fr) (simp_all add: frag_inv_def passed_on_def delim_served_def dnp3_served_def)
qed

lemma frag_reach_inv: "frag_reach fr y \<Longrightarrow> frag_inv fr y"
  by (induction rule: frag_reach.induct)
    (simp_all add: frag_inv_start frag_inv_frame frag_inv_strand frag_inv_flow frag_inv_send)

section \<open>Properties\<close>

text \<open>
  C12. Each flow is served as if alone: in every run of the strands behind the frame checker, the datagrams
  written for the frames of the delimiter are those of the reordering queue run over these frames in their
  order, up to those still posted; for DNP3 the same holds of every flow by itself, however the strands of the
  flows interleave; and the data passed through is written in the order it came.
\<close>

theorem strands_serve_flows:
  assumes "frag_reach fr y"
  shows "datagrams None y = map (\<lambda>f. write_frame f (fr_len f)) (filter (\<lambda>f. \<not> is_posted fr f) (fg_frames y))
    \<and> (case fr of
         DelimFraming d s0 \<Rightarrow> \<exists>ts fs s. length ts = length fs
           \<and> filter (is_posted fr) (fg_frames y) = fs @ fg_posted y
           \<and> delim_handle_all (zip ts fs) s0 = (datagrams (Some 1) y, s)
       | DNP3Framing flows0 \<Rightarrow> \<forall>x. x \<noteq> 0 \<longrightarrow> (\<exists>fs s. frames_on x (fg_frames y) = fs @ frames_on x (fg_flow_q y @ fg_posted y)
           \<and> flow_handle_all fs (flow_state x flows0) = (datagrams (Some x) y, s))
       | NullFraming \<Rightarrow> True)"
  using frag_reach_inv [OF assms]
  by (cases fr) (auto simp: frag_inv_def passed_on_def delim_served_def dnp3_served_def)

text \<open>
  Data passed through may overtake the frames before it: a frame with a delimiter waits on the strand while the
  unframed bytes that followed it are already posted to the socket.
\<close>

definition demo_framed :: frame where
  "demo_framed = (mk_frame 11 True True 1 0)\<lparr>fr_buf := 5 # trailer 7 0\<rparr>"

definition overtaken :: frag_sys where
  "overtaken = frame_comes ((raw_frame 1)\<lparr>fr_buf := [9]\<rparr>) (frame_comes demo_framed
    (new_frag_sys (DelimFraming 7 (new_delim_frag 100 5000 0))))"

lemma overtaken_reach: "frag_reach (DelimFraming 7 (new_delim_frag 100 5000 0)) overtaken"
  unfolding overtaken_def by (intro frag_reach.frame frag_reach.start)

lemma demo_posted: "fst (delim_post (0, 0) demo_framed (new_delim_frag 100 5000 0)) = [[5]]"
  by (simp add: delim_post_def demo_framed_def new_delim_frag_def mk_frame_def pq_push_def pq_top_def pq_pop_def
      drain.simps write_frame_def Let_def case_prod_beta)

lemma overtaken_sent:
  "fg_frames overtaken = [demo_framed, (raw_frame 1)\<lparr>fr_buf := [9]\<rparr>]"
  "fg_sends (strand_runs (0, 0) overtaken) = [(None, [9]), (Some 1, [5])]"
  "fg_sent (strand_runs (0, 0) overtaken) = []"
proof -
  have o: "overtaken = \<lparr>fg_framing = DelimFraming 7 (new_delim_frag 100 5000 0), fg_posted = [demo_framed], fg_flow_q = [],
      fg_sends = [(None, [9])], fg_frames = [demo_framed, (raw_frame 1)\<lparr>fr_buf := [9]\<rparr>], fg_sent = []\<rparr>"
    unfolding overtaken_def
    by (simp add: frame_comes_def new_frag_sys_def is_posted_def demo_framed_def mk_frame_def raw_frame_def write_frame_def)
  have "fr_flow demo_framed = 1" by (simp add: demo_framed_def mk_frame_def)
  then show "fg_frames overtaken = [demo_framed, (raw_frame 1)\<lparr>fr_buf := [9]\<rparr>]"
    "fg_sends (strand_runs (0, 0) overtaken) = [(None, [9]), (Some 1, [5])]"
    "fg_sent (strand_runs (0, 0) overtaken) = []"
    unfolding o using demo_posted by (simp_all add: strand_runs_def case_prod_beta)
qed

lemma overtaken_passed:
  "is_posted fr demo_framed \<longleftrightarrow> (case fr of NullFraming \<Rightarrow> False | _ \<Rightarrow> True)"
  "is_posted (DelimFraming d s) ((raw_frame 1)\<lparr>fr_buf := [9]\<rparr>) \<longleftrightarrow> False"
  "write_frame ((raw_frame 1)\<lparr>fr_buf := [9]\<rparr>) (fr_len ((raw_frame 1)\<lparr>fr_buf := [9]\<rparr>)) = [9]"
  by (simp_all add: is_posted_def demo_framed_def mk_frame_def raw_frame_def write_frame_def split: framing.split)

theorem strands_serve_flows_witness:
  "datagrams None overtaken = [[9]] \<and> datagrams (Some 1) (strand_runs (0, 0) overtaken) = [[5]]"
proof -
  have "datagrams None overtaken = map (\<lambda>f. write_frame f (fr_len f))
      (filter (\<lambda>f. \<not> is_posted (DelimFraming 7 (new_delim_frag 100 5000 0)) f) (fg_frames overtaken))"
    by (rule strands_serve_flows [OF overtaken_reach, THEN conjunct1])
  moreover have "datagrams (Some 1) (strand_runs (0, 0) overtaken) = [[5]]"
    by (simp only: datagrams_def overtaken_sent(2,3)) simp
  ultimately show ?thesis
    by (simp only: overtaken_sent(1) overtaken_passed filter.simps list.map framing.case simp_thms if_True if_False)
qed

theorem passthrough_overtakes:
  "fg_frames overtaken = [demo_framed, (raw_frame 1)\<lparr>fr_buf := [9]\<rparr>]
    \<and> fg_sends (strand_runs (0, 0) overtaken) = [(None, [9]), (Some 1, [5])]"
  using overtaken_sent by blast

end
