(* ===== verification/SocketToSocket.thy ===== *)
theory SocketToSocket
  imports UdpToStream FragStrands
begin

text \<open>
  Two converters joined by a TCP connection, with every strand of both: the receive loop and the process strand
  of the first, its TCP manager, the reads of the second, the strand of its reordering queue and its sends.
\<close>

section \<open>The receiving end\<close>

lemma length_delim_frames: "length (delim_frames d e xs) = length xs"
  by (induction xs arbitrary: e) auto

lemma take_delim_frames: "take n (delim_frames d e xs) = delim_frames d e (take n xs)"
proof (induction xs arbitrary: e n)
  case (Cons x xs)
  then show ?case by (cases n) auto
qed simp

lemma delim_frames_posted: "f \<in> set (delim_frames d e xs) \<Longrightarrow> is_posted (DelimFraming d' s) f"
  by (induction xs arbitrary: e) (auto simp: is_posted_delim mk_frame_def)

text \<open>The frames cut so far from a part of the stream are the first of those of the whole.\<close>

lemma frames_of_part:
  assumes "d \<noteq> 0" "clean_run d 0 xs" "concat cs @ later = delim_run d 0 xs"
    and "rcv_chunks (delim_check d) [] cs = Some (fs, rest)"
  shows "prefix fs (delim_frames d 0 xs)" "later = [] \<Longrightarrow> fs = delim_frames d 0 xs"
proof -
  have part: "rcv_stream (delim_check d) (concat cs) = Some (fs, rest)"
    using delim.rcv_chunks_stream [OF delim.check_Nil, of d cs] assms(4) by simp
  have whole: "rcv_stream (delim_check d) (concat cs @ later) = Some (delim_frames d 0 xs, [])"
    using rcv_stream_delim_run [OF assms(1,2)] assms(3) by simp
  show "prefix fs (delim_frames d 0 xs)"
    using delim.rcv_stream_append [OF part, of later] whole by (auto simp: prefix_def split: Option.bind_splits)
  show "later = [] \<Longrightarrow> fs = delim_frames d 0 xs" using part whole by simp
qed

text \<open>Every datagram is passed through or belongs to the delimiter's flow.\<close>

definition tags_ok :: "frag_sys \<Rightarrow> bool" where
  "tags_ok y \<longleftrightarrow> list_all (\<lambda>w. fst w = None \<or> fst w = Some 1) (fg_sent y @ fg_sends y)
    \<and> list_all (\<lambda>f. fr_flow f = 1) (fg_posted y) \<and> (\<exists>d s. fg_framing y = DelimFraming d s)"

lemma frag_reach_tags: "frag_reach (DelimFraming d s0) y \<Longrightarrow> tags_ok y"
proof (induction rule: frag_reach.induct)
  case start
  then show ?case by (simp add: tags_ok_def new_frag_sys_def)
next
  case (frame y f)
  then show ?case by (auto simp: tags_ok_def frame_comes_def is_posted_delim Let_def)
next
  case (strand y t)
  then show ?case
    by (cases "fg_posted y") (auto simp: tags_ok_def strand_runs_def list_all_iff split: prod.splits)
next
  case (flow y f)
  then show ?case by (auto simp: tags_ok_def flow_runs_def)
next
  case (send y)
  then show ?case by (cases "fg_sends y") (auto simp: tags_ok_def udp_send_def)
qed

lemma tagged_datagrams:
  "tags_ok y \<Longrightarrow> datagrams None y = [] \<Longrightarrow> datagrams (Some 1) y = map snd (fg_sent y @ fg_sends y)"
proof -
  assume t: "tags_ok y" and n: "datagrams None y = []"
  have "fst w = Some 1" if "w \<in> set (fg_sent y @ fg_sends y)" for w
  proof -
    have "fst w = None \<or> fst w = Some 1" using t that by (auto simp: tags_ok_def list_all_iff)
    moreover have "fst w \<noteq> None" using n that by (simp only: datagrams_def map_is_Nil_conv filter_empty_conv) blast
    ultimately show ?thesis by blast
  qed
  then have "filter (\<lambda>w. fst w = Some 1) (fg_sent y @ fg_sends y) = fg_sent y @ fg_sends y"
    by (simp only: filter_id_conv) blast
  then show "datagrams (Some 1) y = map snd (fg_sent y @ fg_sends y)" by (simp only: datagrams_def)
qed

lemma delim_strand_sends:
  assumes "frag_reach (DelimFraming d' s0) z" "df_q s0 = []" "df_expected s0 = 0"
    and "prefix (fg_frames z) (delim_frames d 0 xs)"
  shows "prefix (map snd (fg_sent z)) xs"
    and "fg_frames z = delim_frames d 0 xs \<Longrightarrow> fg_posted z = [] \<Longrightarrow> fg_sends z = [] \<Longrightarrow> map snd (fg_sent z) = xs"
proof -
  let ?fr = "DelimFraming d' s0"
  have post: "is_posted ?fr f" if "f \<in> set (fg_frames z)" for f
    using that assms(4) set_mono_prefix delim_frames_posted by blast
  then have all: "filter (is_posted ?fr) (fg_frames z) = fg_frames z" by simp
  have inv: "frag_inv ?fr z" by (rule frag_reach_inv [OF assms(1)])
  have none: "datagrams None z = []"
    using inv post by (simp add: frag_inv_def passed_on_def filter_empty_conv)
  obtain ts fs s where fs: "length ts = length fs" "fg_frames z = fs @ fg_posted z"
      "delim_handle_all (zip ts fs) s0 = (datagrams (Some 1) z, s)"
    using inv all by (auto simp: frag_inv_def delim_served_def)
  have "prefix fs (delim_frames d 0 xs)" using fs(2) assms(4) by (auto simp: prefix_def)
  then have fs': "fs = delim_frames d 0 (take (length fs) xs)"
    by (metis append_eq_conv_conj prefix_def take_delim_frames)
  have "length fs \<le> length xs"
    using \<open>prefix fs (delim_frames d 0 xs)\<close> prefix_length_le length_delim_frames by metis
  then have "datagrams (Some 1) z = take (length fs) xs"
    using delim_frames_handled [of ts "take (length fs) xs" s0 0 d] fs(1,3) fs' assms(2,3) by auto
  then have sent: "map snd (fg_sent z) @ map snd (fg_sends z) = take (length fs) xs"
    using tagged_datagrams [OF frag_reach_tags [OF assms(1)] none] by simp
  then show "prefix (map snd (fg_sent z)) xs" by (metis append.assoc append_take_drop_id prefixI)
  show "map snd (fg_sent z) = xs" if "fg_frames z = delim_frames d 0 xs" "fg_posted z = []" "fg_sends z = []"
    using sent that fs(2) length_delim_frames [of d 0 xs] by simp
qed

section \<open>The sending end\<close>

lemma rcv_udp_all_take: "fst (rcv_udp_all (take n xs) c) = take n (fst (rcv_udp_all xs c))"
proof (induction xs arbitrary: c n)
  case (Cons x xs)
  obtain w c1 where w: "rcv_udp_handler False x (length x) c = (w, c1)" by fastforce
  show ?case using Cons.IH [of _ c1] w by (cases n) (simp_all add: case_prod_beta)
qed simp

lemma clean_run_take: "clean_run d s xs \<Longrightarrow> clean_run d s (take n xs)"
  by (metis append_take_drop_id clean_run_prefix)

text \<open>The stream between the converters: the bytes sent and those still in the manager.\<close>

lemma stream_bytes:
  assumes "tcp_reach conf tidy now y" "length (sy_accepted y) \<le> tc_buffer_limit conf"
    and "prefix (sy_accepted y) (fst (rcv_udp_all xs c))"
  shows "sy_sent y @ unsent (sy_tcp y) y = delim_run (pv_delim c) (pv_delim_seq c) (take (length (sy_accepted y)) xs)"
proof -
  have "sy_accepted y = fst (rcv_udp_all (take (length (sy_accepted y)) xs) c)"
    using assms(3) by (metis append_eq_conv_conj prefix_def rcv_udp_all_take)
  moreover have "sy_sent y @ unsent (sy_tcp y) y = concat (sy_accepted y)"
    using tcp_reach_order_inv [OF assms(1)] assms(2) by (simp add: order_inv_def order_core_def)
  ultimately show ?thesis by (metis rcv_udp_all_delim)
qed

section \<open>Properties\<close>

text \<open>
  C5. Datagrams from one socket to the other, through all strands of both programs: two converters with the same
  delimiter, joined by TCP. The first is in any state of its receive loop and process strand, and its
  manager, in any state of a tidy run, has taken some of the messages written, no more than its write queue
  holds; the second has read some of the bytes sent, in whatever pieces, has cut frames from them and given some to
  its fragment handler, whose strand and sends are in any state. Then the datagrams sent at the far end are the first
  of those received at the near end: unchanged, in order, none twice. They are all of them as soon as nothing waits
  in any of these places. The conditions on the data are those of C4: the delimiter is not 0, and none of the
  datagrams received at the near end is too long for a message of the delimiter or contains a valid trailer of
  its own (\<open>clean_run\<close>).
\<close>

theorem conv_end_to_end:
  assumes "new_proto_conv fs1 rd1 op1 cs1 now1 a = Inr c" "new_proto_conv fs2 rd2 op2 cs2 now2 b = Inr r"
    and "va_delim a = d" "va_delim b = d" "d \<noteq> 0" "conv_in_reach c p" "clean_run d 0 (ci_arrived p)"
    and "conv_tcp_conf c = Some conf" "tcp_reach conf tidy now y"
    and "prefix (sy_accepted y) (ci_written p)" "length (sy_accepted y) \<le> tc_buffer_limit conf"
    and "concat reads @ transit = sy_sent y"
    and "rcv_chunks (framer (pv_framing r)) (pv_stream_buf r) reads = Some (fs, rest)"
    and "frag_reach (pv_framing r) z" "prefix (fg_frames z) fs"
  shows "prefix (map snd (fg_sent z)) (ci_arrived p)
    \<and> (ci_handlers p = [] \<and> sy_accepted y = ci_written p \<and> unsent (sy_tcp y) y = [] \<and> transit = []
        \<and> fg_frames z = fs \<and> fg_posted z = [] \<and> fg_sends z = [] \<longrightarrow> map snd (fg_sent z) = ci_arrived p)"
proof -
  have c: "pv_delim c = d" "pv_delim_seq c = 0" using new_proto_conv_delim [OF assms(1)] assms(3,5) by simp_all
  note r = new_proto_conv_delim [OF assms(2), unfolded assms(4), OF assms(5)]
  obtain xs where xs: "ci_arrived p = xs @ queued p" "rcv_udp_all xs c = (ci_written p, ci_conv p)"
    using conv_in_order [OF assms(6)] by (auto simp: in_order_def)
  define ys where "ys = take (length (sy_accepted y)) xs"
  have bytes: "concat reads @ transit @ unsent (sy_tcp y) y = delim_run d 0 ys"
    using stream_bytes [OF assms(9,11), of xs c] assms(10) xs(2) assms(12) [symmetric] c by (simp add: ys_def)
  have "clean_run d 0 ys"
    using assms(7) xs(1) clean_run_prefix clean_run_take unfolding ys_def by metis
  then have frames: "prefix fs (delim_frames d 0 ys)"
      "transit @ unsent (sy_tcp y) y = [] \<Longrightarrow> fs = delim_frames d 0 ys"
    using frames_of_part [OF assms(5) _ bytes, of fs rest] assms(13) r by (simp_all add: framer_def)
  have reach: "frag_reach (DelimFraming d (new_delim_frag (va_seq_max_q b) (va_seq_max_ms b) now2)) z"
    using assms(14) r by simp
  have part: "prefix (fg_frames z) (delim_frames d 0 ys)" using assms(15) frames(1) by (rule prefix_order.trans)
  note sends = delim_strand_sends [OF reach _ _ part]
  have q: "df_q (new_delim_frag m k n) = []" "df_expected (new_delim_frag m k n) = 0" for m k n
    by (simp_all add: new_delim_frag_def)
  have "prefix ys (ci_arrived p)" using xs(1) by (simp add: ys_def take_is_prefix prefix_prefix)
  moreover have "ys = ci_arrived p" if "ci_handlers p = []" "sy_accepted y = ci_written p"
  proof -
    have "length (ci_written p) = length xs" using xs(2) length_rcv_udp_all [of xs c] by simp
    then show ?thesis using that xs(1) by (simp add: ys_def queued_def)
  qed
  ultimately show ?thesis using sends(1) [OF q] sends(2) [OF q] frames(2) prefix_order.trans by auto
qed

text \<open>An empty datagram all the way.\<close>

definition demo_near :: conv_in where
  "demo_near = udp_handled (udp_received 2 False [] (new_conv_in demo_conv))"

definition demo_delim :: frame where
  "demo_delim = (mk_frame 10 True True 1 0)\<lparr>fr_buf := trailer 7 0\<rparr>"

definition demo_far :: frag_sys where
  "demo_far = udp_send (strand_runs (0, 0) (frame_comes demo_delim (new_frag_sys (pv_framing demo_conv))))"

lemma demo_near:
  "conv_in_reach demo_conv demo_near" "ci_written demo_near = [trailer 7 0]" "ci_arrived demo_near = [[]]"
  "ci_handlers demo_near = []"
proof -
  show "conv_in_reach demo_conv demo_near" unfolding demo_near_def
    by (intro conv_in_reach.handled conv_in_reach.received conv_in_reach.start)
      (simp_all add: new_conv_in_def rcv_udp_def conv_bufs_def udp_received_def Let_def)
qed (simp_all add: demo_near_def new_conv_in_def rcv_udp_def udp_received_def udp_handled_def rcv_udp_handler_def
    add_delim_def demo_conv_def fill_buf_def case_prod_beta)

lemma demo_far:
  "frag_reach (pv_framing demo_conv) demo_far" "fg_frames demo_far = [demo_delim]" "fg_posted demo_far = []"
  "fg_sends demo_far = []"
proof -
  let ?s = "new_delim_frag 100 5000 0"
  let ?y = "frame_comes demo_delim (new_frag_sys (pv_framing demo_conv))"
  have "fst (delim_post (0, 0) demo_delim ?s) = [[]]"
    by (simp add: delim_post_def demo_delim_def new_delim_frag_def mk_frame_def pq_push_def pq_top_def pq_pop_def
        drain.simps write_frame_def Let_def case_prod_beta)
  then obtain s where o: "delim_post (0, 0) demo_delim ?s = ([[]], s)" by (metis prod.collapse)
  have f: "fr_flow demo_delim = 1" "10 \<le> fr_len demo_delim" by (simp_all add: demo_delim_def mk_frame_def)
  have y: "?y = \<lparr>fg_framing = DelimFraming 7 ?s, fg_posted = [demo_delim], fg_flow_q = [], fg_sends = [],
      fg_frames = [demo_delim], fg_sent = []\<rparr>"
    using f by (simp add: frame_comes_def new_frag_sys_def is_posted_delim demo_conv_def)
  have z: "strand_runs (0, 0) ?y = \<lparr>fg_framing = DelimFraming 7 s, fg_posted = [], fg_flow_q = [],
      fg_sends = [(Some 1, [])], fg_frames = [demo_delim], fg_sent = []\<rparr>"
    unfolding y using o f by (simp add: strand_runs_def)
  have "frag_reach (pv_framing demo_conv) (strand_runs (0, 0) ?y)"
    by (intro frag_reach.strand frag_reach.frame frag_reach.start) (simp add: y)
  then show "frag_reach (pv_framing demo_conv) demo_far"
    unfolding demo_far_def by (rule frag_reach.send) (simp add: z)
  show "fg_frames demo_far = [demo_delim]" "fg_posted demo_far = []" "fg_sends demo_far = []"
    unfolding demo_far_def z by (simp_all add: udp_send_def)
qed

lemma demo_frames_cut:
  "rcv_chunks (framer (pv_framing demo_conv)) (pv_stream_buf demo_conv) [trailer 7 0] = Some ([demo_delim], [])"
proof -
  have "rcv_stream (delim_check 7) (delim_run 7 0 [[]]) = Some (delim_frames 7 0 [[]], [])"
    by (rule rcv_stream_delim_run) (simp_all add: clean_def)
  moreover have "delim_run 7 0 [[]] = trailer 7 0" "delim_frames 7 0 [[]] = [demo_delim]"
    by (simp_all add: add_delim_def demo_delim_def)
  ultimately show ?thesis by (simp add: demo_conv_def framer_def)
qed

theorem conv_end_to_end_witness: "map snd (fg_sent demo_far) = [[]]"
proof -
  obtain conf where conf: "conv_tcp_conf demo_conv = Some conf"
    and c: "conf = tcp_stream_conf False 1024 \<lparr>bt_min_retry = 1, bt_max_retry = 1, bt_min_established = 1\<rparr>"
    by (simp add: conv_tcp_conf_def demo_conv_def)
  obtain y where y: "tidy_run conf (demo_tcp (trailer 7 0)) (new_tcp_sys 0) = Some y" "sy_accepted y = [trailer 7 0]"
    "sy_sent y = trailer 7 0" "unsent (sy_tcp y) y = []"
    using demo_tcp_run [of "trailer 7 0"] unfolding c by blast
  have reach: "tcp_reach conf tidy 0 y" by (rule tidy_run_reach [OF tcp_reach.start y(1)])
  have limit: "tc_buffer_limit conf = 1024" by (simp add: c tcp_stream_conf_def)
  have "prefix (map snd (fg_sent demo_far)) (ci_arrived demo_near)
      \<and> (ci_handlers demo_near = [] \<and> sy_accepted y = ci_written demo_near \<and> unsent (sy_tcp y) y = [] \<and> ([] :: u8 list) = []
        \<and> fg_frames demo_far = [demo_delim] \<and> fg_posted demo_far = [] \<and> fg_sends demo_far = []
        \<longrightarrow> map snd (fg_sent demo_far) = ci_arrived demo_near)"
    by (rule conv_end_to_end [OF demo_conv demo_conv _ _ _ demo_near(1) _ conf reach _ _ _ demo_frames_cut demo_far(1),
          where d = 7])
      (simp_all add: demo_conv_args_def clean_def y demo_near demo_far limit)
  then show ?thesis using y(4) by (simp add: demo_near demo_far y(2))
qed

end
