(* ===== verification/Platform.thy ===== *)
theory Platform
  imports SerialPorts
begin

text \<open>
  The calls that differ between platforms, \<open>src/src/ProtoConv/Platform.h\<close> and \<open>NativeFlowCtrl.cpp\<close>: TCP
  keepalives and hardware flow control of a serial port. The system calls are parameters that say
  whether a call succeeds; the model is which calls are made, with what values, and when an
  exception ends them. With them, all of \<open>SerialPortsManager::Start\<close>.
\<close>

section \<open>Calls until one fails\<close>

text \<open>The calls made in order, and the one whose failure threw.\<close>

fun call_all :: "('c \<Rightarrow> bool) \<Rightarrow> 'c list \<Rightarrow> 'c list \<times> ('c + unit)" where
  "call_all ok [] = ([], Inr ())"
| "call_all ok (c # cs) =
    (if \<not> ok c then ([c], Inl c) else case call_all ok cs of (made, r) \<Rightarrow> (c # made, r))"

lemma call_all_ok: "snd (call_all ok cs) = Inr () \<longleftrightarrow> list_all ok cs"
  by (induction cs) (auto split: prod.splits)

lemma call_all_made: "list_all ok cs \<Longrightarrow> call_all ok cs = (cs, Inr ())"
  by (induction cs) auto

lemma call_all_first:
  "snd (call_all ok cs) = Inl c \<Longrightarrow>
    \<exists>made rest. cs = made @ c # rest \<and> list_all ok made \<and> \<not> ok c \<and> fst (call_all ok cs) = made @ [c]"
proof (induction cs)
  case (Cons d ds)
  show ?case
  proof (cases "ok d")
    case True
    then obtain made rest where "ds = made @ c # rest" "list_all ok made" "\<not> ok c" "fst (call_all ok ds) = made @ [c]"
      using Cons by (auto split: prod.splits)
    then show ?thesis using True
      by (intro exI [of _ "d # made"] exI [of _ rest]) (auto split: prod.splits)
  next
    case False
    then show ?thesis using Cons.prems by (intro exI [of _ "[]"] exI [of _ ds]) simp
  qed
qed simp

section \<open>TCP keepalives\<close>

datatype sock_option =
    SO_KEEPALIVE u32
  | TCP_KEEPIDLE u32
  | TCP_KEEPINTVL u32
  | TCP_KEEPCNT u32
  | TCP_KEEPALIVE u32
  | SIO_KEEPALIVE_VALS bool u32 u32

text \<open>The three versions of \<open>SetTCPKeepalives\<close>; Windows counts in milliseconds, in 32 bits.\<close>

definition set_tcp_keepalives ::
  "(sock_option \<Rightarrow> bool) \<Rightarrow> bool \<Rightarrow> u32 \<Rightarrow> u32 \<Rightarrow> u32 \<Rightarrow> sock_option list \<times> (sock_option + unit)" where
  "set_tcp_keepalives ok enable initial_interval_s subsequent_interval_s fail_count =
    call_all ok [SO_KEEPALIVE (if enable then 1 else 0), TCP_KEEPIDLE initial_interval_s,
      TCP_KEEPINTVL subsequent_interval_s, TCP_KEEPCNT fail_count]"

definition set_tcp_keepalives_apple ::
  "(sock_option \<Rightarrow> bool) \<Rightarrow> bool \<Rightarrow> u32 \<Rightarrow> sock_option list \<times> (sock_option + unit)" where
  "set_tcp_keepalives_apple ok enable initial_interval_s =
    call_all ok [SO_KEEPALIVE (if enable then 1 else 0), TCP_KEEPALIVE initial_interval_s]"

definition set_tcp_keepalives_win ::
  "(sock_option \<Rightarrow> bool) \<Rightarrow> bool \<Rightarrow> u32 \<Rightarrow> u32 \<Rightarrow> sock_option list \<times> (sock_option + unit)" where
  "set_tcp_keepalives_win ok enable initial_interval_s subsequent_interval_s =
    call_all ok [SIO_KEEPALIVE_VALS enable (initial_interval_s * 1000) (subsequent_interval_s * 1000)]"

text \<open>The options of the TCP manager with their defaults, which ProtoConv does not override; they are set on
  every socket that is connected or accepted.\<close>

record keepalive_opts =
  ka_enabled :: bool
  ka_idle_timeout_s :: u32
  ka_retry_interval_s :: u32
  ka_fail_count :: u32

definition default_keepalives :: keepalive_opts where
  "default_keepalives =
    \<lparr>ka_enabled = True, ka_idle_timeout_s = 599, ka_retry_interval_s = 10, ka_fail_count = 3\<rparr>"

definition socket_keepalives :: "(sock_option \<Rightarrow> bool) \<Rightarrow> keepalive_opts \<Rightarrow> sock_option list \<times> (sock_option + unit)" where
  "socket_keepalives ok ka =
    set_tcp_keepalives ok (ka_enabled ka) (ka_idle_timeout_s ka) (ka_retry_interval_s ka) (ka_fail_count ka)"

lemma default_keepalives_set:
  "list_all ok [SO_KEEPALIVE 1, TCP_KEEPIDLE 599, TCP_KEEPINTVL 10, TCP_KEEPCNT 3] \<Longrightarrow>
    socket_keepalives ok default_keepalives =
      ([SO_KEEPALIVE 1, TCP_KEEPIDLE 599, TCP_KEEPINTVL 10, TCP_KEEPCNT 3], Inr ())"
  by (simp add: socket_keepalives_def default_keepalives_def set_tcp_keepalives_def)

section \<open>Hardware flow control\<close>

text \<open>On Linux with musl, by \<open>ioctl\<close> on the control flags; \<open>Inl\<close> is a failed call, and the second
  component the flags written, if any. Elsewhere the function only returns \<open>false\<close>.\<close>

datatype ioctl_call = TCGETS2 | TCSETS2

definition CRTSCTS :: u32 where
  "CRTSCTS = push_bit 31 1"

definition native_hardware_flow_control ::
  "u32 option \<Rightarrow> (u32 \<Rightarrow> bool) \<Rightarrow> bool \<Rightarrow> (ioctl_call + bool) \<times> u32 option" where
  "native_hardware_flow_control get set_ok val =
    (case get of
       None \<Rightarrow> (Inl TCGETS2, None)
     | Some c_cflag \<Rightarrow>
         let c = (if val then c_cflag OR CRTSCTS else c_cflag AND NOT CRTSCTS)
         in if \<not> set_ok c then (Inl TCSETS2, None) else (Inr True, Some c))"

definition native_flow_control_stub :: "bool \<Rightarrow> (ioctl_call + bool) \<times> u32 option" where
  "native_flow_control_stub val = (Inr False, None)"

text \<open>Only the flow control bit changes, and it becomes what was asked for.\<close>

lemma native_hardware_bits:
  assumes "native_hardware_flow_control (Some old) set_ok val = (Inr b, Some new)"
  shows "b \<and> bit new 31 = val \<and> (\<forall>k. k \<noteq> 31 \<longrightarrow> bit new k = bit old k)"
proof -
  have c: "bit CRTSCTS k \<longleftrightarrow> k = 31" for k
    unfolding CRTSCTS_def bit_push_bit_iff by (auto simp: bit_1_iff)
  have new: "b" "new = (if val then old OR CRTSCTS else old AND NOT CRTSCTS)"
    using assms by (auto simp: native_hardware_flow_control_def Let_def split: if_splits)
  have "k < LENGTH(32)" if "bit old k" for k using that by (rule bit_imp_le_length)
  then show ?thesis using new c by (auto simp: bit_or_iff bit_and_iff bit_not_iff)
qed

section \<open>Starting the serial ports\<close>

datatype port_option =
    Set_baud_rate u32
  | Set_character_size u32
  | Set_parity parity
  | Set_stop_bits stop_bits

text \<open>One port: the options in the order of the source, then the flow control. The system says for
  each call whether it throws.\<close>

record port_system =
  ps_option_ok :: "port_option \<Rightarrow> bool"
  ps_flow_ok :: "flow_control \<Rightarrow> bool"
  ps_native_ok :: "bool \<Rightarrow> bool"

definition port_options :: "serial_settings \<Rightarrow> port_option list" where
  "port_options st = [Set_baud_rate (st_baud_rate st), Set_character_size (st_char_size st),
    Set_parity (st_parity st), Set_stop_bits (st_stop_bits st)]"

datatype start_error = OptionRejected port_option | FlowRejected serial_error

definition start_port ::
  "port_system \<Rightarrow> serial_settings \<Rightarrow> port_option list \<times> port_call list \<times> (start_error + unit)" where
  "start_port sys st =
    (case call_all (ps_option_ok sys) (port_options st) of
       (opts, Inl e) \<Rightarrow> (opts, [], Inl (OptionRejected e))
     | (opts, Inr _) \<Rightarrow>
         (case start_flow_control (ps_flow_ok sys) (ps_native_ok sys) (st_flow_control st) of
            (calls, Inl e) \<Rightarrow> (opts, calls, Inl (FlowRejected e))
          | (calls, Inr _) \<Rightarrow> (opts, calls, Inr ())))"

text \<open>\<open>Start\<close>: the ports whose reading is started, and the error that ended it.\<close>

fun start_ports :: "(nat \<Rightarrow> port_system) \<Rightarrow> nat \<Rightarrow> serial_settings list \<Rightarrow> nat list \<times> (start_error + unit)" where
  "start_ports sys i [] = ([], Inr ())"
| "start_ports sys i (st # sts) =
    (case start_port (sys i) st of
       (_, _, Inl e) \<Rightarrow> ([], Inl e)
     | (_, _, Inr _) \<Rightarrow> (case start_ports sys (i + 1) sts of (reading, r) \<Rightarrow> (i # reading, r)))"

text \<open>\<open>Stop\<close>: cancel and close every port, whatever the errors.\<close>

datatype stop_call = Cancel_port nat | Close_port nat

definition stop_ports :: "nat \<Rightarrow> stop_call list" where
  "stop_ports num = concat (map (\<lambda>i. [Cancel_port i, Close_port i]) [0..<num])"

text \<open>What the calls leave the hardware flow control at. A native call has an effect on musl only.\<close>

fun hardware_flow :: "bool \<Rightarrow> (flow_control \<Rightarrow> bool) \<Rightarrow> bool \<Rightarrow> port_call list \<Rightarrow> bool" where
  "hardware_flow musl ok hw [] = hw"
| "hardware_flow musl ok hw (SetFlowControl fc # cs) =
    hardware_flow musl ok (if ok fc then fc = FlowHardware else hw) cs"
| "hardware_flow musl ok hw (NativeHardware v # cs) = hardware_flow musl ok (if musl then v else hw) cs"

lemma start_flow_musl:
  "start_flow_control ok native fc = (calls, Inr ()) \<Longrightarrow> hardware_flow True ok hw calls \<longleftrightarrow> fc = FlowHardware"
  by (auto simp: start_flow_control_def Let_def split: if_splits)

lemma start_flow_stub:
  "start_flow_control ok native fc = (calls, Inr ()) \<Longrightarrow>
    hardware_flow False ok hw calls \<longleftrightarrow> fc = FlowHardware \<and> ok FlowHardware"
  by (auto simp: start_flow_control_def Let_def split: if_splits)

lemma start_port_ok:
  "start_port sys st = (opts, calls, Inr ()) \<longleftrightarrow>
    opts = port_options st \<and> list_all (ps_option_ok sys) opts
    \<and> start_flow_control (ps_flow_ok sys) (ps_native_ok sys) (st_flow_control st) = (calls, Inr ())"
proof -
  obtain made r where c: "call_all (ps_option_ok sys) (port_options st) = (made, r)" by fastforce
  obtain cs r2 where f: "start_flow_control (ps_flow_ok sys) (ps_native_ok sys) (st_flow_control st) = (cs, r2)"
    by fastforce
  show ?thesis
    using call_all_ok [of "ps_option_ok sys" "port_options st"] call_all_made [of "ps_option_ok sys" "port_options st"] c f
    by (cases r; cases r2) (auto simp: start_port_def)
qed

lemma start_ports_ok:
  "start_ports sys i sts = (reading, Inr ()) \<Longrightarrow>
    reading = [i..<i + length sts] \<and> (\<forall>k < length sts. \<exists>calls. start_port (sys (i + k)) (sts ! k) =
      (port_options (sts ! k), calls, Inr ()))"
proof (induction sts arbitrary: i reading)
  case (Cons st sts)
  obtain opts calls where p: "start_port (sys i) st = (opts, calls, Inr ())"
    using Cons.prems by (auto split: prod.splits sum.splits)
  then obtain rest where rest: "start_ports sys (i + 1) sts = (rest, Inr ())" "reading = i # rest"
    using Cons.prems by (auto split: prod.splits)
  have o: "opts = port_options st" using p start_port_ok by blast
  have IH: "rest = [i + 1..<i + 1 + length sts]"
    "\<forall>k < length sts. \<exists>calls. start_port (sys (i + 1 + k)) (sts ! k) = (port_options (sts ! k), calls, Inr ())"
    using Cons.IH [OF rest(1)] by simp_all
  have "\<exists>calls. start_port (sys (i + k)) ((st # sts) ! k) = (port_options ((st # sts) ! k), calls, Inr ())"
    if "k < length (st # sts)" for k
    using that p o IH(2) by (cases k) (auto simp: add.assoc)
  moreover have "i # [i + 1..<i + 1 + length sts] = [i..<i + length (st # sts)]"
    using upt_conv_Cons [of i "i + length (st # sts)"] by simp
  ultimately show ?case using rest(2) IH(1) by blast
qed simp

lemma start_ports_error:
  "start_ports sys i sts = (reading, Inl e) \<Longrightarrow>
    \<exists>k < length sts. reading = [i..<i + k] \<and> (\<exists>opts calls. start_port (sys (i + k)) (sts ! k) = (opts, calls, Inl e))"
proof (induction sts arbitrary: i reading)
  case (Cons st sts)
  obtain opts calls r where p: "start_port (sys i) st = (opts, calls, r)" by (cases "start_port (sys i) st")
  show ?case
  proof (cases r)
    case (Inl e')
    then show ?thesis using Cons.prems p by (intro exI [of _ 0]) auto
  next
    case (Inr u)
    then obtain rest where rest: "start_ports sys (i + 1) sts = (rest, Inl e)" "reading = i # rest"
      using Cons.prems p by (auto split: prod.splits)
    obtain k where "k < length sts" "rest = [i + 1..<i + 1 + k]"
      "\<exists>opts calls. start_port (sys (i + 1 + k)) (sts ! k) = (opts, calls, Inl e)"
      using Cons.IH [OF rest(1)] by blast
    then show ?thesis using rest(2) by (intro exI [of _ "Suc k"]) (auto simp: upt_conv_Cons)
  qed
qed simp

section \<open>Properties\<close>

text \<open>A port that has been started: its options are accepted, and its calls leave hardware flow control, \<open>hw\<close>
  before them, on when it was asked for; without the native fallback only if the port accepted it too.\<close>

definition port_started :: "bool \<Rightarrow> port_system \<Rightarrow> serial_settings \<Rightarrow> bool" where
  "port_started hw sys st \<longleftrightarrow>
    (\<exists>calls. start_port sys st = (port_options st, calls, Inr ()) \<and> list_all (ps_option_ok sys) (port_options st)
      \<and> (hardware_flow True (ps_flow_ok sys) hw calls \<longleftrightarrow> st_flow_control st = FlowHardware)
      \<and> (hardware_flow False (ps_flow_ok sys) hw calls \<longleftrightarrow>
          st_flow_control st = FlowHardware \<and> ps_flow_ok sys FlowHardware))"

text \<open>
  C30. Starting the serial ports: when \<open>Start\<close> returns, every port is being read and is started: it has
  accepted its four options in order, and hardware flow control is on exactly when it was asked for, on the
  platforms with the native fallback; on the others exactly when it was asked for and the port
  accepted it (otherwise it is off and nothing is reported). When \<open>Start\<close> throws, exactly the ports before
  the one that failed are being read.
\<close>

theorem serial_start:
  "(case start_ports sys 0 sts of
     (reading, Inr _) \<Rightarrow> reading = [0..<length sts]
       \<and> list_all (\<lambda>k. port_started hw (sys k) (sts ! k)) [0..<length sts]
   | (reading, Inl e) \<Rightarrow> \<exists>k < length sts. reading = [0..<k]
       \<and> (\<exists>opts calls. start_port (sys k) (sts ! k) = (opts, calls, Inl e)))"
proof -
  obtain reading r where run: "start_ports sys 0 sts = (reading, r)" by fastforce
  show ?thesis
  proof (cases r)
    case (Inl e)
    then show ?thesis using start_ports_error [of sys 0 sts reading e] run by auto
  next
    case (Inr u)
    then have ok: "reading = [0..<length sts]" "\<forall>k < length sts. \<exists>calls. start_port (sys k) (sts ! k) =
      (port_options (sts ! k), calls, Inr ())"
      using start_ports_ok [of sys 0 sts reading] run by auto
    have "port_started hw (sys k) (sts ! k)" if k: "k < length sts" for k
    proof -
      obtain calls where c: "start_port (sys k) (sts ! k) = (port_options (sts ! k), calls, Inr ())"
        using ok(2) k by blast
      note p = iffD1 [OF start_port_ok c]
      then have f: "start_flow_control (ps_flow_ok (sys k)) (ps_native_ok (sys k)) (st_flow_control (sts ! k)) = (calls, Inr ())"
        by simp
      show ?thesis unfolding port_started_def
        using c p start_flow_musl [OF f, of hw] start_flow_stub [OF f, of hw] by (intro exI [of _ calls]) simp
    qed
    then show ?thesis using run Inr ok(1) by (simp add: list_all_iff)
  qed
qed

section \<open>The serial stream handler\<close>

text \<open>\<open>SerialStreamHandler\<close> starts the ports when it is made, stops them when it is destroyed and passes
  writes on.\<close>

definition serial_stream_open :: "(nat \<Rightarrow> port_system) \<Rightarrow> serial_settings list \<Rightarrow> nat list \<times> (start_error + unit)" where
  "serial_stream_open sys sts = start_ports sys 0 sts"

definition serial_stream_close :: "serial_settings list \<Rightarrow> stop_call list" where
  "serial_stream_close sts = stop_ports (length sts)"

definition serial_stream_write :: "u8 list \<Rightarrow> serial_mgr \<Rightarrow> (nat \<times> u8 list) list \<times> serial_mgr" where
  "serial_stream_write data s = serial_write data s"

end
