(* ===== verification/CmdLine.thy ===== *)
theory CmdLine
  imports CmdArgs ProtoConv
begin

text \<open>
  The command lines of the two programs, \<open>src/src/CmdArgs.h\<close> and \<open>src/src/ProtoConv/CmdArgs.h\<close>, as far as
  the sources write them: the arguments they declare to TCLAP, with types and defaults, and how the
  values become the records of \<open>CmdArgs\<close> and \<open>ProtoConv\<close>. TCLAP itself is a library: what it parsed is a
  parameter, and its documented rules for declarations are stated as a predicate. The numbers in the
  backoff times are read by the standard library's \<open>operator>>\<close>, which is defined here.
\<close>

section \<open>Declarations\<close>

datatype arg_type = TString | TU16 | TU32 | TSize | TInt | TBool

datatype arg_value = VString string | VNat nat | VInt int | VBool bool

text \<open>A switch; a single value, required or not, with its default; a list of values.\<close>

datatype arg_kind =
    SwitchArg
  | ValueArg arg_type bool arg_value
  | MultiArg arg_type

record arg_decl =
  ad_flag :: string
  ad_name :: string
  ad_kind :: arg_kind

abbreviation arg_decl :: "string \<Rightarrow> string \<Rightarrow> arg_kind \<Rightarrow> arg_decl" where
  "arg_decl flag name kind \<equiv> \<lparr>ad_flag = flag, ad_name = name, ad_kind = kind\<rparr>"

text \<open>\<open>hw\<close> is the detected hardware concurrency.\<close>

definition plex_decls :: "int \<Rightarrow> arg_decl list" where
  "plex_decls hw =
    [arg_decl ''H'' ''hub'' SwitchArg,
     arg_decl ''T'' ''trunk'' SwitchArg,
     arg_decl ''P'' ''prune'' SwitchArg,
     arg_decl ''X'' ''switch'' SwitchArg,
     arg_decl ''l'' ''local'' (ValueArg TString False (VString ''0.0.0.0'')),
     arg_decl ''p'' ''port'' (ValueArg TU16 True (VNat 0)),
     arg_decl ''Z'' ''so_rcvbuf'' (ValueArg TSize False (VNat (512 * 1024))),
     arg_decl ''Y'' ''max_process_q'' (ValueArg TSize False (VNat 1024)),
     arg_decl ''o'' ''timeout'' (ValueArg TSize False (VNat 10000)),
     arg_decl ''O'' ''branch_cache_max'' (ValueArg TSize False (VNat 0)),
     arg_decl ''n'' ''switch_cache_max'' (ValueArg TSize False (VNat 0)),
     arg_decl ''r'' ''trunk_ip'' (ValueArg TString False (VString '''')),
     arg_decl ''t'' ''trunk_port'' (ValueArg TU16 False (VNat 0)),
     arg_decl ''B'' ''branch_ip'' (MultiArg TString),
     arg_decl ''b'' ''branch_port'' (MultiArg TU16),
     arg_decl ''C'' ''byte_code'' (ValueArg TString False (VString ''switch.bin'')),
     arg_decl ''c'' ''console_logging'' (ValueArg TString False (VString ''critical'')),
     arg_decl ''f'' ''file_logging'' (ValueArg TString False (VString ''error'')),
     arg_decl ''F'' ''log_file'' (ValueArg TString False (VString ''MiniPlex.log'')),
     arg_decl ''S'' ''log_size'' (ValueArg TSize False (VNat 5000)),
     arg_decl ''N'' ''log_num'' (ValueArg TSize False (VNat 3)),
     arg_decl ''x'' ''concurrency'' (ValueArg TInt False (VInt hw)),
     arg_decl ''M'' ''benchmark'' SwitchArg,
     arg_decl ''m'' ''benchmark_duration'' (ValueArg TSize False (VNat 10000))]"

definition conv_decls :: "int \<Rightarrow> arg_decl list" where
  "conv_decls hw =
    [arg_decl ''a'' ''localaddr'' (ValueArg TString False (VString ''0.0.0.0'')),
     arg_decl ''l'' ''localport'' (ValueArg TU16 True (VNat 0)),
     arg_decl ''A'' ''remoteaddr'' (ValueArg TString True (VString '''')),
     arg_decl ''r'' ''remoteport'' (ValueArg TU16 True (VNat 0)),
     arg_decl ''B'' ''so_rcvbuf'' (ValueArg TSize False (VNat (512 * 1024))),
     arg_decl ''Q'' ''write_queue_size'' (ValueArg TSize False (VNat 1024)),
     arg_decl ''D'' ''packet_delimiter'' (ValueArg TU32 False (VNat 0)),
     arg_decl ''q'' ''max_sequence_reorder'' (ValueArg TSize False (VNat 100)),
     arg_decl ''m'' ''max_sequence_age_ms'' (ValueArg TSize False (VNat 5000)),
     arg_decl ''T'' ''tcphost'' (ValueArg TString False (VString '''')),
     arg_decl ''C'' ''tcpisclient'' (ValueArg TBool False (VBool True)),
     arg_decl ''k'' ''tcpretrytimes'' (ValueArg TString False (VString ''125 30000 5000'')),
     arg_decl ''t'' ''tcpport'' (ValueArg TU16 False (VNat 0)),
     arg_decl ''s'' ''serialdevices'' (MultiArg TString),
     arg_decl ''b'' ''serialbauds'' (MultiArg TSize),
     arg_decl ''L'' ''serialflowctl'' (MultiArg TString),
     arg_decl ''Z'' ''serialcharsize'' (MultiArg TSize),
     arg_decl ''i'' ''serialstopbits'' (MultiArg TString),
     arg_decl ''p'' ''frameprotocol'' (ValueArg TString False (VString ''DNP3'')),
     arg_decl ''c'' ''console_logging'' (ValueArg TString False (VString ''critical'')),
     arg_decl ''f'' ''file_logging'' (ValueArg TString False (VString ''error'')),
     arg_decl ''F'' ''log_file'' (ValueArg TString False (VString ''ProtoConv.log'')),
     arg_decl ''S'' ''log_size'' (ValueArg TSize False (VNat 5000)),
     arg_decl ''N'' ''log_num'' (ValueArg TSize False (VNat 3)),
     arg_decl ''x'' ''concurrency'' (ValueArg TInt False (VInt hw))]"

text \<open>TCLAP's rules: a flag is one character, a name is not empty, does not begin with a dash and has no
  blank, and neither occurs twice or is one of TCLAP's own (\<open>-h\<close>, \<open>--help\<close>, \<open>--version\<close>,
  \<open>--ignore_rest\<close>). A declaration that breaks them throws when it is added.\<close>

definition decls_ok :: "arg_decl list \<Rightarrow> bool" where
  "decls_ok ds \<longleftrightarrow>
    list_all (\<lambda>d. length (ad_flag d) = 1 \<and> ad_flag d \<noteq> ''-'' \<and> ad_flag d \<noteq> '' ''
      \<and> ad_name d \<noteq> [] \<and> hd (ad_name d) \<noteq> CHR ''-'' \<and> CHR '' '' \<notin> set (ad_name d)) ds
    \<and> distinct (''h'' # map ad_flag ds)
    \<and> distinct (''help'' # ''version'' # ''ignore_rest'' # map ad_name ds)"

fun has_type :: "arg_type \<Rightarrow> arg_value \<Rightarrow> bool" where
  "has_type TString (VString s) = True"
| "has_type TU16 (VNat n) = (n < 2 ^ 16)"
| "has_type TU32 (VNat n) = (n < 2 ^ 32)"
| "has_type TSize (VNat n) = (n < 2 ^ 64)"
| "has_type TInt (VInt i) = (- 2147483648 \<le> i \<and> i \<le> 2147483647)"
| "has_type TBool (VBool b) = True"
| "has_type _ _ = False"

text \<open>What TCLAP accepts for an argument: values of its type, and for a single value at most one. It does not look
  at the default.\<close>

fun kind_ok :: "arg_kind \<Rightarrow> arg_value list \<Rightarrow> bool" where
  "kind_ok SwitchArg vs = list_all (has_type TBool) vs"
| "kind_ok (ValueArg t req dflt) vs = (list_all (has_type t) vs \<and> length vs \<le> 1)"
| "kind_ok (MultiArg t) vs = list_all (has_type t) vs"

section \<open>Values\<close>

text \<open>What TCLAP found for each name; a switch that was given has one value.\<close>

type_synonym given = "string \<Rightarrow> arg_value list"

definition typed :: "arg_decl list \<Rightarrow> given \<Rightarrow> bool" where
  "typed ds given \<longleftrightarrow> list_all (\<lambda>d. kind_ok (ad_kind d) (given (ad_name d))) ds"

definition decl_default :: "arg_decl list \<Rightarrow> string \<Rightarrow> arg_value" where
  "decl_default ds name =
    (case find (\<lambda>d. ad_name d = name) ds of
       Some d \<Rightarrow> (case ad_kind d of ValueArg _ _ dflt \<Rightarrow> dflt | _ \<Rightarrow> VBool False)
     | None \<Rightarrow> VBool False)"

text \<open>\<open>getValue\<close> and \<open>isSet\<close>.\<close>

definition get_value :: "arg_decl list \<Rightarrow> given \<Rightarrow> string \<Rightarrow> arg_value" where
  "get_value ds given name = (case given name of v # _ \<Rightarrow> v | [] \<Rightarrow> decl_default ds name)"

definition is_set :: "given \<Rightarrow> string \<Rightarrow> bool" where
  "is_set given name \<longleftrightarrow> given name \<noteq> []"

fun str_of :: "arg_value \<Rightarrow> string" where
  "str_of (VString s) = s" | "str_of _ = ''''"

fun nat_of :: "arg_value \<Rightarrow> nat" where
  "nat_of (VNat n) = n" | "nat_of _ = 0"

fun int_of_arg :: "arg_value \<Rightarrow> int" where
  "int_of_arg (VInt i) = i" | "int_of_arg _ = 0"

fun bool_of :: "arg_value \<Rightarrow> bool" where
  "bool_of (VBool b) = b" | "bool_of _ = False"

definition plex_args_of :: "int \<Rightarrow> given \<Rightarrow> plex_args" where
  "plex_args_of hw given =
    (let v = get_value (plex_decls hw) given
     in \<lparr>arg_hub = is_set given ''hub'', arg_trunk = is_set given ''trunk'', arg_prune = is_set given ''prune'',
         arg_switch = is_set given ''switch'', arg_local_addr = str_of (v ''local''),
         arg_local_port = of_nat (nat_of (v ''port'')), arg_max_process_q = nat_of (v ''max_process_q''),
         arg_cache_timeout = nat_of (v ''timeout''), arg_max_branch_cache = nat_of (v ''branch_cache_max''),
         arg_max_switch_cache = nat_of (v ''switch_cache_max''), arg_trunk_addr = str_of (v ''trunk_ip''),
         arg_trunk_port = of_nat (nat_of (v ''trunk_port'')),
         arg_branch_addrs = map str_of (given ''branch_ip''),
         arg_branch_ports = map (\<lambda>x. of_nat (nat_of x)) (given ''branch_port'')\<rparr>)"

definition conv_args_of :: "int \<Rightarrow> given \<Rightarrow> conv_args" where
  "conv_args_of hw given =
    (let v = get_value (conv_decls hw) given
     in \<lparr>va_local_addr = str_of (v ''localaddr''), va_local_port = of_nat (nat_of (v ''localport'')),
         va_remote_addr = str_of (v ''remoteaddr''), va_remote_port = of_nat (nat_of (v ''remoteport'')),
         va_so_rcvbuf = nat_of (v ''so_rcvbuf''),
         va_max_write_q = nat_of (v ''write_queue_size''), va_delim = of_nat (nat_of (v ''packet_delimiter'')),
         va_seq_max_q = nat_of (v ''max_sequence_reorder''), va_seq_max_ms = nat_of (v ''max_sequence_age_ms''),
         va_tcp_addr = str_of (v ''tcphost''), va_tcp_is_client = bool_of (v ''tcpisclient''),
         va_backoff_times = str_of (v ''tcpretrytimes''), va_tcp_port = of_nat (nat_of (v ''tcpport'')),
         va_serial_devices = map str_of (given ''serialdevices''),
         va_serial_bauds = map nat_of (given ''serialbauds''),
         va_serial_flow_ctl = map str_of (given ''serialflowctl''),
         va_serial_char_sizes = map nat_of (given ''serialcharsize''),
         va_serial_stop_bits = map str_of (given ''serialstopbits''),
         va_protocol = str_of (v ''frameprotocol''), va_protocol_set = is_set given ''frameprotocol'',
         va_concurrency = int_of_arg (v ''concurrency'')\<rparr>)"

section \<open>Reading numbers\<close>

text \<open>\<open>operator>>\<close> for \<open>uint32_t\<close> in the C locale: blanks are skipped, a sign is allowed (and negates the
  value in 32 bits), there must be a digit, and a value that does not fit fails.\<close>

definition is_space :: "char \<Rightarrow> bool" where
  "is_space c \<longleftrightarrow> c = CHR '' '' \<or> (9 \<le> (of_char c :: nat) \<and> (of_char c :: nat) \<le> 13)"

definition is_digit :: "char \<Rightarrow> bool" where
  "is_digit c \<longleftrightarrow> 48 \<le> (of_char c :: nat) \<and> (of_char c :: nat) \<le> 57"

fun read_digits :: "nat \<Rightarrow> string \<Rightarrow> nat \<times> string" where
  "read_digits n [] = (n, [])"
| "read_digits n (c # cs) = (if is_digit c then read_digits (10 * n + (of_char c - 48)) cs else (n, c # cs))"

definition read_u32 :: "string \<Rightarrow> (u32 \<times> string) option" where
  "read_u32 s =
    (let s1 = dropWhile is_space s;
         neg = (s1 \<noteq> [] \<and> hd s1 = CHR ''-'');
         s2 = (if s1 \<noteq> [] \<and> (hd s1 = CHR ''-'' \<or> hd s1 = CHR ''+'') then tl s1 else s1)
     in if s2 = [] \<or> \<not> is_digit (hd s2) then None
        else case read_digits 0 s2 of
          (n, rest) \<Rightarrow> if n > 4294967295 then None else Some (if neg then - of_nat n else of_nat n, rest))"

text \<open>The decimal form of a number.\<close>

fun decimal :: "nat \<Rightarrow> string" where
  "decimal n = (if n < 10 then [char_of (48 + n)] else decimal (n div 10) @ [char_of (48 + n mod 10)])"

declare decimal.simps [simp del]

lemma digit_char:
  "n < 10 \<Longrightarrow> is_digit (char_of (48 + n))" "n < 10 \<Longrightarrow> (of_char (char_of (48 + n) :: char) :: nat) = 48 + n"
  by (simp_all add: is_digit_def of_char_of)

lemma read_digits_decimal:
  "rest = [] \<or> \<not> is_digit (hd rest) \<Longrightarrow>
    read_digits k (decimal n @ cs @ rest) = read_digits (k * 10 ^ length (decimal n) + n) (cs @ rest)"
proof (induction n arbitrary: cs rule: less_induct)
  case (less n)
  show ?case
  proof (cases "n < 10")
    case True
    then show ?thesis by (simp add: decimal.simps [of n] digit_char mult.commute)
  next
    case False
    then have dec: "decimal n = decimal (n div 10) @ [char_of (48 + n mod 10)]" by (simp add: decimal.simps [of n])
    have "read_digits k (decimal n @ cs @ rest) =
        read_digits (k * 10 ^ length (decimal (n div 10)) + n div 10) (char_of (48 + n mod 10) # cs @ rest)"
      using less.IH [of "n div 10" "char_of (48 + n mod 10) # cs"] less.prems False by (simp add: dec)
    then show ?thesis using False by (simp add: dec digit_char algebra_simps)
  qed
qed

lemma decimal_hd: "decimal n \<noteq> [] \<and> is_digit (hd (decimal n))"
proof (induction n rule: less_induct)
  case (less n)
  show ?case
    by (cases "n < 10") (use less [of "n div 10"] in \<open>auto simp: decimal.simps [of n] digit_char hd_append\<close>)
qed

lemma digit_no_sign: "is_digit c \<Longrightarrow> \<not> is_space c \<and> c \<noteq> CHR ''-'' \<and> c \<noteq> CHR ''+''"
  by (auto simp: is_digit_def is_space_def)

lemma read_u32_decimal:
  assumes "n < 2 ^ 32" "list_all is_space ws" "rest = [] \<or> \<not> is_digit (hd rest)"
  shows "read_u32 (ws @ decimal n @ rest) = Some (of_nat n, rest)"
proof -
  obtain c cs where d: "decimal n = c # cs" "is_digit c" using decimal_hd [of n] by (cases "decimal n") auto
  have "dropWhile is_space (ws @ decimal n @ rest) = decimal n @ rest"
    using assms(2) digit_no_sign [OF d(2)] by (subst dropWhile_append2) (auto simp: d list_all_iff)
  moreover have "read_digits 0 (decimal n @ rest) = (n, rest)"
    using read_digits_decimal [OF assms(3), of 0 n "[]"] assms(3) by (cases rest) auto
  moreover have "hd (decimal n @ rest) = c" "decimal n @ rest \<noteq> []" using d(1) by simp_all
  ultimately show ?thesis using d(2) digit_no_sign [OF d(2)] assms(1) by (simp add: read_u32_def Let_def)
qed

section \<open>Properties\<close>

lemma find_decl: "distinct (map ad_name ds) \<Longrightarrow> d \<in> set ds \<Longrightarrow> find (\<lambda>e. ad_name e = ad_name d) ds = Some d"
  by (induction ds) (auto simp: image_iff)

definition value_typed :: "arg_decl list \<Rightarrow> given \<Rightarrow> arg_decl \<Rightarrow> bool" where
  "value_typed ds given d \<longleftrightarrow>
    (case ad_kind d of ValueArg t _ _ \<Rightarrow> has_type t (get_value ds given (ad_name d))
     | MultiArg t \<Rightarrow> list_all (has_type t) (given (ad_name d)) | SwitchArg \<Rightarrow> True)"

text \<open>The default of a declaration has the declared type.\<close>

fun default_ok :: "arg_kind \<Rightarrow> bool" where
  "default_ok (ValueArg t req dflt) = has_type t dflt"
| "default_ok _ = True"

lemma typed_values:
  assumes "decls_ok ds" "list_all (\<lambda>d. default_ok (ad_kind d)) ds" "typed ds given"
  shows "list_all (value_typed ds given) ds"
  unfolding list_all_iff
proof
  fix d assume d: "d \<in> set ds"
  have "find (\<lambda>e. ad_name e = ad_name d) ds = Some d"
    using assms(1) d by (intro find_decl) (simp_all add: decls_ok_def)
  moreover have "kind_ok (ad_kind d) (given (ad_name d))" using assms(3) d by (simp add: typed_def list_all_iff)
  moreover have "default_ok (ad_kind d)" using assms(2) d by (simp add: list_all_iff)
  ultimately show "value_typed ds given d"
    by (auto simp: value_typed_def get_value_def decl_default_def split: arg_kind.splits list.splits)
qed

lemma decls_plex: "decls_ok (plex_decls hw)"
  by (simp add: decls_ok_def plex_decls_def)

lemma decls_conv: "decls_ok (conv_decls hw)"
  by (simp add: decls_ok_def conv_decls_def)

lemma defaults_plex: "has_type TInt (VInt hw) \<Longrightarrow> list_all (\<lambda>d. default_ok (ad_kind d)) (plex_decls hw)"
  by (simp add: plex_decls_def)

lemma defaults_conv: "has_type TInt (VInt hw) \<Longrightarrow> list_all (\<lambda>d. default_ok (ad_kind d)) (conv_decls hw)"
  by (simp add: conv_decls_def)

lemma unat_nat_of:
  "has_type TU16 v \<Longrightarrow> unat (of_nat (nat_of v) :: u16) = nat_of v"
  "has_type TU32 v \<Longrightarrow> unat (of_nat (nat_of v) :: u32) = nat_of v"
  by (cases v; simp add: unat_of_nat)+

text \<open>The value of a declared name.\<close>

lemma value_of_decl:
  assumes "list_all (value_typed ds given) ds" "arg_decl f n (ValueArg t req dflt) \<in> set ds"
  shows "has_type t (get_value ds given n)"
  using assms by (auto simp: list_all_iff value_typed_def dest!: bspec)

lemma values_of_decl:
  assumes "list_all (value_typed ds given) ds" "arg_decl f n (MultiArg t) \<in> set ds"
  shows "list_all (has_type t) (given n)"
  using assms by (auto simp: list_all_iff value_typed_def dest!: bspec)

lemma plex_ports:
  assumes "list_all (value_typed (plex_decls hw) g) (plex_decls hw)"
  shows "has_type TU16 (get_value (plex_decls hw) g ''port'')" "has_type TU16 (get_value (plex_decls hw) g ''trunk_port'')"
    "list_all (has_type TU16) (g ''branch_port'')"
  by (rule value_of_decl [OF assms, of "''p''" _ _ True "VNat 0"], simp add: plex_decls_def,
      rule value_of_decl [OF assms, of "''t''" _ _ False "VNat 0"], simp add: plex_decls_def,
      rule values_of_decl [OF assms, of "''b''"], simp add: plex_decls_def)

lemma conv_ports:
  assumes "list_all (value_typed (conv_decls hw) g) (conv_decls hw)"
  shows "has_type TU16 (get_value (conv_decls hw) g ''localport'')"
    "has_type TU16 (get_value (conv_decls hw) g ''remoteport'')" "has_type TU16 (get_value (conv_decls hw) g ''tcpport'')"
    "has_type TU32 (get_value (conv_decls hw) g ''packet_delimiter'')"
  by (rule value_of_decl [OF assms, of "''l''" _ _ True "VNat 0"], simp add: conv_decls_def,
      rule value_of_decl [OF assms, of "''r''" _ _ True "VNat 0"], simp add: conv_decls_def,
      rule value_of_decl [OF assms, of "''t''" _ _ False "VNat 0"], simp add: conv_decls_def,
      rule value_of_decl [OF assms, of "''D''" _ _ False "VNat 0"], simp add: conv_decls_def)

text \<open>
  C39. The declared command lines are well formed: no flag or name is malformed, repeated or reserved, so
  adding them to TCLAP cannot fail. Every default has the type it is declared with (the thread count's, if the
  detected concurrency is an \<open>int\<close>). So when TCLAP found only values of the declared types, none for some of the
  arguments, every value read has its declared type, and all the port numbers of both programs and
  the delimiter reach the 16 and 32 bits of the programs unchanged.
\<close>

theorem cmd_lines_typed:
  assumes "typed (plex_decls hw) g" "typed (conv_decls hw) h" "- 2147483648 \<le> hw" "hw \<le> 2147483647"
  shows "decls_ok (plex_decls hw) \<and> decls_ok (conv_decls hw)
    \<and> list_all (\<lambda>d. default_ok (ad_kind d)) (plex_decls hw @ conv_decls hw)
    \<and> list_all (value_typed (plex_decls hw) g) (plex_decls hw)
    \<and> list_all (value_typed (conv_decls hw) h) (conv_decls hw)
    \<and> unat (arg_local_port (plex_args_of hw g)) = nat_of (get_value (plex_decls hw) g ''port'')
    \<and> unat (arg_trunk_port (plex_args_of hw g)) = nat_of (get_value (plex_decls hw) g ''trunk_port'')
    \<and> map unat (arg_branch_ports (plex_args_of hw g)) = map nat_of (g ''branch_port'')
    \<and> unat (va_local_port (conv_args_of hw h)) = nat_of (get_value (conv_decls hw) h ''localport'')
    \<and> unat (va_remote_port (conv_args_of hw h)) = nat_of (get_value (conv_decls hw) h ''remoteport'')
    \<and> unat (va_tcp_port (conv_args_of hw h)) = nat_of (get_value (conv_decls hw) h ''tcpport'')
    \<and> unat (va_delim (conv_args_of hw h)) = nat_of (get_value (conv_decls hw) h ''packet_delimiter'')"
proof -
  have hw: "has_type TInt (VInt hw)" using assms(3,4) by simp
  have 1: "list_all (value_typed (plex_decls hw) g) (plex_decls hw)"
    by (rule typed_values [OF decls_plex defaults_plex [OF hw] assms(1)])
  have 2: "list_all (value_typed (conv_decls hw) h) (conv_decls hw)"
    by (rule typed_values [OF decls_conv defaults_conv [OF hw] assms(2)])
  have "map unat (arg_branch_ports (plex_args_of hw g)) = map nat_of (g ''branch_port'')"
    using plex_ports(3) [OF 1] unat_nat_of(1) by (auto simp: plex_args_of_def Let_def list_all_iff)
  then show ?thesis
    using 1 2 decls_plex decls_conv defaults_plex [OF hw] defaults_conv [OF hw]
      plex_ports(1,2) [OF 1, THEN unat_nat_of(1)] conv_ports(1-3) [OF 2, THEN unat_nat_of(1)]
      conv_ports(4) [OF 2, THEN unat_nat_of(2)]
    by (simp add: plex_args_of_def conv_args_of_def Let_def)
qed

text \<open>MiniPlex with a port and two branch ports, its other arguments left out.\<close>

definition demo_given :: given where
  "demo_given = (\<lambda>_. [])(''port'' := [VNat 20000], ''branch_port'' := [VNat 65535, VNat 1])"

theorem cmd_lines_typed_witness:
  "unat (arg_local_port (plex_args_of 8 demo_given)) = 20000 \<and> unat (arg_trunk_port (plex_args_of 8 demo_given)) = 0
    \<and> map unat (arg_branch_ports (plex_args_of 8 demo_given)) = [65535, 1]"
proof -
  have g: "typed (plex_decls 8) demo_given" by (simp add: typed_def plex_decls_def demo_given_def)
  have h: "typed (conv_decls 8) (\<lambda>_. [])" by (simp add: typed_def conv_decls_def)
  have "get_value (plex_decls 8) demo_given ''trunk_port'' = VNat 0"
    by (simp add: get_value_def decl_default_def plex_decls_def demo_given_def)
  then show ?thesis
    using cmd_lines_typed [OF g h] by (simp add: get_value_def) (simp add: demo_given_def)
qed

lemma read_backoff_decimal:
  assumes "a < 2 ^ 32" "b < 2 ^ 32" "c < 2 ^ 32"
  shows "read_backoff read_u32 (decimal a @ '' '' @ decimal b @ '' '' @ decimal c) =
    Some \<lparr>bt_min_retry = of_nat a, bt_max_retry = of_nat b, bt_min_established = of_nat c\<rparr>"
  using read_u32_decimal [OF assms(1), of "[]" "'' '' @ decimal b @ '' '' @ decimal c"]
    read_u32_decimal [OF assms(2), of "'' ''" "'' '' @ decimal c"] read_u32_decimal [OF assms(3), of "'' ''" "[]"]
  by (simp add: read_backoff_def is_space_def is_digit_def)

lemma default_times:
  "decimal 125 = ''125''" "decimal 30000 = ''30000''" "decimal 5000 = ''5000''"
  by (simp_all add: decimal.simps char_of_def bit_iff_odd)

text \<open>
  The backoff times survive the command line: written in decimal, separated by blanks, the three
  numbers are read back as they are, for all 32-bit values.
\<close>

theorem backoff_times_roundtrip:
  assumes "a < 2 ^ 32" "b < 2 ^ 32" "c < 2 ^ 32"
  shows "read_backoff read_u32 (decimal a @ '' '' @ decimal b @ '' '' @ decimal c) =
    Some \<lparr>bt_min_retry = of_nat a, bt_max_retry = of_nat b, bt_min_established = of_nat c\<rparr>"
  by (rule read_backoff_decimal [OF assms])

theorem backoff_times_roundtrip_witness:
  "read_backoff read_u32 ''125 30000 5000'' =
    Some \<lparr>bt_min_retry = 125, bt_max_retry = 30000, bt_min_established = 5000\<rparr>"
  using backoff_times_roundtrip [of 125 30000 5000] by (simp add: default_times)

text \<open>The least command line for a TCP client: with the defaults it passes the checks and makes a
  converter that retries after 125 ms to 30 s and queues 1024 messages, but to port 0.\<close>

lemma default_tcp_client:
  fixes p q :: nat and r t :: string
  assumes "from_string ''0.0.0.0'' \<noteq> None" "from_string r \<noteq> None" "from_string t \<noteq> None" "t \<noteq> ''''"
  defines "given \<equiv> (\<lambda>_. [])(''localport'' := [VNat p], ''remoteaddr'' := [VString r], ''remoteport'' := [VNat q],
    ''tcphost'' := [VString t])"
  shows "check_conv_args from_string (conv_args_of hw given) = Inr ()"
    "\<exists>c. new_proto_conv from_string read_u32 open_ok char_size_ok now (conv_args_of hw given) = Inr c
      \<and> pv_stream c = TCPStream False t 0 1024 \<lparr>bt_min_retry = 125, bt_max_retry = 30000, bt_min_established = 5000\<rparr>"
proof -
  have bt: "read_backoff read_u32 ''125 30000 5000'' =
      Some \<lparr>bt_min_retry = 125, bt_max_retry = 30000, bt_min_established = 5000\<rparr>"
    using read_backoff_decimal [of 125 30000 5000] by (simp add: default_times)
  have v: "va_local_addr (conv_args_of hw given) = ''0.0.0.0''" "va_remote_addr (conv_args_of hw given) = r"
    "va_tcp_addr (conv_args_of hw given) = t" "va_serial_devices (conv_args_of hw given) = []"
    "va_delim (conv_args_of hw given) = 0" "va_protocol (conv_args_of hw given) = ''DNP3''"
    "va_backoff_times (conv_args_of hw given) = ''125 30000 5000''" "va_tcp_is_client (conv_args_of hw given)"
    "va_tcp_port (conv_args_of hw given) = 0" "va_max_write_q (conv_args_of hw given) = 1024"
    by (simp_all only: conv_args_of_def Let_def conv_args.simps get_value_def given_def fun_upd_apply list.case)
      (simp_all add: decl_default_def conv_decls_def)
  show "check_conv_args from_string (conv_args_of hw given) = Inr ()"
    using assms(1-4) by (simp add: check_conv_args_def v)
  show "\<exists>c. new_proto_conv from_string read_u32 open_ok char_size_ok now (conv_args_of hw given) = Inr c
      \<and> pv_stream c = TCPStream False t 0 1024 \<lparr>bt_min_retry = 125, bt_max_retry = 30000, bt_min_established = 5000\<rparr>"
    using assms(1-4) by (simp add: new_proto_conv_def select_framing_def select_stream_def v bt)
qed

end
