(* ===== verification/LogStrings.thy ===== *)
theory LogStrings
  imports CmdLine
begin

text \<open>
  The strings of the log that are computed: \<open>buf2hex\<close> of \<open>src/src/ProtoConv/DNP3FrameChecker.cpp\<close>, \<open>ToString\<close> of
  the two fragment queues, and \<open>GetHandlerID\<close> of \<open>TCPSocketManager.h\<close>. A dump can be read back, a queue is listed in the
  order it would be written, and no two handlers have the same name.
\<close>

section \<open>Hexadecimal dumps\<close>

definition hexnibble :: string where
  "hexnibble = ''0123456789abcdef''"

definition buf2hex :: "u8 list \<Rightarrow> string" where
  "buf2hex data = fold
    (\<lambda>i str. str[2 * i := hexnibble ! unat (drop_bit 4 (data ! i AND 0xF0)), 2 * i + 1 := hexnibble ! unat (data ! i AND 0x0F)])
    [0..<length data] (replicate (length data * 2) CHR ''.'')"

definition byte2hex :: "u8 \<Rightarrow> string" where
  "byte2hex b = [hexnibble ! unat (drop_bit 4 (b AND 0xF0)), hexnibble ! unat (b AND 0x0F)]"

lemma length_buf2hex_loop: "length (fold (\<lambda>i str. str[f i := a i, g i := b i]) ns str) = length str"
  by (induction ns arbitrary: str) auto

lemma length_bytes2hex: "length (concat (map byte2hex bs)) = 2 * length bs"
  by (induction bs) (auto simp: byte2hex_def)

text \<open>The loop fills the string from the left.\<close>

lemma buf2hex_loop:
  "n \<le> length data \<Longrightarrow> fold
    (\<lambda>i str. str[2 * i := hexnibble ! unat (drop_bit 4 (data ! i AND 0xF0)), 2 * i + 1 := hexnibble ! unat (data ! i AND 0x0F)])
    [0..<n] (replicate (length data * 2) CHR ''.'') =
    concat (map byte2hex (take n data)) @ replicate ((length data - n) * 2) CHR ''.''"
proof (induction n)
  case 0
  then show ?case by simp
next
  case (Suc n)
  let ?step = "\<lambda>i str. str[2 * i := hexnibble ! unat (drop_bit 4 (data ! i AND 0xF0)),
    2 * i + 1 := hexnibble ! unat (data ! i AND 0x0F)]"
  let ?p = "concat (map byte2hex (take n data))"
  have len: "length ?p = 2 * n" using Suc.prems by (simp add: length_bytes2hex)
  have rep: "replicate ((length data - n) * 2) CHR ''.'' =
      CHR ''.'' # CHR ''.'' # replicate ((length data - Suc n) * 2) CHR ''.''"
    using Suc.prems by (simp add: Suc_diff_Suc [symmetric] del: replicate_Suc flip: replicate_Suc)
  have upd: "(?p @ x # y # zs)[2 * n := u, 2 * n + 1 := v] = ?p @ u # v # zs" for x y zs u v
    using len by (simp add: list_update_append)
  have take: "concat (map byte2hex (take (Suc n) data)) = ?p @ byte2hex (data ! n)"
    using Suc.prems by (simp add: take_Suc_conv_app_nth)
  have IH: "fold ?step [0..<n] (replicate (length data * 2) CHR ''.'') =
      ?p @ replicate ((length data - n) * 2) CHR ''.''"
    using Suc by simp
  have "[0..<Suc n] = [0..<n] @ [n]" by simp
  then have "fold ?step [0..<Suc n] (replicate (length data * 2) CHR ''.'') =
      ?step n (?p @ replicate ((length data - n) * 2) CHR ''.'')"
    by (simp only: fold_append o_apply fold_simps IH)
  also have "\<dots> = ?p @ byte2hex (data ! n) @ replicate ((length data - Suc n) * 2) CHR ''.''"
    unfolding rep upd byte2hex_def by simp
  finally show ?case by (simp only: take append_assoc)
qed

lemma buf2hex_bytes: "buf2hex data = concat (map byte2hex data)"
  using buf2hex_loop [of "length data" data] by (simp add: buf2hex_def)

text \<open>Reading a dump.\<close>

definition nibble_val :: "char \<Rightarrow> nat" where
  "nibble_val c = length (takeWhile (\<lambda>d. d \<noteq> c) hexnibble)"

fun hex2buf :: "string \<Rightarrow> u8 list" where
  "hex2buf (c # d # cs) = of_nat (16 * nibble_val c + nibble_val d) # hex2buf cs"
| "hex2buf _ = []"

lemma nibble_val_hexnibble: "n < 16 \<Longrightarrow> nibble_val (hexnibble ! n) = n"
proof -
  have "list_all (\<lambda>n. nibble_val (hexnibble ! n) = n) [0..<16]" by code_simp
  then show "n < 16 \<Longrightarrow> nibble_val (hexnibble ! n) = n" by (simp add: list_all_iff)
qed

lemma nibbles:
  "unat (drop_bit 4 (b AND 0xF0 :: u8)) = unat b div 16" "unat (b AND 0x0F :: u8) = unat b mod 16"
proof -
  have mask: "(15 :: u8) = mask 4" by (simp add: mask_eq_exp_minus_1)
  have "bit b (4 + n) \<Longrightarrow> n < 4" for n using bit_imp_le_length [of b "4 + n"] by simp
  then have "drop_bit 4 (b AND 0xF0) = drop_bit 4 b"
    by (intro bit_word_eqI) (auto simp: bit_simps mask)
  then have "unat (drop_bit 4 (b AND 0xF0)) = drop_bit 4 (unat b)" by (simp only: unat_drop_bit_eq)
  then show "unat (drop_bit 4 (b AND 0xF0 :: u8)) = unat b div 16" by (simp only: drop_bit_eq_div) simp
  have "b AND 0x0F = take_bit 4 b" by (simp only: mask take_bit_eq_mask)
  then have "unat (b AND 0x0F) = take_bit 4 (unat b)" by (simp only: unsigned_take_bit_eq)
  then show "unat (b AND 0x0F :: u8) = unat b mod 16" by (simp only: take_bit_eq_mod) simp
qed

text \<open>A dump of a buffer shows all of it: it is read back byte for byte.\<close>

theorem buf2hex_roundtrip: "hex2buf (buf2hex data) = data"
proof -
  have "hex2buf (byte2hex b @ s) = b # hex2buf s" for b s
  proof -
    have "unat b div 16 < 16" "unat b mod 16 < 16" using unat_byte_less [of b] by simp_all
    then have "hex2buf (byte2hex b @ s) = of_nat (16 * (unat b div 16) + unat b mod 16) # hex2buf s"
      unfolding byte2hex_def nibbles by (simp only: append_Cons append_Nil hex2buf.simps nibble_val_hexnibble)
    then show ?thesis by (simp only: mult_div_mod_eq of_nat_unat ucast_id)
  qed
  then show ?thesis by (induction data) (simp_all add: buf2hex_bytes)
qed

section \<open>Queues\<close>

function delim_to_string :: "frame list \<Rightarrow> string" where
  "delim_to_string q =
    (if q = [] then []
     else let f = pq_top frame_cmp q; q' = pq_pop frame_cmp q
       in decimal (fr_seq f) @ (if q' \<noteq> [] then '' '' else []) @ delim_to_string q')"
  by auto
termination by (relation "measure length") (auto simp: length_pq_pop)

function dnp3_to_string :: "frame list \<Rightarrow> string" where
  "dnp3_to_string q =
    (if q = [] then []
     else let f = pq_top frag_cmp q; q' = pq_pop frag_cmp q
       in (if fr_fir f \<or> fr_fin f then ''('' else []) @ (if fr_fir f then ''FIR'' else []) @ (if fr_fin f then ''FIN'' else [])
         @ (if fr_fir f \<or> fr_fin f then '')'' else []) @ decimal (fr_seq f) @ (if q' \<noteq> [] then '' '' else [])
         @ dnp3_to_string q')"
  by auto
termination by (relation "measure length") (auto simp: length_pq_pop)

declare delim_to_string.simps [simp del] dnp3_to_string.simps [simp del]

text \<open>Words with a blank between them.\<close>

fun spaced :: "string list \<Rightarrow> string" where
  "spaced [] = []"
| "spaced [w] = w"
| "spaced (w # ws) = w @ '' '' @ spaced ws"

definition fragment_word :: "frame \<Rightarrow> string" where
  "fragment_word f = (if fr_fir f \<or> fr_fin f then ''('' @ (if fr_fir f then ''FIR'' else []) @ (if fr_fin f then ''FIN'' else []) @ '')''
    else []) @ decimal (fr_seq f)"

lemma spaced_Cons: "spaced (w # ws) = w @ (if ws \<noteq> [] then '' '' else []) @ spaced ws"
  by (cases ws) auto

text \<open>A queue emptied from the top.\<close>

function popped :: "('a \<Rightarrow> 'a \<Rightarrow> bool) \<Rightarrow> 'a list \<Rightarrow> 'a list" where
  "popped cmp q = (if q = [] then [] else pq_top cmp q # popped cmp (pq_pop cmp q))"
  by auto
termination by (relation "measure (\<lambda>(cmp, q). length q)") (auto simp: length_pq_pop)

declare popped.simps [simp del]

lemma popped_empty [simp]: "popped cmp q = [] \<longleftrightarrow> q = []"
  by (subst popped.simps) simp

lemma popped_all: "mset (popped cmp q) = mset q"
proof (induction cmp q rule: popped.induct)
  case (1 cmp q)
  then show ?case by (subst popped.simps) (simp add: pq_pop_def pq_top_in)
qed

lemma delim_to_string_popped: "delim_to_string q = spaced (map (\<lambda>f. decimal (fr_seq f)) (popped frame_cmp q))"
proof (induction q rule: delim_to_string.induct)
  case (1 q)
  then show ?case
    by (subst delim_to_string.simps, subst popped.simps) (simp add: spaced_Cons Let_def)
qed

lemma dnp3_to_string_step:
  "dnp3_to_string q = (if q = [] then []
     else fragment_word (pq_top frag_cmp q) @ (if pq_pop frag_cmp q \<noteq> [] then '' '' else []) @ dnp3_to_string (pq_pop frag_cmp q))"
  by (subst dnp3_to_string.simps) (simp add: fragment_word_def Let_def)

lemma dnp3_to_string_popped: "dnp3_to_string q = spaced (map fragment_word (popped frag_cmp q))"
proof (induction q rule: dnp3_to_string.induct)
  case (1 q)
  then show ?case
    by (subst dnp3_to_string_step, subst popped.simps) (simp add: spaced_Cons)
qed

lemma flush_queue_popped: "flush_queue q = map (\<lambda>f. write_frame f (fr_len f)) (popped frag_cmp q)"
proof (induction q rule: flush_queue.induct)
  case (1 q)
  then show ?case by (subst flush_queue.simps, subst popped.simps) (simp add: Let_def)
qed

lemma drain_popped:
  "drain q e = (out, q', e') \<Longrightarrow> \<exists>fs. popped frame_cmp q = fs @ popped frame_cmp q'
    \<and> out = map (\<lambda>f. write_frame f (fr_len f - 10)) fs"
proof (induction q e arbitrary: out rule: drain.induct)
  case (1 q e)
  show ?case
  proof (cases "q \<noteq> [] \<and> top_seq q = unat e")
    case False
    then have "out = []" "q' = q" using 1(2) by (auto simp: drain.simps [of q])
    then show ?thesis by (intro exI [of _ "[]"]) simp
  next
    case True
    obtain o2 where o2: "drain (pq_pop frame_cmp q) (e + 1) = (o2, q', e')"
        "out = write_frame (pq_top frame_cmp q) (fr_len (pq_top frame_cmp q) - 10) # o2"
      using 1(2) True by (auto simp: drain.simps [of q] Let_def split: prod.splits)
    obtain fs where "popped frame_cmp (pq_pop frame_cmp q) = fs @ popped frame_cmp q'"
        "o2 = map (\<lambda>f. write_frame f (fr_len f - 10)) fs"
      using 1(1) [OF True refl o2(1)] by blast
    then show ?thesis using True o2(2) by (intro exI [of _ "pq_top frame_cmp q # fs"]) (subst popped.simps, simp)
  qed
qed

text \<open>
  The queue in the log is the order of the writes: each queue is listed completely, and in the order in which its
  frames are or will be written, by the loop of the reordering queue and by \<open>Flush\<close>.
\<close>

theorem queue_listed_in_write_order:
  "\<exists>fs. mset fs = mset q \<and> dnp3_to_string q = spaced (map fragment_word fs)
    \<and> flush_queue q = map (\<lambda>f. write_frame f (fr_len f)) fs"
  using popped_all dnp3_to_string_popped flush_queue_popped by blast

theorem delim_listed_in_write_order:
  assumes "drain q e = (out, q', e')"
  shows "\<exists>fs gs. mset (fs @ gs) = mset q \<and> delim_to_string q = spaced (map (\<lambda>f. decimal (fr_seq f)) (fs @ gs))
    \<and> delim_to_string q' = spaced (map (\<lambda>f. decimal (fr_seq f)) gs) \<and> out = map (\<lambda>f. write_frame f (fr_len f - 10)) fs"
  using drain_popped [OF assms] popped_all [of frame_cmp q] by (metis delim_to_string_popped)

section \<open>Names of handlers\<close>

text \<open>The counter of threads, and the number of each thread with its counter of handlers; they are made at the
  first call in a thread.\<close>

record handler_ids =
  hi_thread_counter :: nat
  hi_threads :: "nat \<rightharpoonup> nat \<times> nat"

definition no_handlers :: handler_ids where
  "no_handlers = \<lparr>hi_thread_counter = 0, hi_threads = Map.empty\<rparr>"

definition thread_local :: "nat \<Rightarrow> handler_ids \<Rightarrow> handler_ids" where
  "thread_local t s =
    (case hi_threads s t of
       Some _ \<Rightarrow> s
     | None \<Rightarrow> let i = size_add (hi_thread_counter s) 1
         in \<lparr>hi_thread_counter = i, hi_threads = (hi_threads s)(t \<mapsto> (i, 0))\<rparr>)"

definition get_handler_id :: "nat \<Rightarrow> handler_ids \<Rightarrow> string \<times> handler_ids" where
  "get_handler_id t s =
    (let s1 = thread_local t s; (i, n) = the (hi_threads s1 t); n' = size_add n 1
     in (decimal i @ '':'' @ decimal n', s1\<lparr>hi_threads := (hi_threads s1)(t \<mapsto> (i, n'))\<rparr>))"

fun handler_names :: "nat list \<Rightarrow> handler_ids \<Rightarrow> string list" where
  "handler_names [] s = []"
| "handler_names (t # ts) s = (case get_handler_id t s of (name, s') \<Rightarrow> name # handler_names ts s')"

text \<open>A name is read back as its two numbers.\<close>

lemma name_read:
  "read_digits 0 (decimal i @ '':'' @ decimal n) = (i, '':'' @ decimal n)" "read_digits 0 (decimal n) = (n, [])"
  using read_digits_decimal [of "'':'' @ decimal n" 0 i "[]"] read_digits_decimal [of "[]" 0 n "[]"]
  by (simp_all add: is_digit_def)

lemma name_inj: "decimal i @ '':'' @ decimal n = decimal j @ '':'' @ decimal m \<longleftrightarrow> i = j \<and> n = m"
  by (metis name_read append_Cons append_Nil list.inject prod.inject)

text \<open>The numbers of threads are different, and there is room for \<open>k\<close> more calls.\<close>

definition ids_ok :: "nat \<Rightarrow> handler_ids \<Rightarrow> bool" where
  "ids_ok k s \<longleftrightarrow> hi_thread_counter s + k < 2 ^ 64
    \<and> (\<forall>t i n. hi_threads s t = Some (i, n) \<longrightarrow> i \<le> hi_thread_counter s \<and> n + k < 2 ^ 64)
    \<and> (\<forall>t u i n m. hi_threads s t = Some (i, n) \<longrightarrow> hi_threads s u = Some (i, m) \<longrightarrow> t = u)"

definition unnamed :: "handler_ids \<Rightarrow> nat \<Rightarrow> nat \<Rightarrow> bool" where
  "unnamed s i n \<longleftrightarrow> (\<forall>t m. hi_threads s t = Some (i, m) \<longrightarrow> m < n)"

lemma get_handler_id_next:
  assumes "ids_ok (Suc k) s"
  obtains i n s' where "get_handler_id t s = (decimal i @ '':'' @ decimal n, s')" "ids_ok k s'" "unnamed s i n"
    "\<And>j m. unnamed s' j m \<Longrightarrow> unnamed s j m \<and> (j, m) \<noteq> (i, n)"
proof (cases "hi_threads s t")
  case None
  let ?i = "Suc (hi_thread_counter s)"
  let ?s = "\<lparr>hi_thread_counter = ?i, hi_threads = (hi_threads s)(t \<mapsto> (?i, 1))\<rparr>"
  have "size_add (hi_thread_counter s) 1 = ?i" "size_add 0 1 = 1"
    using assms by (simp_all add: size_add_small ids_ok_def)
  then have "get_handler_id t s = (decimal ?i @ '':'' @ decimal 1, ?s)"
    using None by (simp add: get_handler_id_def thread_local_def Let_def)
  moreover have "ids_ok k ?s" using assms by (fastforce simp: ids_ok_def)
  moreover have "unnamed s ?i 1" using assms by (fastforce simp: ids_ok_def unnamed_def)
  moreover have "unnamed s j m \<and> (j, m) \<noteq> (?i, 1)" if u: "unnamed ?s j m" for j m
  proof -
    have "n < m" if "hi_threads s v = Some (j, n)" for v n
      using u [unfolded unnamed_def, rule_format, of v n] that None by (cases "v = t") auto
    moreover have "(j, m) \<noteq> (?i, 1)" using u [unfolded unnamed_def, rule_format, of t] by auto
    ultimately show ?thesis by (simp add: unnamed_def)
  qed
  ultimately show thesis by (rule that)
next
  case (Some p)
  obtain i n where p: "hi_threads s t = Some (i, n)" using Some by (cases p) auto
  let ?s = "s\<lparr>hi_threads := (hi_threads s)(t \<mapsto> (i, Suc n))\<rparr>"
  have "n + Suc k < 2 ^ 64" using assms p unfolding ids_ok_def by blast
  then have "size_add n 1 = Suc n" by (simp add: size_add_small)
  then have "get_handler_id t s = (decimal i @ '':'' @ decimal (Suc n), ?s)"
    using p by (simp add: get_handler_id_def thread_local_def Let_def)
  moreover have "ids_ok k ?s" using assms p by (fastforce simp: ids_ok_def)
  moreover have "unnamed s i (Suc n)" using assms p by (fastforce simp: ids_ok_def unnamed_def)
  moreover have "unnamed s j m \<and> (j, m) \<noteq> (i, Suc n)" if u: "unnamed ?s j m" for j m
  proof -
    have "k < m" if "hi_threads s v = Some (j, k)" for v k
      using u [unfolded unnamed_def, rule_format, of v k] u [unfolded unnamed_def, rule_format, of t "Suc n"] that p
      by (cases "v = t") auto
    moreover have "(j, m) \<noteq> (i, Suc n)" using u [unfolded unnamed_def, rule_format, of t] by auto
    ultimately show ?thesis by (simp add: unnamed_def)
  qed
  ultimately show thesis by (rule that)
qed

definition free_name :: "handler_ids \<Rightarrow> string \<Rightarrow> bool" where
  "free_name s w \<longleftrightarrow> (\<exists>i n. w = decimal i @ '':'' @ decimal n \<and> unnamed s i n)"

lemma handler_names_distinct:
  "ids_ok (length ts) s \<Longrightarrow> distinct (handler_names ts s) \<and> list_all (free_name s) (handler_names ts s)"
proof (induction ts arbitrary: s)
  case (Cons t ts)
  then have ok: "ids_ok (Suc (length ts)) s" by simp
  obtain i n s' where g: "get_handler_id t s = (decimal i @ '':'' @ decimal n, s')" "ids_ok (length ts) s'"
      "unnamed s i n" "\<And>j m. unnamed s' j m \<Longrightarrow> unnamed s j m \<and> (j, m) \<noteq> (i, n)"
    using get_handler_id_next [OF ok, of t] by blast
  let ?w = "decimal i @ '':'' @ decimal n"
  have free: "free_name s ?w" using g(3) free_name_def by blast
  have later: "free_name s w \<and> w \<noteq> ?w" if w: "free_name s' w" for w
  proof -
    obtain j m where jm: "w = decimal j @ '':'' @ decimal m" "unnamed s' j m" using w free_name_def by blast
    then show ?thesis using g(4) [OF jm(2)] name_inj free_name_def by auto
  qed
  have "distinct (handler_names ts s')" "list_all (free_name s') (handler_names ts s')"
    using Cons.IH [OF g(2)] by blast+
  then show ?case using g(1) free later by (auto simp: list_all_iff)
qed simp

text \<open>
  Every handler has a name of its own: whatever threads call in whatever order, no two calls of \<open>GetHandlerID\<close> give
  the same name, until a counter of 64 bits is used up.
\<close>

theorem handler_ids_unique:
  assumes "length ts < 2 ^ 64"
  shows "distinct (handler_names ts no_handlers)"
  using handler_names_distinct [of ts no_handlers] assms by (simp add: ids_ok_def no_handlers_def)

theorem handler_ids_unique_witness: "distinct (handler_names [5, 7, 5] no_handlers)"
  by (rule handler_ids_unique) simp

end
