(* ===== verification/MainProgram.thy ===== *)
theory MainProgram
  imports CmdLine MiniPlex
begin

text \<open>
  The main programs, \<open>src/src/main.cpp\<close> and \<open>src/src/ProtoConv/main.cpp\<close>, and the logger they set up,
  \<open>LogSetup.cpp\<close> of each. The command line, the log and the multiplexer or converter are made in order,
  and an exception there ends the program with status 1. Then the threads of the pool run the
  \<open>io_context\<close>: what they do is a sequence of actions, in any interleaving, on the state that decides how
  the program ends. TCLAP's parser, spdlog, the threads and the \<open>io_context\<close> are libraries: what a call
  of them did is a parameter or the choice of the action.
\<close>

section \<open>The log\<close>

datatype log_level = Trace | Debug | Info | Warn | Err | Critical | Off

primrec level_num :: "log_level \<Rightarrow> nat" where
  "level_num Trace = 0"
| "level_num Debug = 1"
| "level_num Info = 2"
| "level_num Warn = 3"
| "level_num Err = 4"
| "level_num Critical = 5"
| "level_num Off = 6"

lemma level_num_inj: "level_num a = level_num b \<Longrightarrow> a = b"
  by (cases a; cases b) simp_all

text \<open>The levels are the constants of an enumeration and compare as its numbers.\<close>

instantiation log_level :: linorder
begin

definition less_eq_log_level :: "log_level \<Rightarrow> log_level \<Rightarrow> bool" where
  "less_eq_log_level a b \<longleftrightarrow> level_num a \<le> level_num b"

definition less_log_level :: "log_level \<Rightarrow> log_level \<Rightarrow> bool" where
  "less_log_level a b \<longleftrightarrow> level_num a < level_num b"

instance
  by standard (auto simp: less_eq_log_level_def less_log_level_def dest: level_num_inj)

end

datatype log_target = Rotating_file string u64 nat | Console

record log_sink =
  sk_target :: log_target
  sk_level :: log_level

record log_setup =
  lg_name :: string
  lg_sinks :: "log_sink list"
  lg_level :: log_level
  lg_flush_on :: log_level
  lg_flush_every_s :: nat

datatype log_error = UnknownFileLevel string | UnknownConsoleLevel string | FileSinkFailed

text \<open>The log options of the two command lines, which have the same names.\<close>

record log_args =
  lo_console_level :: string
  lo_file_level :: string
  lo_file :: string
  lo_size :: u64
  lo_num :: nat

definition log_args_of :: "arg_decl list \<Rightarrow> given \<Rightarrow> log_args" where
  "log_args_of decls given =
    (let v = get_value decls given
     in \<lparr>lo_console_level = str_of (v ''console_logging''), lo_file_level = str_of (v ''file_logging''),
         lo_file = str_of (v ''log_file''), lo_size = of_nat (nat_of (v ''log_size'')),
         lo_num = nat_of (v ''log_num'')\<rparr>)"

text \<open>\<open>setup_logs\<close>: \<open>from_str\<close> is spdlog's, and \<open>sink_ok\<close> says whether its constructor of the rotating file
  returns. The size is computed in 64 bits.\<close>

definition setup_logs ::
  "(string \<Rightarrow> log_level) \<Rightarrow> (log_target \<Rightarrow> bool) \<Rightarrow> string \<Rightarrow> log_args \<Rightarrow> log_error + log_setup" where
  "setup_logs from_str sink_ok name a =
    (let file_level = from_str (lo_file_level a);
         console_level = from_str (lo_console_level a);
         file = Rotating_file (lo_file a) (lo_size a * 1024) (lo_num a)
     in if file_level = Off \<and> lo_file_level a \<noteq> ''off'' then Inl (UnknownFileLevel (lo_file_level a))
        else if console_level = Off \<and> lo_console_level a \<noteq> ''off'' then Inl (UnknownConsoleLevel (lo_console_level a))
        else if \<not> sink_ok file then Inl FileSinkFailed
        else Inr \<lparr>lg_name = name,
          lg_sinks = [\<lparr>sk_target = file, sk_level = file_level\<rparr>, \<lparr>sk_target = Console, sk_level = console_level\<rparr>],
          lg_level = (if file_level < console_level then file_level else console_level),
          lg_flush_on = Err, lg_flush_every_s = 3\<rparr>)"

definition setup_plex_logs :: "(string \<Rightarrow> log_level) \<Rightarrow> (log_target \<Rightarrow> bool) \<Rightarrow> log_args \<Rightarrow> log_error + log_setup" where
  "setup_plex_logs from_str sink_ok = setup_logs from_str sink_ok ''MiniPlex''"

definition setup_conv_logs :: "(string \<Rightarrow> log_level) \<Rightarrow> (log_target \<Rightarrow> bool) \<Rightarrow> log_args \<Rightarrow> log_error + log_setup" where
  "setup_conv_logs from_str sink_ok = setup_logs from_str sink_ok ''ProtoConv''"

text \<open>Options that can be used: spdlog gives \<open>off\<close> for a level it does not know.\<close>

definition log_args_ok :: "(string \<Rightarrow> log_level) \<Rightarrow> (log_target \<Rightarrow> bool) \<Rightarrow> log_args \<Rightarrow> bool" where
  "log_args_ok from_str sink_ok a \<longleftrightarrow>
    (from_str (lo_file_level a) = Off \<longrightarrow> lo_file_level a = ''off'')
    \<and> (from_str (lo_console_level a) = Off \<longrightarrow> lo_console_level a = ''off'')
    \<and> sink_ok (Rotating_file (lo_file a) (lo_size a * 1024) (lo_num a))"

lemma setup_logs_ok:
  "(\<exists>lg. setup_logs from_str sink_ok name a = Inr lg) \<longleftrightarrow> log_args_ok from_str sink_ok a"
  by (auto simp: setup_logs_def log_args_ok_def Let_def)

lemma setup_logs_level:
  assumes "setup_logs from_str sink_ok name a = Inr lg"
  shows "lg_level lg \<le> l \<longleftrightarrow> list_ex (\<lambda>k. sk_level k \<le> l) (lg_sinks lg)"
  using assms by (auto simp: setup_logs_def Let_def split: if_splits)

lemma default_log_args:
  "log_args_of (plex_decls hw) (\<lambda>_. []) =
    \<lparr>lo_console_level = ''critical'', lo_file_level = ''error'', lo_file = ''MiniPlex.log'', lo_size = 5000, lo_num = 3\<rparr>"
  "log_args_of (conv_decls hw) (\<lambda>_. []) =
    \<lparr>lo_console_level = ''critical'', lo_file_level = ''error'', lo_file = ''ProtoConv.log'', lo_size = 5000, lo_num = 3\<rparr>"
  by (simp_all only: log_args_of_def get_value_def list.case Let_def)
    (simp_all add: decl_default_def plex_decls_def conv_decls_def)

section \<open>The pool and the end of the program\<close>

text \<open>The main thread and the threads of the pool are in \<open>run\<close> of the \<open>io_context\<close>, between two handlers or
  in one, or have left it.\<close>

datatype runner = Between | In_handler | Left_run

datatype thread = Main_thread | Pool_thread nat

text \<open>How the program ends: with a status, or by \<open>std::terminate\<close>.\<close>

datatype exit = Return int | Terminated

datatype main_phase = Starting | Running runner | Joining nat | Gone exit

record main_state =
  mn_phase :: main_phase
  mn_threads :: "runner list"
  mn_stopped :: bool
  mn_waiting :: bool

definition main_start :: main_state where
  "main_start = \<lparr>mn_phase = Starting, mn_threads = [], mn_stopped = False, mn_waiting = False\<rparr>"

text \<open>An exception in the main thread leaves the \<open>try\<close> block, which destroys the vector of threads: with a
  thread in it that was not joined, that is \<open>std::terminate\<close>. Otherwise the handler returns 1. The destructors of
  the objects made before, which run first, are taken to return (those of ProtoConv's managers poll the
  \<open>io_context\<close> until their handlers have ended).\<close>

definition main_throws :: "main_state \<Rightarrow> main_state" where
  "main_throws s = s\<lparr>mn_phase := Gone (if mn_threads s = [] then Return 1 else Terminated)\<rparr>"

text \<open>What the threads do. \<open>Spawn\<close> and \<open>Set_signals\<close> say whether the constructor returned, \<open>Signalled\<close>
  whether the handler was called without an error.\<close>

datatype action =
    Spawn bool
  | Set_signals bool
  | Enter thread
  | Finish thread
  | Throw thread
  | Signalled thread bool
  | Leave thread
  | Join

fun runner_of :: "main_state \<Rightarrow> thread \<Rightarrow> runner option" where
  "runner_of s Main_thread = (case mn_phase s of Running r \<Rightarrow> Some r | _ \<Rightarrow> None)"
| "runner_of s (Pool_thread i) = (if i < length (mn_threads s) then Some (mn_threads s ! i) else None)"

fun set_runner :: "thread \<Rightarrow> runner \<Rightarrow> main_state \<Rightarrow> main_state" where
  "set_runner Main_thread r s = s\<lparr>mn_phase := Running r\<rparr>"
| "set_runner (Pool_thread i) r s = s\<lparr>mn_threads := (mn_threads s)[i := r]\<rparr>"

text \<open>One action, if it is possible. \<open>n\<close> is the number of threads to start. The handler of the signal takes
  away the work and stops the \<open>io_context\<close>; until then the work keeps \<open>run\<close> from returning.\<close>

fun main_act :: "nat \<Rightarrow> action \<Rightarrow> main_state \<Rightarrow> main_state option" where
  "main_act n (Spawn ok) s =
    (if mn_phase s = Starting \<and> length (mn_threads s) < n
     then Some (if ok then s\<lparr>mn_threads := mn_threads s @ [Between]\<rparr> else main_throws s) else None)"
| "main_act n (Set_signals ok) s =
    (if mn_phase s = Starting \<and> \<not> length (mn_threads s) < n
     then Some (if ok then s\<lparr>mn_phase := Running Between, mn_waiting := True\<rparr> else main_throws s) else None)"
| "main_act n (Enter t) s =
    (if runner_of s t = Some Between \<and> \<not> mn_stopped s then Some (set_runner t In_handler s) else None)"
| "main_act n (Finish t) s =
    (if runner_of s t = Some In_handler then Some (set_runner t Between s) else None)"
| "main_act n (Throw t) s =
    (if runner_of s t = Some In_handler
     then Some (if t = Main_thread then main_throws s else s\<lparr>mn_phase := Gone Terminated\<rparr>) else None)"
| "main_act n (Signalled t ok) s =
    (if runner_of s t = Some Between \<and> \<not> mn_stopped s \<and> mn_waiting s
     then Some (s\<lparr>mn_waiting := False, mn_stopped := ok\<rparr>) else None)"
| "main_act n (Leave t) s =
    (if runner_of s t = Some Between \<and> mn_stopped s
     then Some (if t = Main_thread then s\<lparr>mn_phase := Joining 0\<rparr> else set_runner t Left_run s) else None)"
| "main_act n Join s =
    (case mn_phase s of
       Joining i \<Rightarrow>
         if i < length (mn_threads s)
         then (if mn_threads s ! i = Left_run then Some (s\<lparr>mn_phase := Joining (i + 1)\<rparr>) else None)
         else Some (s\<lparr>mn_phase := Gone (Return 0)\<rparr>)
     | _ \<Rightarrow> None)"

text \<open>A run of the program; once it is gone nothing happens any more.\<close>

fun main_run :: "nat \<Rightarrow> action list \<Rightarrow> main_state \<Rightarrow> main_state option" where
  "main_run n [] s = Some s"
| "main_run n (a # as) s =
    (case mn_phase s of
       Gone _ \<Rightarrow> None
     | _ \<Rightarrow> (case main_act n a s of None \<Rightarrow> None | Some s' \<Rightarrow> main_run n as s'))"

fun is_throw :: "action \<Rightarrow> bool" where
  "is_throw (Throw _) = True"
| "is_throw (Spawn ok) = (\<not> ok)"
| "is_throw (Set_signals ok) = (\<not> ok)"
| "is_throw _ = False"

section \<open>The main functions\<close>

text \<open>The threads to start: the loop counts an \<open>int\<close> up to the hint.\<close>

definition concurrency :: "arg_decl list \<Rightarrow> given \<Rightarrow> nat" where
  "concurrency decls given = nat (int_of_arg (get_value decls given ''concurrency''))"

text \<open>Up to the start of the pool. The parser ends the program itself with a status (after a bad command
  line, or \<open>--help\<close>); every later exception is caught and gives 1. The result is how many threads are to
  run, the log and the multiplexer or converter.\<close>

definition plex_main ::
  "(string \<Rightarrow> 'a option) \<Rightarrow> ('a \<Rightarrow> u16 \<Rightarrow> 'ep) \<Rightarrow> 'ep \<Rightarrow> (string \<Rightarrow> log_level) \<Rightarrow> (log_target \<Rightarrow> bool) \<Rightarrow>
   (string \<Rightarrow> u8 list option) \<Rightarrow> int \<Rightarrow> int + given \<Rightarrow> exit + nat \<times> log_setup \<times> 'ep plex" where
  "plex_main from_string endpoint no_ep from_str sink_ok file hw parsed =
    (case parsed of
       Inl status \<Rightarrow> Inl (Return status)
     | Inr given \<Rightarrow>
         let a = plex_args_of hw given
         in case check_plex_args from_string a of
           Inl _ \<Rightarrow> Inl (Return 1)
         | Inr _ \<Rightarrow>
             (case setup_plex_logs from_str sink_ok (log_args_of (plex_decls hw) given) of
                Inl _ \<Rightarrow> Inl (Return 1)
              | Inr lg \<Rightarrow>
                  (case new_plex from_string endpoint no_ep a
                      (file (str_of (get_value (plex_decls hw) given ''byte_code''))) of
                     Inl _ \<Rightarrow> Inl (Return 1)
                   | Inr px \<Rightarrow> Inr (concurrency (plex_decls hw) given, lg, px))))"

definition conv_main ::
  "(string \<Rightarrow> 'a option) \<Rightarrow> (string \<Rightarrow> bool) \<Rightarrow> (u32 \<Rightarrow> bool) \<Rightarrow> nat \<Rightarrow> (string \<Rightarrow> log_level) \<Rightarrow>
   (log_target \<Rightarrow> bool) \<Rightarrow> int \<Rightarrow> int + given \<Rightarrow> exit + nat \<times> log_setup \<times> proto_conv" where
  "conv_main from_string open_ok char_size_ok now from_str sink_ok hw parsed =
    (case parsed of
       Inl status \<Rightarrow> Inl (Return status)
     | Inr given \<Rightarrow>
         let a = conv_args_of hw given
         in case check_conv_args from_string a of
           Inl _ \<Rightarrow> Inl (Return 1)
         | Inr _ \<Rightarrow>
             (case setup_conv_logs from_str sink_ok (log_args_of (conv_decls hw) given) of
                Inl _ \<Rightarrow> Inl (Return 1)
              | Inr lg \<Rightarrow>
                  (case new_proto_conv from_string read_u32 open_ok char_size_ok now a of
                     Inl _ \<Rightarrow> Inl (Return 1)
                   | Inr c \<Rightarrow> Inr (concurrency (conv_decls hw) given, lg, c))))"

text \<open>All of \<open>main\<close>: the exit before the pool, or the state the actions \<open>acts\<close> lead to. In the benchmark the
  main thread calls \<open>poll_one\<close> in place of \<open>run\<close>: it takes handlers in the same way and the signal it raises
  at the end is handled like any other.\<close>

definition plex_program ::
  "(string \<Rightarrow> 'a option) \<Rightarrow> ('a \<Rightarrow> u16 \<Rightarrow> 'ep) \<Rightarrow> 'ep \<Rightarrow> (string \<Rightarrow> log_level) \<Rightarrow> (log_target \<Rightarrow> bool) \<Rightarrow>
   (string \<Rightarrow> u8 list option) \<Rightarrow> int \<Rightarrow> int + given \<Rightarrow> action list \<Rightarrow> exit + main_state option" where
  "plex_program from_string endpoint no_ep from_str sink_ok file hw parsed acts =
    (case plex_main from_string endpoint no_ep from_str sink_ok file hw parsed of
       Inl e \<Rightarrow> Inl e
     | Inr (n, _, _) \<Rightarrow> Inr (main_run n acts main_start))"

definition conv_program ::
  "(string \<Rightarrow> 'a option) \<Rightarrow> (string \<Rightarrow> bool) \<Rightarrow> (u32 \<Rightarrow> bool) \<Rightarrow> nat \<Rightarrow> (string \<Rightarrow> log_level) \<Rightarrow>
   (log_target \<Rightarrow> bool) \<Rightarrow> int \<Rightarrow> int + given \<Rightarrow> action list \<Rightarrow> exit + main_state option" where
  "conv_program from_string open_ok char_size_ok now from_str sink_ok hw parsed acts =
    (case conv_main from_string open_ok char_size_ok now from_str sink_ok hw parsed of
       Inl e \<Rightarrow> Inl e
     | Inr (n, _, _) \<Rightarrow> Inr (main_run n acts main_start))"

section \<open>How the program ends\<close>

fun is_stop :: "action \<Rightarrow> bool" where
  "is_stop (Signalled _ ok) = ok"
| "is_stop _ = False"

text \<open>\<open>thr\<close> and \<open>stop\<close> tell whether an exception was thrown and whether the signal came.\<close>

definition main_inv :: "nat \<Rightarrow> bool \<Rightarrow> bool \<Rightarrow> main_state \<Rightarrow> bool" where
  "main_inv n thr stop s \<longleftrightarrow>
    (thr \<longleftrightarrow> mn_phase s = Gone (if mn_threads s = [] then Return 1 else Terminated))
    \<and> (stop \<longleftrightarrow> mn_stopped s) \<and> length (mn_threads s) \<le> n
    \<and> (case mn_phase s of
         Starting \<Rightarrow> \<not> mn_stopped s \<and> \<not> mn_waiting s
       | Running r \<Rightarrow> length (mn_threads s) = n \<and> r \<noteq> Left_run
       | Joining i \<Rightarrow> mn_stopped s \<and> length (mn_threads s) = n \<and> i \<le> n \<and> (\<forall>j<i. mn_threads s ! j = Left_run)
       | Gone e \<Rightarrow> thr \<or> e = Return 0 \<and> mn_stopped s \<and> mn_threads s = replicate n Left_run)"

lemma main_inv_start: "main_inv n False False main_start"
  by (simp add: main_inv_def main_start_def)

lemma all_left: "length ws = n \<Longrightarrow> \<forall>j<n. ws ! j = x \<Longrightarrow> ws = replicate n x"
  by (simp add: nth_equalityI)

text \<open>An action of a pool thread only changes that thread, and not a thread that has left.\<close>

lemma main_inv_set:
  assumes "main_inv n thr stop s" "\<not> (\<exists>e. mn_phase s = Gone e)" "runner_of s t = Some r" "r \<noteq> Left_run"
    "t = Main_thread \<Longrightarrow> r' \<noteq> Left_run"
  shows "main_inv n thr stop (set_runner t r' s)"
  using assms by (cases t) (auto simp: main_inv_def nth_list_update split: main_phase.splits if_splits)

lemma main_inv_throw:
  assumes "main_inv n thr stop s"
  shows "main_inv n True stop (main_throws s)"
  using assms by (auto simp: main_inv_def main_throws_def)

lemma main_inv_act:
  assumes "main_inv n False stop s" "\<not> (\<exists>e. mn_phase s = Gone e)" "main_act n a s = Some s'"
  shows "main_inv n (is_throw a) (stop \<or> is_stop a) s'"
proof (cases a)
  case (Spawn ok)
  then show ?thesis
    using assms main_inv_throw [OF assms(1)] by (cases ok) (auto simp: main_inv_def split: if_splits)
next
  case (Set_signals ok)
  then show ?thesis
    using assms main_inv_throw [OF assms(1)] by (cases ok) (auto simp: main_inv_def split: if_splits)
next
  case (Enter t)
  then show ?thesis
    using assms(3) main_inv_set [OF assms(1,2), of t Between In_handler] by (simp split: if_splits)
next
  case (Finish t)
  then show ?thesis
    using assms(3) main_inv_set [OF assms(1,2), of t In_handler Between] by (simp split: if_splits)
next
  case (Throw t)
  show ?thesis
  proof (cases t)
    case Main_thread
    then show ?thesis using assms(3) Throw main_inv_throw [OF assms(1)] by (simp split: if_splits)
  next
    case (Pool_thread i)
    then show ?thesis using assms Throw by (auto simp: main_inv_def split: if_splits)
  qed
next
  case (Signalled t ok)
  then show ?thesis
    using assms by (auto simp: main_inv_def split: if_splits main_phase.splits)
next
  case (Leave t)
  show ?thesis
  proof (cases t)
    case Main_thread
    then show ?thesis using assms Leave by (auto simp: main_inv_def split: if_splits main_phase.splits)
  next
    case (Pool_thread i)
    then show ?thesis
      using assms(3) Leave main_inv_set [OF assms(1,2), of t Between Left_run] by (simp split: if_splits)
  qed
next
  case Join
  then show ?thesis
    using assms by (auto simp: main_inv_def less_Suc_eq all_left split: if_splits main_phase.splits)
qed

lemma not_thrown: "main_inv n thr stop s \<Longrightarrow> \<not> (\<exists>e. mn_phase s = Gone e) \<Longrightarrow> thr = False"
  by (auto simp: main_inv_def)

lemma main_run_Cons:
  "main_run n (a # as) s = Some s' \<longleftrightarrow>
    \<not> (\<exists>e. mn_phase s = Gone e) \<and> (\<exists>m. main_act n a s = Some m \<and> main_run n as m = Some s')"
  by (auto split: main_phase.splits option.splits)

lemma main_run_inv:
  assumes "main_inv n thr stop s" "main_run n as s = Some s'"
  shows "main_inv n (thr \<or> list_ex is_throw as) (stop \<or> list_ex is_stop as) s'"
  using assms
proof (induction as arbitrary: thr stop s)
  case (Cons a as)
  obtain m where m: "\<not> (\<exists>e. mn_phase s = Gone e)" "main_act n a s = Some m" "main_run n as m = Some s'"
    using Cons.prems(2) main_run_Cons by blast
  have thr: "thr = False" using not_thrown [OF Cons.prems(1) m(1)] .
  have "main_inv n (is_throw a) (stop \<or> is_stop a) m"
    using main_inv_act [OF _ m(1,2)] Cons.prems(1) by (simp add: thr)
  from Cons.IH [OF this m(3)] show ?case by (simp add: thr disj_assoc)
qed simp

lemma main_run_append:
  "main_run n (as @ bs) s = Some s' \<longleftrightarrow> (\<exists>m. main_run n as s = Some m \<and> main_run n bs m = Some s')"
proof (induction as arbitrary: s)
  case (Cons a as)
  then show ?case by (auto simp only: append_Cons main_run_Cons)
qed simp

text \<open>
  C29. How the programs end once the pool is being started: an exception, in any thread, ends the program,
  with status 1 only when no thread was started, and by \<open>std::terminate\<close> otherwise; and the program
  returns 0 only after the signal, when all its threads have left the \<open>io_context\<close>.
\<close>

theorem main_exits:
  assumes "main_run n acts main_start = Some s"
  shows "(list_ex is_throw acts \<longleftrightarrow> mn_phase s = Gone (if mn_threads s = [] then Return 1 else Terminated))
    \<and> (list_ex is_stop acts \<longleftrightarrow> mn_stopped s)
    \<and> (mn_phase s = Gone (Return 0) \<longrightarrow> mn_stopped s \<and> mn_threads s = replicate n Left_run)"
  using main_run_inv [OF main_inv_start assms] by (auto simp: main_inv_def split: if_splits)

definition demo_acts :: "action list" where
  "demo_acts = [Spawn True, Enter (Pool_thread 0), Spawn True, Set_signals True]"

theorem main_exits_witness:
  "main_run 2 (demo_acts @ [Throw (Pool_thread 0)]) main_start \<noteq> None
    \<and> mn_phase (the (main_run 2 (demo_acts @ [Throw (Pool_thread 0)]) main_start)) = Gone Terminated"
proof -
  have "main_run 2 (demo_acts @ [Throw (Pool_thread 0)]) main_start =
      Some \<lparr>mn_phase = Gone Terminated, mn_threads = [In_handler, Between], mn_stopped = False, mn_waiting = True\<rparr>"
    by (simp add: demo_acts_def main_start_def)
  from main_exits [OF this] this show ?thesis by simp
qed

section \<open>Shutdown\<close>

primrec runner_left :: "runner \<Rightarrow> nat" where
  "runner_left In_handler = 2"
| "runner_left Between = 1"
| "runner_left Left_run = 0"

text \<open>How many actions are left after the signal, at most.\<close>

definition actions_left :: "nat \<Rightarrow> main_state \<Rightarrow> nat" where
  "actions_left n s =
    (case mn_phase s of
       Running r \<Rightarrow> runner_left r + n + 1
     | Joining i \<Rightarrow> n + 1 - i
     | _ \<Rightarrow> 0) + sum_list (map runner_left (mn_threads s))"

lemma runner_left_update:
  "i < length ws \<Longrightarrow> runner_left r < runner_left (ws ! i) \<Longrightarrow>
    sum_list (map runner_left (ws[i := r])) < sum_list (map runner_left ws)"
proof (induction ws arbitrary: i)
  case (Cons w ws)
  then show ?case by (cases i) simp_all
qed simp

lemma less_diff_add: "(x :: nat) < y \<Longrightarrow> i \<le> n \<Longrightarrow> Suc (n + x) - i < Suc (n + y) - i"
  by simp

lemma actions_left_act:
  assumes "main_inv n False True s" "main_act n a s = Some s'" "\<not> is_throw a"
  shows "actions_left n s' < actions_left n s"
proof -
  have st: "mn_stopped s" "mn_phase s \<noteq> Starting" using assms(1) by (auto simp: main_inv_def)
  show ?thesis
  proof (cases a)
    case (Finish t)
    then show ?thesis using assms(1,2) st
      by (cases t) (auto simp: actions_left_def main_inv_def runner_left_update less_diff_add
          split: if_splits main_phase.splits)
  next
    case (Leave t)
    then show ?thesis using assms(1,2) st
      by (cases t) (auto simp: actions_left_def main_inv_def runner_left_update less_diff_add
          split: if_splits main_phase.splits)
  next
    case Join
    then show ?thesis using assms(1,2) st
      by (auto simp: actions_left_def main_inv_def split: if_splits main_phase.splits)
  qed (use assms st in \<open>auto split: if_splits\<close>)
qed

lemma actions_left_run:
  assumes "main_inv n False True s" "main_run n as s = Some s'" "\<not> list_ex is_throw as"
  shows "length as + actions_left n s' \<le> actions_left n s"
  using assms
proof (induction as arbitrary: s)
  case (Cons a as)
  obtain m where m: "\<not> (\<exists>e. mn_phase s = Gone e)" "main_act n a s = Some m" "main_run n as m = Some s'"
    using Cons.prems(2) main_run_Cons by blast
  have "main_inv n False True m"
    using main_inv_act [OF Cons.prems(1) m(1,2)] Cons.prems(3) by simp
  then have "length as + actions_left n s' \<le> actions_left n m" using Cons.IH m(3) Cons.prems(3) by simp
  moreover have "actions_left n m < actions_left n s"
    using actions_left_act [OF Cons.prems(1) m(2)] Cons.prems(3) by simp
  ultimately show ?case by simp
qed simp

lemma runner_left_le: "runner_left r \<le> 2"
  by (cases r) simp_all

lemma sum_runner_left: "sum_list (map runner_left ws) \<le> 2 * length ws"
  by (induction ws) (use runner_left_le in \<open>auto intro: add_le_mono [of _ 2, simplified]\<close>)

lemma actions_left_bound: "main_inv n False True s \<Longrightarrow> actions_left n s \<le> 3 * n + 3"
  using sum_runner_left [of "mn_threads s"] runner_left_le
  by (auto simp: actions_left_def main_inv_def intro: le_trans [OF add_le_mono] split: main_phase.splits)

text \<open>After the signal some thread can always act without an exception, until the program has returned.\<close>

lemma main_progress:
  assumes "main_inv n False True s" "mn_phase s \<noteq> Gone (Return 0)"
  shows "\<exists>a. \<not> is_throw a \<and> main_act n a s \<noteq> None"
proof (cases "mn_phase s")
  case (Running r)
  then have "r = Between \<or> r = In_handler" using assms(1) by (cases r) (auto simp: main_inv_def)
  then show ?thesis
    using Running assms(1) by (auto simp: main_inv_def intro: exI [of _ "Leave Main_thread"] exI [of _ "Finish Main_thread"])
next
  case (Joining i)
  show ?thesis
  proof (cases "i < length (mn_threads s)")
    case True
    consider "mn_threads s ! i = Between" | "mn_threads s ! i = In_handler" | "mn_threads s ! i = Left_run"
      by (cases "mn_threads s ! i")
    then show ?thesis
    proof cases
      case 1
      then show ?thesis using True assms(1) Joining by (intro exI [of _ "Leave (Pool_thread i)"]) (simp add: main_inv_def)
    next
      case 2
      then show ?thesis using True by (intro exI [of _ "Finish (Pool_thread i)"]) simp
    next
      case 3
      then show ?thesis using True Joining by (intro exI [of _ Join]) simp
    qed
  next
    case False
    then show ?thesis using Joining by (intro exI [of _ Join]) simp
  qed
qed (use assms in \<open>auto simp: main_inv_def\<close>)

text \<open>
  C28. The shutdown ends: after the signal, as long as no handler throws, at most \<open>3 n + 3\<close> more actions
  of the main thread and the \<open>n\<close> threads of the pool are possible, and until the program has returned 0
  some thread can act, so the main thread is not left waiting for a thread that does not end.
\<close>

theorem main_shuts_down:
  assumes "main_run n acts main_start = Some s" "mn_stopped s" "main_run n rest s = Some s'"
    "\<not> list_ex is_throw (acts @ rest)"
  shows "length rest \<le> 3 * n + 3
    \<and> (mn_phase s' = Gone (Return 0) \<or> (\<exists>a. \<not> is_throw a \<and> main_act n a s' \<noteq> None))"
proof -
  have "list_ex is_stop acts = mn_stopped s" "\<not> list_ex is_throw acts" "\<not> list_ex is_throw rest"
    using main_run_inv [OF main_inv_start assms(1)] assms(4) by (simp_all add: main_inv_def)
  then have inv: "main_inv n False True s" and rest: "\<not> list_ex is_throw rest"
    using main_run_inv [OF main_inv_start assms(1)] assms(2) by simp_all
  have "main_inv n False True s'" using main_run_inv [OF inv assms(3)] rest by simp
  then show ?thesis
    using main_progress [of n s'] actions_left_run [OF inv assms(3) rest] actions_left_bound [OF inv] by auto
qed

definition demo_shutdown :: "action list" where
  "demo_shutdown = [Finish (Pool_thread 0), Leave Main_thread, Leave (Pool_thread 0), Join,
    Leave (Pool_thread 1), Join, Join]"

theorem main_shuts_down_witness:
  "\<exists>s s'. main_run 2 (demo_acts @ [Signalled (Pool_thread 1) True]) main_start = Some s
    \<and> main_run 2 demo_shutdown s = Some s' \<and> mn_phase s' = Gone (Return 0) \<and> length demo_shutdown \<le> 3 * 2 + 3"
proof -
  define s where "s = \<lparr>mn_phase = Running Between, mn_threads = [In_handler, Between], mn_stopped = True, mn_waiting = False\<rparr>"
  define s' where "s' = \<lparr>mn_phase = Gone (Return 0), mn_threads = [Left_run, Left_run], mn_stopped = True, mn_waiting = False\<rparr>"
  have 1: "main_run 2 (demo_acts @ [Signalled (Pool_thread 1) True]) main_start = Some s"
    by (simp add: demo_acts_def main_start_def s_def)
  have 2: "main_run 2 demo_shutdown s = Some s'"
    by (simp add: demo_shutdown_def s_def s'_def)
  have "length demo_shutdown \<le> 3 * 2 + 3"
    using main_shuts_down [OF 1 _ 2] by (simp add: s_def demo_acts_def demo_shutdown_def)
  then show ?thesis using 1 2 by (auto simp: s'_def)
qed

section \<open>Before the pool\<close>

text \<open>A command line of the declared types that passes the checks, with log levels that spdlog knows, a log
  file it can open and a mode, brings the multiplexer up.\<close>

lemma plex_main_up:
  assumes "check_plex_args from_string (plex_args_of hw given) = Inr ()"
    "setup_plex_logs from_str sink_ok (log_args_of (plex_decls hw) given) = Inr lg"
    "new_plex from_string endpoint no_ep (plex_args_of hw given)
      (file (str_of (get_value (plex_decls hw) given ''byte_code''))) = Inr px"
  shows "plex_main from_string endpoint no_ep from_str sink_ok file hw (Inr given) =
    Inr (concurrency (plex_decls hw) given, lg, px)"
  using assms by (simp add: plex_main_def Let_def)

text \<open>Up to here no thread exists, so every failure is a status: TCLAP's, or 1.\<close>

lemma main_fails:
  "plex_main from_string endpoint no_ep from_str sink_ok file hw (Inr given) = Inl e \<Longrightarrow> e = Return 1"
  "conv_main from_string open_ok char_size_ok now from_str sink_ok hw (Inr given) = Inl e \<Longrightarrow> e = Return 1"
  by (auto simp: plex_main_def conv_main_def Let_def split: sum.splits)

text \<open>
  The log passes what one of its sinks takes: the level of the logger is at most a level exactly when
  the level of the file or of the console is, so no message a sink wants is dropped and none is formatted
  for nothing. Setting it up fails exactly for an unknown level or a file that cannot be opened.
\<close>

theorem log_levels:
  "case setup_plex_logs from_str sink_ok a of
     Inl e \<Rightarrow> \<not> log_args_ok from_str sink_ok a
   | Inr lg \<Rightarrow> log_args_ok from_str sink_ok a
       \<and> (lg_level lg \<le> l \<longleftrightarrow> list_ex (\<lambda>k. sk_level k \<le> l) (lg_sinks lg))"
  using setup_logs_ok [of from_str sink_ok "''MiniPlex''" a] setup_logs_level [of from_str sink_ok "''MiniPlex''" a]
  by (auto simp: setup_plex_logs_def split: sum.split)

end
