(* ===== verification/PlexBenchmark.thy ===== *)
theory PlexBenchmark
  imports MiniPlex
begin

text \<open>
  The loopback benchmark of the multiplexer, \<open>MiniPlex::Benchmark\<close> of \<open>src/src/MiniPlex.cpp\<close>. The loop
  either posts a datagram to itself or lets the \<open>io_context\<close> do one handler. What it reads while it
  runs, the receive counter, the clock and whether the \<open>io_context\<close> was stopped, is given one triple per
  turn.
\<close>

section \<open>The loop\<close>

text \<open>\<open>Spoof k\<close> posts a 500 byte datagram to the own endpoint from the \<open>k\<close>-th socket of the pool.\<close>

datatype bench_action = Spoof nat | Poll_one

definition sock_pool_count :: u64 where
  "sock_pool_count = 100"

definition bench_turn :: "u64 \<Rightarrow> u64 \<Rightarrow> bench_action \<times> u64" where
  "bench_turn rx_count spoof_count =
    (if spoof_count < rx_count + 50
     then (Spoof (unat (spoof_count mod sock_pool_count)), spoof_count + 1)
     else (Poll_one, spoof_count))"

text \<open>A \<open>do\<close> loop: the time and the stop flag are read after each turn. The result is the actions, and the
  elapsed milliseconds when the loop ended within the given turns.\<close>

fun benchmark_loop :: "int \<Rightarrow> (u64 \<times> int \<times> bool) list \<Rightarrow> u64 \<Rightarrow> bench_action list \<times> int option" where
  "benchmark_loop duration [] spoof_count = ([], None)"
| "benchmark_loop duration ((rx_count, elapsed, stopped) # obs) spoof_count =
    (case bench_turn rx_count spoof_count of (a, spoof_count) \<Rightarrow>
     if elapsed < duration \<and> \<not> stopped
     then (case benchmark_loop duration obs spoof_count of (as, r) \<Rightarrow> (a # as, r))
     else ([a], Some elapsed))"

text \<open>The duration is a \<open>size_t\<close> that becomes a signed count of milliseconds.\<close>

definition benchmark :: "u64 \<Rightarrow> (u64 \<times> int \<times> bool) list \<Rightarrow> bench_action list \<times> int option" where
  "benchmark bench_duration obs = benchmark_loop (sint bench_duration) obs 0"

fun spoofs :: "bench_action list \<Rightarrow> nat list" where
  "spoofs [] = []"
| "spoofs (Spoof k # as) = k # spoofs as"
| "spoofs (Poll_one # as) = spoofs as"

section \<open>Pacing\<close>

lemma unat_add_small: "unat (w :: u64) + n < 2 ^ 64 \<Longrightarrow> unat (w + of_nat n) = unat w + n"
  by (simp add: unat_word_ariths unat_of_nat)

lemma bench_turn_paced:
  assumes "bench_turn rx s = (a, s')" "unat rx \<le> R" "R + 50 < 2 ^ 64" "unat s \<le> R + 50"
  shows "unat s' \<le> R + 50 \<and> unat s' = unat s + length (spoofs [a])
    \<and> spoofs [a] = map (\<lambda>i. i mod 100) [unat s..<unat s']"
proof -
  have "unat rx + 50 < 2 ^ 64" using assms(2,3) by linarith
  then have rx: "unat (rx + 50) = unat rx + 50" using unat_add_small [of rx 50] by (simp only: of_nat_numeral)
  show ?thesis
  proof (cases "s < rx + 50")
    case True
    then have lt: "unat s < unat rx + 50" using rx by (simp only: word_less_nat_alt)
    then have "unat s + 1 < 2 ^ 64" using assms(2,3) by linarith
    then have s1: "unat (s + 1) = unat s + 1" using unat_add_small [of s 1] by (simp only: of_nat_1)
    have "a = Spoof (unat (s mod sock_pool_count))" "s' = s + 1"
      using assms(1) True by (simp_all add: bench_turn_def)
    moreover have "unat (s mod sock_pool_count) = unat s mod 100" by (simp add: unat_mod sock_pool_count_def)
    ultimately show ?thesis using s1 lt assms(2) by simp
  next
    case False
    then have "a = Poll_one" "s' = s" using assms(1) by (simp_all add: bench_turn_def)
    then show ?thesis using assms(4) by simp
  qed
qed

lemma spoofs_cons: "spoofs (a # as) = spoofs [a] @ spoofs as"
  by (cases a) simp_all

lemma benchmark_loop_paced:
  assumes "benchmark_loop d obs s = (as, r)" "list_all (\<lambda>(rx, _). unat rx \<le> R) obs" "R + 50 < 2 ^ 64"
    "unat s \<le> R + 50"
  shows "unat s + length (spoofs as) \<le> R + 50
    \<and> spoofs as = map (\<lambda>i. i mod 100) [unat s..<unat s + length (spoofs as)]"
  using assms(1,2,4)
proof (induction obs arbitrary: s as r)
  case (Cons ob obs)
  obtain rx e st where ob: "ob = (rx, e, st)" by (cases ob) auto
  obtain a s' where t: "bench_turn rx s = (a, s')" by (cases "bench_turn rx s")
  have rx: "unat rx \<le> R" and obs: "list_all (\<lambda>(rx, _). unat rx \<le> R) obs"
    using Cons.prems(2) by (simp_all add: ob)
  have turn: "unat s' \<le> R + 50" "unat s' = unat s + length (spoofs [a])"
    "spoofs [a] = map (\<lambda>i. i mod 100) [unat s..<unat s']"
    using bench_turn_paced [OF t rx assms(3) Cons.prems(3)] by blast+
  show ?case
  proof (cases "e < d \<and> \<not> st")
    case True
    obtain as' r' where l: "benchmark_loop d obs s' = (as', r')" by (cases "benchmark_loop d obs s'")
    then have as: "as = a # as'" using Cons.prems(1) True by (simp add: ob t)
    have IH: "unat s' + length (spoofs as') \<le> R + 50"
      "spoofs as' = map (\<lambda>i. i mod 100) [unat s'..<unat s' + length (spoofs as')]"
      using Cons.IH [OF l obs turn(1)] by blast+
    have len: "length (spoofs as) = length (spoofs [a]) + length (spoofs as')"
      by (simp add: as spoofs_cons [of a as'] del: spoofs.simps)
    have "spoofs as = map (\<lambda>i. i mod 100) ([unat s..<unat s'] @ [unat s'..<unat s' + length (spoofs as')])"
      using turn(3) IH(2) by (simp add: as spoofs_cons [of a as'] del: spoofs.simps upt_conv_Cons)
    also have "[unat s..<unat s'] @ [unat s'..<unat s' + length (spoofs as')] =
        [unat s..<unat s + length (spoofs as)]"
      using turn(2) len by (metis add.assoc le_add1 upt_add_eq_append)
    finally show ?thesis using IH(1) turn(2) len by simp
  next
    case False
    then have as: "as = [a]" using Cons.prems(1) by (auto simp: ob t)
    have "unat s + length (spoofs as) = unat s'" by (simp only: as turn(2))
    then show ?thesis using turn(1,3) by (simp only: as)
  qed
qed simp

lemma benchmark_loop_ends:
  "snd (benchmark_loop d obs s) = None \<longleftrightarrow> list_all (\<lambda>(_, elapsed, stopped). elapsed < d \<and> \<not> stopped) obs"
  by (induction d obs s rule: benchmark_loop.induct) (auto split: prod.splits)

text \<open>
  C40. The benchmark is paced by what is received: as long as the receive counter is at most \<open>R\<close>, it has
  sent at most \<open>R + 50\<close> datagrams, so no more than 50 are on their way, and it uses the hundred sockets in
  turn. It ends at the first turn after which the time is up or the \<open>io_context\<close> was stopped.
\<close>

theorem benchmark_paced:
  assumes "list_all (\<lambda>(rx_count, _). unat rx_count \<le> R) obs" "R + 50 < 2 ^ 64"
  shows "length (spoofs (fst (benchmark d obs))) \<le> R + 50
    \<and> spoofs (fst (benchmark d obs)) = map (\<lambda>i. i mod 100) [0..<length (spoofs (fst (benchmark d obs)))]
    \<and> (snd (benchmark d obs) = None \<longleftrightarrow>
        list_all (\<lambda>(_, elapsed, stopped). elapsed < sint d \<and> \<not> stopped) obs)"
  using benchmark_loop_paced [OF surjective_pairing assms, where s = 0]
  by (simp add: benchmark_def benchmark_loop_ends)

theorem benchmark_paced_witness:
  "benchmark 10 (replicate 52 (0, 5, False) @ [(1, 12, False)]) = (map Spoof [0..<50] @ [Poll_one, Poll_one, Spoof 50], Some 12)
    \<and> length (spoofs (fst (benchmark 10 (replicate 52 (0, 5, False) @ [(1, 12, False)])))) \<le> 1 + 50"
proof
  show e: "benchmark 10 (replicate 52 (0, 5, False) @ [(1, 12, False)]) = (map Spoof [0..<50] @ [Poll_one, Poll_one, Spoof 50], Some 12)"
    by code_simp
  have "list_all (\<lambda>(rx_count, _). unat (rx_count :: u64) \<le> 1) (replicate 52 (0, 5 :: int, False) @ [(1, 12, False)])"
    by code_simp
  then show "length (spoofs (fst (benchmark 10 (replicate 52 (0, 5, False) @ [(1, 12, False)])))) \<le> 1 + 50"
    using benchmark_paced [of 1 "replicate 52 (0, 5, False) @ [(1, 12, False)]" 10] by simp
qed

end
