(* ===== verification/Spec2Isabelle.thy ===== *)
theory Spec2Isabelle
  imports RiscvIsa SwitchVxlan SwitchCrc PlexForwarding PlexPipeline CacheTimers SwitchFlow SwitchWireGuard TcpDrain
    TcpConnected SerialDrain SocketToSocket Platform LogStrings MainProgram PlexBenchmark
begin

text \<open>
  MiniPlex and ProtoConv, a verification library.

  The repository holds two programs. MiniPlex (\<open>src/src\<close>) is a UDP multiplexer: it receives datagrams on one
  socket and forwards each to other endpoints, by one of four modes (hub, trunk, prune, switch). The
  endpoints it forwards to are its fixed branches, from the command line, and the branches it has heard
  from lately, held in a cache with a timeout. In switch mode a user-supplied RISC-V program, run on a
  small virtual machine for every datagram, extracts a source and a destination address, and a second
  cache learns which branch an address lives on. ProtoConv (\<open>src/src/ProtoConv\<close>) converts between UDP
  datagrams and a byte stream over TCP or serial ports: outgoing datagrams may get a delimiter trailer,
  incoming bytes are cut into frames by a frame checker (delimiter, DNP3, or none), put in order by a
  fragment handler, and sent on as datagrams.

  Both are C++ around asio. Handlers that share state run in one strand each, so they are modelled as
  functions from the state to the new state and the effects (datagrams sent, operations started, handlers
  posted), and interleavings as step relations over the outstanding operations. Classes are records,
  exceptions values of a sum or of the state-and-exception type of \<open>Prelude\<close>, integers words of their
  width, and \<open>size_t\<close> either a natural number with the wrap-around written out (\<open>size_sub\<close>, \<open>size_add\<close>)
  or a word.

  \<^bold>\<open>The virtual machine\<close> (\<open>src/src/TinyRISCV64.h\<close>).
  \<^item> \<open>RiscvArith\<close>: division, remainder and the three high multiplications, with and without \<open>__int128\<close>.
    The emulation used by compilers without 128-bit integers equals the reference.
  \<^item> \<open>RiscvVM\<close>: the record \<open>vm\<close> and every operation of the class: loading, mapping, registers, stack,
    memory access, decoding and executing each instruction group, the run loop.
  \<^item> \<open>RiscvMemory\<close>: memory as a store of words. The locale \<open>word_store\<close> states the laws (load after store,
    independence of separate addresses) and is interpreted on \<open>mem_load\<close> and \<open>mem_store\<close>.
  \<^item> \<open>RiscvSafety\<close>: the sandbox. No program, however malformed, makes the machine access memory
    outside its three regions (a copy that would reach over the end of one is the result \<open>UndefinedAccess\<close>) or leaves a
    broken state, and a run ends within its budget.
  \<^item> \<open>RiscvIsa\<close>: what single instructions guarantee, such as the zero register and the division identity.

  \<^bold>\<open>The multiplexer\<close> (\<open>src/src/TimeoutCache.h\<close>, \<open>CmdArgs.h\<close>, \<open>MiniPlex.h\<close>, \<open>MiniPlex.cpp\<close>).
  \<^item> \<open>TimeoutCache\<close>: the cache of keys with a timer each. The abstract specification is the locale
    \<open>key_cache\<close>: what adding a key does to the sequence of keys.
    \<open>CacheTimers\<close>: the cache in the event loop, with clock and waits in flight: which keys it holds at which time.
  \<^item> \<open>CmdArgs\<close>, \<open>MiniPlex\<close>: the argument checks, construction, the four mode handlers, \<open>GetSrcDst\<close>,
    the timeout handlers. \<open>rcv_handler\<close> is the reaction to one datagram, \<open>None\<close> where the source has undefined behaviour:
    \<open>begin\<close> of an empty list (\<open>front\<close>), and what the machine reports of that kind.
  \<^item> \<open>PlexInvariant\<close>, \<open>PlexForwarding\<close>, \<open>PlexSwitch\<close>: the state invariant of all handlers, and for each
    mode exactly who receives a datagram.
  \<^item> \<open>PlexRuns\<close>: histories of datagrams and timeouts: no datagram returns to its sender, no handler fails,
    addresses are learned, fixed branches are never lost.
  \<^item> \<open>RcvPool\<close>: the receive loop with its buffer pool, as a step relation. \<open>PlexPipeline\<close>: both strands, the posted
    sends and the shared buffers, a refinement of the multiplexer that handles one datagram at a time.
  \<^item> \<open>SwitchExec\<close>, \<open>SwitchSymbolic\<close>: symbolic execution of a switch program on the machine, by which the
    simplifier runs it from its instruction words.
  \<^item> \<open>SwitchBytecode\<close>, \<open>SwitchFlow\<close>, \<open>SwitchWireGuard\<close>, \<open>SwitchVxlan\<close>, \<open>SwitchCrc\<close>: the shipped switch programs
    (\<open>src/Examples/SwitchBytecode\<close>): the first four run instruction by instruction, the fifth as its C source.
    The WireGuard program keeps a table of sessions behind its code, which makes it a state machine.

  \<^bold>\<open>The converter\<close> (\<open>src/src/ProtoConv\<close>).
  \<^item> \<open>Crc\<close>: the table-driven DNP3 checksum of \<open>DNP3FrameChecker.cpp\<close> against the bitwise one, as powers of a
    linear shift register, and which errors it detects.
  \<^item> \<open>Framing\<close>: frames and the loop that cuts a stream into them. The locale \<open>frame_checker\<close> is what the
    loop relies on; \<open>stable_checker\<close> adds that more bytes do not change a frame already found, so
    that the pieces in which a stream arrives do not matter; \<open>frame_code\<close> is a checker with an encoder.
  \<^item> \<open>DelimFrame\<close>, \<open>DNP3Frame\<close>: the two checkers, interpreted in these locales, with a reference
    encoder for DNP3 link frames: exactly the encodings of valid frames are accepted.
  \<^item> \<open>PrioQueue\<close>, \<open>DelimFrag\<close>, \<open>DNP3Frag\<close>: the reordering of frames. The locale \<open>prio_queue\<close> is the part of
    \<open>std::priority_queue\<close> the handlers use.
  \<^item> \<open>WriteQueue\<close>, \<open>SerialPorts\<close>: the bounded queue shared by both stream managers (locale
    \<open>drop_queue\<close>) and the serial manager. \<open>SerialDrain\<close>: its strands and operations in flight, a refinement of
    \<open>SerialPorts\<close>, and the destructor, which writes out the queue.
  \<^item> \<open>TcpManager\<close>: every handler of \<open>TCPSocketManager\<close>. \<open>TcpRuns\<close>: the strand and the operations in flight,
    and that there is one write at a time. \<open>TcpOrder\<close>: the order of the bytes, under the conditions
    the code needs. \<open>TcpRetry\<close>: the connection state, the retries and their backoff, throttling.
    \<open>TcpDrain\<close>: the destructor, which waits for the handlers in flight, and when it returns: what \<open>Close\<close> has to abort is
    counted as ending only when it was aborted (\<open>ends_alone\<close>).
    \<open>TcpConnected\<close>: a thread that asks for the state and runs handlers until it is answered.
  \<^item> \<open>ProtoConv\<close>: arguments, construction and the two data paths. \<open>TcpStream\<close> composes the
    converter, its TCP manager and the converter at the other end; \<open>SerialStream\<close> does so for several
    serial ports, where messages overtake one another and the reordering queue restores the order.
  \<^item> \<open>UdpToStream\<close>: the receive loop, the process strand and the buffers on their way back, in any
    interleaving. \<open>FragStrands\<close>: the strands behind the frame checker (of the delimiter, or one for each DNP3 flow)
    and the posted sends. \<open>SocketToSocket\<close> joins both with the TCP manager between them.
  \<^item> \<open>LogStrings\<close>: the computed strings of the log: dumps (\<open>buf2hex\<close>), listings of the queues (\<open>ToString\<close>) and
    names of handlers (\<open>GetHandlerID\<close>).

  \<^bold>\<open>Around them.\<close>
  \<^item> \<open>CmdLine\<close>: the arguments both programs declare (\<open>CmdArgs.h\<close> of each), the values they read, and the
    numbers in the backoff times.
  \<^item> \<open>Platform\<close>: keepalives and hardware flow control (\<open>Platform.h\<close>, \<open>NativeFlowCtrl.cpp\<close>), with \<open>Start\<close> and
    \<open>Stop\<close> of \<open>SerialPortsManager.cpp\<close> that use them.
  \<^item> \<open>MainProgram\<close>: the logger (\<open>LogSetup.cpp\<close>) and \<open>main.cpp\<close> of both programs: what is made in which order,
    and how the threads, the signal and exceptions end the program, as actions in any interleaving.
  \<^item> \<open>PlexBenchmark\<close>: the loop of \<open>MiniPlex::Benchmark\<close>.

  \<^bold>\<open>How the parts fit.\<close> \<open>rcv_handler\<close> calls the caches through \<open>tc_add\<close> and the machine through \<open>get_src_dst\<close>;
  the sandbox theorem and the memory laws give the contract of \<open>get_src_dst\<close>, the cache contract and
  the state invariant give the forwarding theorems, and these the theorems on histories. For the
  converter, \<open>conv_delim_identity\<close> joins the delimiter encoder, the stream loop and the reordering
  queue, and \<open>conv_multi_path\<close> adds the serial manager with any number of ports between them. These theorems treat
  each program as a function from what comes in to what goes out. What its strands do at the same time is a step
  relation of its own, shown to come to the same: \<open>plex_pipeline\<close> for the multiplexer, \<open>conv_in_order\<close> and
  \<open>strands_serve_flows\<close> for the two ends of the converter. \<open>conv_end_to_end\<close> composes the latter with the runs of the TCP
  manager: from socket to socket, with all strands of both programs.

  \<^bold>\<open>Bounds.\<close> \<open>GetSrcDst\<close> runs the machine with the source's own budget of 100000 instructions, and the run
  loop recurses on it. Programs are at most 1 MiB, as the loader enforces, and datagrams 64 KiB, the size of a receive buffer.
  Buffers of the DNP3 checker are shorter than \<open>2 ^ 60\<close> bytes, far above any memory, which is what tells its
  wrapped lengths from real ones. The stream loop needs no fuel: it is a partial function proved to end
  on every buffer. Sequence numbers of the delimiter are 32-bit words and wrap. The backoff theorem is
  for periods up to 32767 ms; above that the 16-bit period of the source wraps, as
  \<open>tcp_backoff_wraps\<close> shows. Instants and time-outs of the caches and of the reordering queue are unbounded natural
  numbers of nanoseconds. In the source they are 64-bit durations, converted from \<open>size_t\<close> milliseconds, so the model is that of
  time-outs below 292 years (\<open>2 ^ 63\<close> ns); a larger \<open>timeout\<close> or \<open>max_sequence_age_ms\<close> overflows in the source and not here.

  \<^bold>\<open>Outside the model.\<close> asio and the operating system are parameters: the address parser, opening devices,
  resolving, the results of reads and writes, clocks. A TCP step takes a \<open>world\<close> record with these
  answers, and \<open>possible\<close> states what asio documents about them; it allows any operation to fail at any time, and says
  nothing of what must happen, which is \<open>ends_alone\<close> for the destructor of the TCP manager and \<open>runs_alone\<close> for the serial one. TCLAP's parsing is a parameter
  too, as are spdlog's level names and its log file; what is declared to them and what is done with their
  results is modelled. When an exception unwinds \<open>main\<close>, the destructors run on the way are taken to return.

  \<^bold>\<open>Not modelled.\<close> The texts of log messages and the byte counts in them. A handler is one step: what a strand guards is
  changed by its handlers only, with one exception in the source. The timeout handler of \<open>TimeoutCache\<close> is posted to the
  \<open>io_context\<close> and not to the strand, so with several threads it runs while a handler of the process strand uses
  \<open>InactivePermaBranches\<close> (\<open>timeout_beside_handler\<close>). This is a data race, undefined in C++, and the theorems on the multiplexer hold of
  the runs in which it does not occur: the model runs the two one after the other, in any order. What is left of the source is
  licence texts, includes, declarations, and calls of asio, TCLAP and spdlog that the model takes as parameters.
\<close>

end
